(* ===== verification/Prelude.thy ===== *)
theory Prelude
  imports Main "HOL-Library.Word" "HOL-Library.Monad_Syntax"
begin

unbundle bit_operations_syntax

text \<open>
  Shared vocabulary of the development: the machine types of the C++ sources, the
  treatment of undefined behaviour, and the generic lemmas the components use.

  \<^item> \<open>uint8_t\<close>, \<open>uint32_t\<close>, \<open>uint64_t\<close> are words of that width; a byte buffer
    (\<open>std::vector<uint8_t>\<close>) is a list of bytes; a \<open>std::string\<close> is a list of
    characters, one per byte.
  \<^item> A pointer is an address (a natural number), a nullable pointer an optional address.
    Objects live in stores, finite or infinite maps from addresses to records.
  \<^item> Every operation whose C++ counterpart could dereference a null or freed pointer,
    index a vector out of range, fail an \<open>assert\<close> or loop for ever has a result of
    type \<open>option\<close>, where \<open>None\<close> stands for exactly these outcomes. A theorem that an
    operation equals \<open>Some r\<close> therefore includes the absence of undefined behaviour
    and termination.
\<close>

type_synonym u8 = "8 word"
type_synonym u32 = "32 word"
type_synonym u64 = "64 word"
type_synonym i64 = "64 word"
type_synonym byte = "8 word"
type_synonym addr = nat

named_theorems ub_simps \<open>evaluation of checked (option valued) accesses\<close>
named_theorems codec_simps \<open>length and round trip facts of byte encoders\<close>

subsection \<open>Checked vector accesses\<close>

definition vec_at :: "'a list \<Rightarrow> nat \<Rightarrow> 'a option" where
  "vec_at xs i = (if i < length xs then Some (xs ! i) else None)"

definition vec_set :: "'a list \<Rightarrow> nat \<Rightarrow> 'a \<Rightarrow> 'a list option" where
  "vec_set xs i x = (if i < length xs then Some (xs[i := x]) else None)"

lemma vec_at_Some [ub_simps, simp]: "i < length xs \<Longrightarrow> vec_at xs i = Some (xs ! i)"
  by (simp add: vec_at_def)

lemma vec_at_eq_Some_iff: "vec_at xs i = Some x \<longleftrightarrow> i < length xs \<and> xs ! i = x"
  by (auto simp: vec_at_def)

lemma vec_set_Some [ub_simps, simp]: "i < length xs \<Longrightarrow> vec_set xs i x = Some (xs[i := x])"
  by (simp add: vec_set_def)

lemma vec_set_eq_Some_iff: "vec_set xs i x = Some ys \<longleftrightarrow> i < length xs \<and> ys = xs[i := x]"
  by (auto simp: vec_set_def)

lemma option_eqI: "(\<And>v. x = Some v \<longleftrightarrow> y = Some v) \<Longrightarrow> x = y"
  by (cases x; cases y) auto

subsection \<open>Bytes and characters\<close>

text \<open>The casts between \<open>char\<close> and \<open>uint8_t\<close> keep the bit pattern.\<close>

definition byte_of_char :: "char \<Rightarrow> byte" where
  "byte_of_char c = word_of_nat (of_char c)"

definition char_of_byte :: "byte \<Rightarrow> char" where
  "char_of_byte b = char_of (unat b)"

lemma of_char_less_256 [simp]: "(of_char c :: nat) < 256"
  using nat_of_char_less_256 by simp

lemma unat_byte_of_char [simp]: "unat (byte_of_char c) = of_char c"
  by (simp add: byte_of_char_def unat_of_nat)

lemma char_of_byte_of_char [simp]: "char_of_byte (byte_of_char c) = c"
  by (simp add: char_of_byte_def)

lemma byte_of_char_of_byte [simp]: "byte_of_char (char_of_byte b) = b"
proof -
  have "unat b < 2 ^ 8" using unsigned_less [of b] by simp
  then show ?thesis
    by (simp add: byte_of_char_def char_of_byte_def of_char_of)
qed

lemma map_char_of_byte_of_char [simp]: "map (char_of_byte \<circ> byte_of_char) s = s"
  by (simp add: comp_def)

lemma byte_of_char_inject [simp]: "byte_of_char c = byte_of_char d \<longleftrightarrow> c = d"
  by (metis char_of_byte_of_char)

subsection \<open>Little-endian integers\<close>

text \<open>
  \<open>memcpy\<close> between an integer and a byte array on the little-endian hosts the code is
  written for: byte \<open>i\<close> holds bits \<open>8 * i\<close> to \<open>8 * i + 7\<close>.
\<close>

primrec le_bytes :: "nat \<Rightarrow> 'a::len word \<Rightarrow> byte list" where
  "le_bytes 0 w = []"
| "le_bytes (Suc n) w = ucast w # le_bytes n (drop_bit 8 w)"

primrec le_word :: "byte list \<Rightarrow> 'a::len word" where
  "le_word [] = 0"
| "le_word (b # bs) = ucast b OR push_bit 8 (le_word bs)"

lemma length_le_bytes [simp]: "length (le_bytes n w) = n"
  by (induction n arbitrary: w) simp_all

lemma bit_le_word_bytes:
  "bit (le_word (le_bytes n (w :: 'a::len word)) :: 'a word) i \<longleftrightarrow> i < 8 * n \<and> bit w i"
proof (induction n arbitrary: w i)
  case 0
  then show ?case by simp
next
  case (Suc n)
  then show ?case
    by (auto simp: bit_or_iff bit_unsigned_iff bit_push_bit_iff bit_drop_bit_eq dest: bit_imp_le_length)
qed

lemma le_word_bytes:
  "LENGTH('a) \<le> 8 * n \<Longrightarrow> le_word (le_bytes n (w :: 'a::len word)) = w"
  by (rule bit_word_eqI) (auto simp: bit_le_word_bytes)


lemma bit_le_word_less: "bit (le_word bs :: 'a::len word) i \<Longrightarrow> i < 8 * length bs"
proof (induction bs arbitrary: i)
  case Nil
  then show ?case by simp
next
  case (Cons b bs)
  then consider "bit b i" | "8 \<le> i" "bit (le_word bs :: 'a word) (i - 8)"
    by (auto simp: bit_or_iff bit_unsigned_iff bit_push_bit_iff)
  then show ?case
    using Cons.IH [of "i - 8"] by cases (auto dest: bit_imp_le_length)
qed

lemma le_bytes_word:
  "8 * length bs \<le> LENGTH('a) \<Longrightarrow> le_bytes (length bs) (le_word bs :: 'a::len word) = bs"
proof (induction bs)
  case Nil
  then show ?case by simp
next
  case (Cons b bs)
  have 1: "ucast (ucast b OR push_bit 8 (le_word bs) :: 'a word) = b"
    using Cons.prems
    by (intro bit_word_eqI) (auto simp: bit_or_iff bit_unsigned_iff bit_push_bit_iff)
  have 2: "drop_bit 8 (ucast b OR push_bit 8 (le_word bs) :: 'a word) = le_word bs"
    using Cons.prems
    by (intro bit_word_eqI)
       (auto simp: bit_or_iff bit_unsigned_iff bit_push_bit_iff bit_drop_bit_eq
             dest: bit_imp_le_length bit_le_word_less)
  show ?case
    using Cons.IH Cons.prems by (simp only: length_Cons le_bytes.simps le_word.simps 1 2) simp
qed

lemma le_word_take_bytes:
  "LENGTH('a) \<le> 8 * n \<Longrightarrow> le_word (take n (le_bytes n (w :: 'a::len word) @ rest)) = w"
  by (simp add: le_word_bytes)

lemma le_bytes_word_take:
  "8 * n = LENGTH('a) \<Longrightarrow> n \<le> length bs \<Longrightarrow> le_bytes n (le_word (take n bs) :: 'a::len word) = take n bs"
  using le_bytes_word [of "take n bs", where 'a = 'a] by (simp add: min_absorb2)

subsection \<open>Byte encoders and decoders\<close>

text \<open>
  The contract between a writer of bytes and its reader. \<open>enc x\<close> is what the writer
  appends, \<open>dec\<close> consumes a value from the front of a buffer, \<open>ok\<close> are the values
  the format can represent.
\<close>

fun dec_n :: "(byte list \<Rightarrow> ('a \<times> byte list) option) \<Rightarrow> nat \<Rightarrow> byte list \<Rightarrow> ('a list \<times> byte list) option" where
  "dec_n dec 0 bs = Some ([], bs)"
| "dec_n dec (Suc n) bs =
     (case dec bs of None \<Rightarrow> None
      | Some (x, bs') \<Rightarrow>
          (case dec_n dec n bs' of None \<Rightarrow> None | Some (xs, bs'') \<Rightarrow> Some (x # xs, bs'')))"

locale codec =
  fixes enc :: "'a \<Rightarrow> byte list"
    and dec :: "byte list \<Rightarrow> ('a \<times> byte list) option"
    and ok :: "'a \<Rightarrow> bool"
  assumes dec_enc: "ok x \<Longrightarrow> dec (enc x @ rest) = Some (x, rest)"
    and dec_sound: "dec bs = Some (x, rest) \<Longrightarrow> ok x \<and> bs = enc x @ rest"
begin

lemma enc_prefix_free:
  assumes "ok x" and "ok y" and "enc x @ r = enc y @ s"
  shows "x = y \<and> r = s"
  using assms dec_enc by (metis option.inject prod.inject)

lemma dec_iff: "dec bs = Some (x, rest) \<longleftrightarrow> ok x \<and> bs = enc x @ rest"
  using dec_enc dec_sound by blast

lemma dec_n_enc:
  "\<forall>x \<in> set xs. ok x \<Longrightarrow> dec_n dec (length xs) (concat (map enc xs) @ rest) = Some (xs, rest)"
  by (induction xs) (simp_all add: dec_enc)

lemma dec_n_sound:
  "dec_n dec n bs = Some (xs, rest) \<Longrightarrow>
     length xs = n \<and> (\<forall>x \<in> set xs. ok x) \<and> bs = concat (map enc xs) @ rest"
proof (induction n arbitrary: bs xs)
  case 0
  then show ?case by simp
next
  case (Suc n)
  then obtain x bs' xs' where "dec bs = Some (x, bs')" and "dec_n dec n bs' = Some (xs', rest)"
    and "xs = x # xs'"
    by (auto split: option.splits)
  with Suc.IH dec_sound show ?case by fastforce
qed

end

end
