(* ===== verification/Avl.thy ===== *)
theory Avl
  imports Prelude
begin

text \<open>
  The intrusive AVL tree (\<open>include/ds/avl.h\<close>, \<open>src/ds/avl.cpp\<close>), at the level of
  pointers. The nodes live in a store from addresses to \<open>AVLNode\<close> records; every read or
  write through a pointer is a checked access of the store, and a pointer to a pointer
  (\<open>AVLNode** from\<close>) is a \<open>slot\<close>: a local variable or a child field of a node.
  The loops follow pointers, so they are partial functions whose result \<open>None\<close> stands for
  a null or dangling dereference or an endless loop.
\<close>

record avl_node =
  a_parent :: "addr option"
  a_left :: "addr option"
  a_right :: "addr option"
  a_height :: u32
  a_cnt :: u32

type_synonym avl_store = "addr \<rightharpoonup> avl_node"

definition avl_blank :: avl_node where
  "avl_blank = \<lparr>a_parent = None, a_left = None, a_right = None, a_height = 1, a_cnt = 1\<rparr>"

lemma avl_blank_sel [simp]:
  "a_parent avl_blank = None" "a_left avl_blank = None" "a_right avl_blank = None"
  "a_height avl_blank = 1" "a_cnt avl_blank = 1"
  by (simp_all add: avl_blank_def)

subsection \<open>Field writes\<close>

definition upd_node :: "avl_store \<Rightarrow> addr \<Rightarrow> (avl_node \<Rightarrow> avl_node) \<Rightarrow> avl_store option" where
  "upd_node h p f = map_option (\<lambda>n. h(p \<mapsto> f n)) (h p)"

definition set_parent :: "avl_store \<Rightarrow> addr \<Rightarrow> addr option \<Rightarrow> avl_store option" where
  "set_parent h p x = upd_node h p (\<lambda>n. n\<lparr>a_parent := x\<rparr>)"

definition set_left :: "avl_store \<Rightarrow> addr \<Rightarrow> addr option \<Rightarrow> avl_store option" where
  "set_left h p x = upd_node h p (\<lambda>n. n\<lparr>a_left := x\<rparr>)"

definition set_right :: "avl_store \<Rightarrow> addr \<Rightarrow> addr option \<Rightarrow> avl_store option" where
  "set_right h p x = upd_node h p (\<lambda>n. n\<lparr>a_right := x\<rparr>)"

text \<open>\<open>if(p) p->parent = x\<close>\<close>

definition set_parent_opt :: "avl_store \<Rightarrow> addr option \<Rightarrow> addr option \<Rightarrow> avl_store option" where
  "set_parent_opt h p x = (case p of None \<Rightarrow> Some h | Some q \<Rightarrow> set_parent h q x)"

datatype slot = Local | LeftOf addr | RightOf addr

text \<open>\<open>*from = x\<close>, where a store through the address of a local leaves the heap alone.\<close>

fun store_slot :: "avl_store \<Rightarrow> slot \<Rightarrow> addr option \<Rightarrow> avl_store option" where
  "store_slot h Local x = Some h"
| "store_slot h (LeftOf p) x = set_left h p x"
| "store_slot h (RightOf p) x = set_right h p x"

text \<open>\<open>parent ? (parent->left == node ? &parent->left : &parent->right) : &local\<close>\<close>

definition slot_of :: "avl_store \<Rightarrow> addr \<Rightarrow> addr option \<Rightarrow> slot option" where
  "slot_of h node parent =
     (case parent of None \<Rightarrow> Some Local
      | Some p \<Rightarrow> map_option (\<lambda>pn. if a_left pn = Some node then LeftOf p else RightOf p) (h p))"

subsection \<open>Operations\<close>

definition avl_init :: "avl_store \<Rightarrow> addr \<Rightarrow> avl_store option" where
  "avl_init h p = upd_node h p (\<lambda>n. avl_blank)"

definition avl_height :: "avl_store \<Rightarrow> addr option \<Rightarrow> u32 option" where
  "avl_height h p = (case p of None \<Rightarrow> Some 0 | Some q \<Rightarrow> map_option a_height (h q))"

definition avl_cnt :: "avl_store \<Rightarrow> addr option \<Rightarrow> u32 option" where
  "avl_cnt h p = (case p of None \<Rightarrow> Some 0 | Some q \<Rightarrow> map_option a_cnt (h q))"

definition max_u32 :: "u32 \<Rightarrow> u32 \<Rightarrow> u32" where
  "max_u32 a b = (if a < b then b else a)"

definition avl_update :: "avl_store \<Rightarrow> addr \<Rightarrow> avl_store option" where
  "avl_update h node = do {
     n \<leftarrow> h node;
     hl \<leftarrow> avl_height h (a_left n);
     hr \<leftarrow> avl_height h (a_right n);
     h \<leftarrow> upd_node h node (\<lambda>n. n\<lparr>a_height := 1 + max_u32 hl hr\<rparr>);
     cl \<leftarrow> avl_cnt h (a_left n);
     cr \<leftarrow> avl_cnt h (a_right n);
     upd_node h node (\<lambda>n. n\<lparr>a_cnt := 1 + cl + cr\<rparr>)
   }"

definition rot_left :: "avl_store \<Rightarrow> addr \<Rightarrow> (avl_store \<times> addr) option" where
  "rot_left h node = do {
     n \<leftarrow> h node;
     let parent = a_parent n;
     new_node \<leftarrow> a_right n;
     nn \<leftarrow> h new_node;
     let inner = a_left nn;
     h \<leftarrow> set_right h node inner;
     h \<leftarrow> set_parent_opt h inner (Some node);
     h \<leftarrow> set_parent h new_node parent;
     h \<leftarrow> set_left h new_node (Some node);
     h \<leftarrow> set_parent h node (Some new_node);
     h \<leftarrow> avl_update h node;
     h \<leftarrow> avl_update h new_node;
     Some (h, new_node)
   }"

definition rot_right :: "avl_store \<Rightarrow> addr \<Rightarrow> (avl_store \<times> addr) option" where
  "rot_right h node = do {
     n \<leftarrow> h node;
     let parent = a_parent n;
     new_node \<leftarrow> a_left n;
     nn \<leftarrow> h new_node;
     let inner = a_right nn;
     h \<leftarrow> set_left h node inner;
     h \<leftarrow> set_parent_opt h inner (Some node);
     h \<leftarrow> set_parent h new_node parent;
     h \<leftarrow> set_right h new_node (Some node);
     h \<leftarrow> set_parent h node (Some new_node);
     h \<leftarrow> avl_update h node;
     h \<leftarrow> avl_update h new_node;
     Some (h, new_node)
   }"

definition avl_fix_left :: "avl_store \<Rightarrow> addr \<Rightarrow> (avl_store \<times> addr) option" where
  "avl_fix_left h node = do {
     n \<leftarrow> h node;
     l \<leftarrow> a_left n;
     ln \<leftarrow> h l;
     hll \<leftarrow> avl_height h (a_left ln);
     hlr \<leftarrow> avl_height h (a_right ln);
     h \<leftarrow> (if hll < hlr then do {
             (h, x) \<leftarrow> rot_left h l;
             set_left h node (Some x) }
           else Some h);
     rot_right h node
   }"

definition avl_fix_right :: "avl_store \<Rightarrow> addr \<Rightarrow> (avl_store \<times> addr) option" where
  "avl_fix_right h node = do {
     n \<leftarrow> h node;
     r \<leftarrow> a_right n;
     rn \<leftarrow> h r;
     hrr \<leftarrow> avl_height h (a_right rn);
     hrl \<leftarrow> avl_height h (a_left rn);
     h \<leftarrow> (if hrr < hrl then do {
             (h, x) \<leftarrow> rot_right h r;
             set_right h node (Some x) }
           else Some h);
     rot_left h node
   }"

text \<open>
  One round of the loop in \<open>avl_fix\<close>: recompute the node's aggregates, rotate if it is
  two levels out of balance and re-attach the result. The result is the store and the
  value of \<open>*from\<close>.
\<close>

definition avl_fix_node :: "avl_store \<Rightarrow> addr \<Rightarrow> addr option \<Rightarrow> (avl_store \<times> addr) option" where
  "avl_fix_node h node parent = do {
     from \<leftarrow> slot_of h node parent;
     h \<leftarrow> avl_update h node;
     n \<leftarrow> h node;
     l \<leftarrow> avl_height h (a_left n);
     r \<leftarrow> avl_height h (a_right n);
     if l = r + 2 then do {
       (h, x) \<leftarrow> avl_fix_left h node;
       h \<leftarrow> store_slot h from (Some x);
       Some (h, x) }
     else if l + 2 = r then do {
       (h, x) \<leftarrow> avl_fix_right h node;
       h \<leftarrow> store_slot h from (Some x);
       Some (h, x) }
     else Some (h, node)
   }"

partial_function (option) avl_fix :: "avl_store \<Rightarrow> addr \<Rightarrow> (avl_store \<times> addr) option" where
  "avl_fix h node = do {
     n \<leftarrow> h node;
     (h, res) \<leftarrow> avl_fix_node h node (a_parent n);
     (case a_parent n of None \<Rightarrow> Some (h, res) | Some p \<Rightarrow> avl_fix h p)
   }"

text \<open>Detaching a node returns the new root, null when the tree became empty.\<close>

definition avl_del_easy :: "avl_store \<Rightarrow> addr \<Rightarrow> (avl_store \<times> addr option) option" where
  "avl_del_easy h node = do {
     n \<leftarrow> h node;
     let child = (if a_left n \<noteq> None then a_left n else a_right n);
     let parent = a_parent n;
     h \<leftarrow> set_parent_opt h child parent;
     (case parent of
        None \<Rightarrow> Some (h, child)
      | Some p \<Rightarrow> do {
          from \<leftarrow> slot_of h node parent;
          h \<leftarrow> store_slot h from child;
          (h, r) \<leftarrow> avl_fix h p;
          Some (h, Some r) })
   }"

text \<open>\<open>while(victim->left) victim = victim->left\<close>\<close>

partial_function (option) leftmost :: "avl_store \<Rightarrow> addr \<Rightarrow> addr option" where
  "leftmost h victim = do {
     n \<leftarrow> h victim;
     (case a_left n of None \<Rightarrow> Some victim | Some l \<Rightarrow> leftmost h l)
   }"

definition avl_del :: "avl_store \<Rightarrow> addr \<Rightarrow> (avl_store \<times> addr option) option" where
  "avl_del h node = do {
     n \<leftarrow> h node;
     if a_left n = None \<or> a_right n = None then avl_del_easy h node
     else do {
       r \<leftarrow> a_right n;
       victim \<leftarrow> leftmost h r;
       (h, root) \<leftarrow> avl_del_easy h victim;
       n \<leftarrow> h node;
       h \<leftarrow> upd_node h victim (\<lambda>_. n);
       h \<leftarrow> set_parent_opt h (a_left n) (Some victim);
       h \<leftarrow> set_parent_opt h (a_right n) (Some victim);
       n' \<leftarrow> h node;
       let parent = a_parent n';
       from \<leftarrow> slot_of h node parent;
       h \<leftarrow> store_slot h from (Some victim);
       Some (h, if from = Local then Some victim else root)
     }
   }"

text \<open>
  \<open>pos\<close> and \<open>offset\<close> are \<open>int64_t\<close>; counts are 32-bit, so \<open>pos\<close> never leaves
  the 64-bit range. \<open>avl_cnt(...) + 1\<close> is a 32-bit addition.
\<close>

partial_function (option) avl_offset_loop ::
    "avl_store \<Rightarrow> addr \<Rightarrow> int \<Rightarrow> int \<Rightarrow> addr option option" where
  "avl_offset_loop h node pos offset =
     (if offset = pos then Some (Some node)
      else do {
        n \<leftarrow> h node;
        cr \<leftarrow> avl_cnt h (a_right n);
        cl \<leftarrow> avl_cnt h (a_left n);
        if pos < offset \<and> pos + uint cr \<ge> offset then do {
          node \<leftarrow> a_right n;
          n \<leftarrow> h node;
          c \<leftarrow> avl_cnt h (a_left n);
          avl_offset_loop h node (pos + uint (c + 1)) offset }
        else if pos > offset \<and> pos - uint cl \<le> offset then do {
          node \<leftarrow> a_left n;
          n \<leftarrow> h node;
          c \<leftarrow> avl_cnt h (a_right n);
          avl_offset_loop h node (pos - uint (c + 1)) offset }
        else (case a_parent n of
            None \<Rightarrow> Some None
          | Some parent \<Rightarrow> do {
              pn \<leftarrow> h parent;
              if a_right pn = Some node
              then avl_offset_loop h parent (pos - uint (cl + 1)) offset
              else avl_offset_loop h parent (pos + uint (cr + 1)) offset })
      })"

definition avl_offset :: "avl_store \<Rightarrow> addr \<Rightarrow> int \<Rightarrow> addr option option" where
  "avl_offset h node offset = avl_offset_loop h node 0 offset"

text \<open>The loops are computed by their equations.\<close>

declare avl_fix.simps [code] leftmost.simps [code] avl_offset_loop.simps [code]

end
