(* ===== verification/Avl_Spec.thy ===== *)
theory Avl_Spec
  imports Prelude "HOL-Library.Tree"
begin

text \<open>
  What the AVL tree code computes, on pure trees: the rotations and the rebalancing step
  of \<open>src/ds/avl.cpp\<close> as functions on trees, and a position in a tree as the path of
  frames from a subtree up to the root, which is how the code walks the parent pointers.
  Rebalancing along a path keeps the in-order sequence and restores the AVL invariant
  after a change of height by at most one.
\<close>

subsection \<open>Rebalancing one node\<close>

fun rotl :: "'a tree \<Rightarrow> 'a tree" where
  "rotl (Node a x (Node b y c)) = Node (Node a x b) y c"
| "rotl t = t"

fun rotr :: "'a tree \<Rightarrow> 'a tree" where
  "rotr (Node (Node a x b) y c) = Node a x (Node b y c)"
| "rotr t = t"

fun lr_heavy :: "'a tree \<Rightarrow> bool" where
  "lr_heavy (Node a x b) = (height a < height b)"
| "lr_heavy Leaf = False"

fun rl_heavy :: "'a tree \<Rightarrow> bool" where
  "rl_heavy (Node a x b) = (height b < height a)"
| "rl_heavy Leaf = False"

definition fix_left :: "'a tree \<Rightarrow> 'a \<Rightarrow> 'a tree \<Rightarrow> 'a tree" where
  "fix_left l x r = rotr (Node (if lr_heavy l then rotl l else l) x r)"

definition fix_right :: "'a tree \<Rightarrow> 'a \<Rightarrow> 'a tree \<Rightarrow> 'a tree" where
  "fix_right l x r = rotl (Node l x (if rl_heavy r then rotr r else r))"

definition bal :: "'a tree \<Rightarrow> 'a \<Rightarrow> 'a tree \<Rightarrow> 'a tree" where
  "bal l x r =
     (if height l = height r + 2 then fix_left l x r
      else if height l + 2 = height r then fix_right l x r
      else Node l x r)"

subsection \<open>Positions in a tree\<close>

datatype 'a frame = LF 'a "'a tree" | RF "'a tree" 'a

fun plug :: "'a frame list \<Rightarrow> 'a tree \<Rightarrow> 'a tree" where
  "plug [] t = t"
| "plug (LF x r # c) t = plug c (Node t x r)"
| "plug (RF l x # c) t = plug c (Node l x t)"

fun fix_up :: "'a frame list \<Rightarrow> 'a tree \<Rightarrow> 'a tree" where
  "fix_up [] t = t"
| "fix_up (LF x r # c) t = fix_up c (bal t x r)"
| "fix_up (RF l x # c) t = fix_up c (bal l x t)"

fun before :: "'a frame list \<Rightarrow> 'a list" where
  "before [] = []"
| "before (LF x r # c) = before c"
| "before (RF l x # c) = before c @ inorder l @ [x]"

fun after :: "'a frame list \<Rightarrow> 'a list" where
  "after [] = []"
| "after (LF x r # c) = x # inorder r @ after c"
| "after (RF l x # c) = after c"

lemma inorder_plug: "inorder (plug c t) = before c @ inorder t @ after c"
  by (induction c t rule: plug.induct) simp_all

lemma plug_exists: "x \<in> set_tree t \<Longrightarrow> \<exists>c l r. t = plug c (Node l x r)"
proof (induction t)
  case Leaf
  then show ?case by simp
next
  case (Node lt y rt)
  have ext: "plug c u = plug' \<Longrightarrow> Node (plug c u) y rt = plug (c @ [LF y rt]) u \<and>
      Node lt y (plug c u) = plug (c @ [RF lt y]) u" for c and u plug' :: "'a tree"
    by (induction c u arbitrary: plug' rule: plug.induct) auto
  from Node consider "x = y" | "x \<in> set_tree lt" | "x \<in> set_tree rt" by auto
  then show ?case
  proof cases
    case 1
    then show ?thesis by (metis plug.simps(1))
  next
    case 2
    then show ?thesis using Node.IH(1) ext by metis
  next
    case 3
    then show ?thesis using Node.IH(2) ext by metis
  qed
qed

subsection \<open>The in-order sequence\<close>

lemma inorder_rotl [simp]: "inorder (rotl t) = inorder t"
  by (induction t rule: rotl.induct) simp_all

lemma inorder_rotr [simp]: "inorder (rotr t) = inorder t"
  by (induction t rule: rotr.induct) simp_all

lemma inorder_bal [simp]: "inorder (bal l x r) = inorder l @ x # inorder r"
  by (auto simp: bal_def fix_left_def fix_right_def)

lemma inorder_fix_up: "inorder (fix_up c t) = before c @ inorder t @ after c"
  by (induction c t rule: fix_up.induct) simp_all

lemma set_tree_inorder_eq: "inorder s = inorder t \<Longrightarrow> set_tree s = set_tree t"
  by (metis set_inorder)

lemma size_inorder_eq: "inorder s = inorder t \<Longrightarrow> size s = size t"
  by (metis length_inorder)

subsection \<open>Balance\<close>

fun avl :: "'a tree \<Rightarrow> bool" where
  "avl Leaf = True"
| "avl (Node l x r) =
     (height l \<le> height r + 1 \<and> height r \<le> height l + 1 \<and> avl l \<and> avl r)"

text \<open>A path whose trees are balanced when a balanced tree of height \<open>k\<close> is put in its place.\<close>

fun path_avl :: "'a frame list \<Rightarrow> nat \<Rightarrow> bool" where
  "path_avl [] k = True"
| "path_avl (LF x r # c) k =
     (k \<le> height r + 1 \<and> height r \<le> k + 1 \<and> avl r \<and> path_avl c (Suc (max k (height r))))"
| "path_avl (RF l x # c) k =
     (k \<le> height l + 1 \<and> height l \<le> k + 1 \<and> avl l \<and> path_avl c (Suc (max (height l) k)))"

lemma avl_plug: "avl (plug c t) \<longleftrightarrow> avl t \<and> path_avl c (height t)"
  by (induction c t rule: plug.induct) auto

lemma fix_left_avl:
  assumes "avl l" "avl r" "height l = height r + 2"
  shows "avl (fix_left l x r) \<and>
    (height (fix_left l x r) = height l \<or> height (fix_left l x r) = Suc (height l))"
proof (cases l)
  case Leaf
  with assms show ?thesis by simp
next
  case l: (Node a y b)
  show ?thesis
  proof (cases "height a < height b")
    case True
    then obtain b1 z b2 where "b = Node b1 z b2" by (cases b) auto
    with l True assms show ?thesis by (auto simp: fix_left_def)
  next
    case False
    with l assms show ?thesis by (auto simp: fix_left_def)
  qed
qed

lemma fix_right_avl:
  assumes "avl l" "avl r" "height l + 2 = height r"
  shows "avl (fix_right l x r) \<and>
    (height (fix_right l x r) = height r \<or> height (fix_right l x r) = Suc (height r))"
proof (cases r)
  case Leaf
  with assms show ?thesis by simp
next
  case r: (Node a y b)
  show ?thesis
  proof (cases "height b < height a")
    case True
    then obtain a1 z a2 where "a = Node a1 z a2" by (cases a) auto
    with r True assms show ?thesis by (auto simp: fix_right_def)
  next
    case False
    with r assms show ?thesis by (auto simp: fix_right_def)
  qed
qed

lemma bal_avl:
  assumes "avl l" "avl r" "height l \<le> height r + 2" "height r \<le> height l + 2"
  shows "avl (bal l x r)"
    and "max (height l) (height r) \<le> height (bal l x r)"
    and "height (bal l x r) \<le> Suc (max (height l) (height r))"
    and "height l \<le> height r + 1 \<Longrightarrow> height r \<le> height l + 1 \<Longrightarrow>
      height (bal l x r) = Suc (max (height l) (height r))"
  using assms fix_left_avl [of l r x] fix_right_avl [of l r x] by (auto simp: bal_def)

lemma fix_up_avl:
  "avl t \<Longrightarrow> path_avl c k \<Longrightarrow> height t \<le> k + 1 \<Longrightarrow> k \<le> height t + 1 \<Longrightarrow> avl (fix_up c t)"
proof (induction c t arbitrary: k rule: fix_up.induct)
  case (1 t)
  then show ?case by simp
next
  case (2 x r c t)
  from "2.prems" have "avl t" "avl r" "height t \<le> height r + 2" "height r \<le> height t + 2" by auto
  note b = bal_avl [OF this, of x]
  have "height (bal t x r) \<le> Suc (max k (height r)) + 1" and
    "Suc (max k (height r)) \<le> height (bal t x r) + 1"
    using b(2,3,4) "2.prems"
    by (cases "height t \<le> height r + 1 \<and> height r \<le> height t + 1"; auto)+
  then show ?case
    using b(1) "2.prems" "2.IH" [of "Suc (max k (height r))"] by simp
next
  case (3 l x c t)
  from "3.prems" have "avl l" "avl t" "height l \<le> height t + 2" "height t \<le> height l + 2" by auto
  note b = bal_avl [OF this, of x]
  have "height (bal l x t) \<le> Suc (max (height l) k) + 1" and
    "Suc (max (height l) k) \<le> height (bal l x t) + 1"
    using b(2,3,4) "3.prems"
    by (cases "height l \<le> height t + 1 \<and> height t \<le> height l + 1"; auto)+
  then show ?case
    using b(1) "3.prems" "3.IH" [of "Suc (max (height l) k)"] by simp
qed

subsection \<open>Composed paths\<close>

lemma plug_append: "plug (d @ c) t = plug c (plug d t)"
  by (induction d t rule: plug.induct) simp_all

lemma before_append: "before (d @ c) = before c @ before d"
  by (induction d rule: before.induct) simp_all

lemma after_append: "after (d @ c) = after d @ after c"
  by (induction d rule: after.induct) simp_all

end
