(* ===== verification/Avl_Refine.thy ===== *)
theory Avl_Refine
  imports Avl Avl_Spec
begin

text \<open>
  The pointer operations of the AVL tree implement the operations on pure trees. The store
  represents a tree of addresses when the links agree with its shape (\<open>links\<close>) and the
  stored heights and counts are those of the subtrees (\<open>aggs\<close>). Every operation is shown
  to succeed on a represented tree, to represent the specified tree afterwards and to
  leave every other address alone.
\<close>

subsection \<open>Representation\<close>

fun links :: "avl_store \<Rightarrow> addr option \<Rightarrow> addr option \<Rightarrow> addr tree \<Rightarrow> bool" where
  "links h par r Leaf = (r = None)"
| "links h par r (Node lt x rt) =
     (r = Some x \<and>
      (\<exists>n. h x = Some n \<and> a_parent n = par \<and>
         links h (Some x) (a_left n) lt \<and> links h (Some x) (a_right n) rt))"

fun aggs :: "avl_store \<Rightarrow> addr tree \<Rightarrow> bool" where
  "aggs h Leaf = True"
| "aggs h (Node lt x rt) =
     ((\<exists>n. h x = Some n \<and> a_height n = of_nat (height (Node lt x rt)) \<and>
         a_cnt n = of_nat (size (Node lt x rt))) \<and>
      aggs h lt \<and> aggs h rt)"

fun path_par :: "addr frame list \<Rightarrow> addr option" where
  "path_par [] = None"
| "path_par (LF x r # c) = Some x"
| "path_par (RF l x # c) = Some x"

text \<open>The nodes of a path: \<open>hole\<close> is what the lowest of them points to, \<open>root\<close> the root.\<close>

fun path_links :: "avl_store \<Rightarrow> addr option \<Rightarrow> addr frame list \<Rightarrow> addr option \<Rightarrow> bool" where
  "path_links h root [] hole = (root = hole)"
| "path_links h root (LF x r # c) hole =
     (\<exists>n. h x = Some n \<and> a_parent n = path_par c \<and> a_left n = hole \<and>
        links h (Some x) (a_right n) r \<and> path_links h root c (Some x))"
| "path_links h root (RF l x # c) hole =
     (\<exists>n. h x = Some n \<and> a_parent n = path_par c \<and> a_right n = hole \<and>
        links h (Some x) (a_left n) l \<and> path_links h root c (Some x))"

text \<open>The trees hanging off a path have correct aggregates; the path itself may not.\<close>

fun side_aggs :: "avl_store \<Rightarrow> addr frame list \<Rightarrow> bool" where
  "side_aggs h [] = True"
| "side_aggs h (LF x r # c) = (aggs h r \<and> side_aggs h c)"
| "side_aggs h (RF l x # c) = (aggs h l \<and> side_aggs h c)"

fun path_addrs :: "addr frame list \<Rightarrow> addr set" where
  "path_addrs [] = {}"
| "path_addrs (LF x r # c) = insert x (set_tree r \<union> path_addrs c)"
| "path_addrs (RF l x # c) = insert x (set_tree l \<union> path_addrs c)"

definition agree_on :: "addr set \<Rightarrow> avl_store \<Rightarrow> avl_store \<Rightarrow> bool" where
  "agree_on S h h' \<longleftrightarrow> (\<forall>x \<in> S. h' x = h x)"

definition frame_off :: "addr set \<Rightarrow> avl_store \<Rightarrow> avl_store \<Rightarrow> bool" where
  "frame_off S h h' \<longleftrightarrow> (\<forall>x. x \<notin> S \<longrightarrow> h' x = h x)"

definition represents :: "avl_store \<Rightarrow> addr option \<Rightarrow> addr tree \<Rightarrow> bool" where
  "represents h root t \<longleftrightarrow>
     links h None root t \<and> aggs h t \<and> distinct (inorder t) \<and> size t < 2 ^ 31"

subsection \<open>Frame lemmas\<close>

lemma frame_offD: "frame_off S h h' \<Longrightarrow> x \<notin> S \<Longrightarrow> h' x = h x"
  by (simp add: frame_off_def)

lemma frame_off_trans: "frame_off S h h' \<Longrightarrow> frame_off S h' h'' \<Longrightarrow> frame_off S h h''"
  by (simp add: frame_off_def)

lemma frame_off_mono: "frame_off S h h' \<Longrightarrow> S \<subseteq> T \<Longrightarrow> frame_off T h h'"
  by (auto simp: frame_off_def)

lemma frame_off_agree: "frame_off S h h' \<Longrightarrow> S \<inter> T = {} \<Longrightarrow> agree_on T h h'"
  by (auto simp: frame_off_def agree_on_def)

lemma agree_on_simps [simp]:
  "agree_on {} h h'"
  "agree_on (insert x S) h h' \<longleftrightarrow> h' x = h x \<and> agree_on S h h'"
  "agree_on (S \<union> T) h h' \<longleftrightarrow> agree_on S h h' \<and> agree_on T h h'"
  by (auto simp: agree_on_def)

lemma agree_on_upd: "p \<notin> S \<Longrightarrow> agree_on S h (h(p := v))"
  by (auto simp: agree_on_def)

lemma links_cong: "agree_on (set_tree t) h h' \<Longrightarrow> links h' par r t = links h par r t"
  by (induction t arbitrary: par r) (simp_all add: agree_on_def)

lemma aggs_cong: "agree_on (set_tree t) h h' \<Longrightarrow> aggs h' t = aggs h t"
  by (induction t) (simp_all add: agree_on_def)

lemma path_links_cong:
  "agree_on (path_addrs c) h h' \<Longrightarrow> path_links h' root c hole = path_links h root c hole"
proof (induction h root c hole rule: path_links.induct)
  case (2 h root x r c hole)
  have "h' x = h x" "links h' (Some x) q r = links h (Some x) q r" for q
    using "2.prems" links_cong [of r h h'] by (auto simp: agree_on_def)
  moreover have "path_links h' root c (Some x) = path_links h root c (Some x)"
    using "2.prems" by (cases "h x") (auto intro!: "2.IH" simp: agree_on_def)
  ultimately show ?case by simp
next
  case (3 h root l x c hole)
  have "h' x = h x" "links h' (Some x) q l = links h (Some x) q l" for q
    using "3.prems" links_cong [of l h h'] by (auto simp: agree_on_def)
  moreover have "path_links h' root c (Some x) = path_links h root c (Some x)"
    using "3.prems" by (cases "h x") (auto intro!: "3.IH" simp: agree_on_def)
  ultimately show ?case by simp
qed simp

lemma side_aggs_cong: "agree_on (path_addrs c) h h' \<Longrightarrow> side_aggs h' c = side_aggs h c"
  by (induction h c rule: side_aggs.induct) (auto simp: aggs_cong)

lemma path_addrs_eq: "path_addrs c = set (before c) \<union> set (after c)"
  by (induction c rule: before.induct) auto

lemma links_plug:
  "links h None root (plug c t) \<longleftrightarrow>
     (\<exists>hole. path_links h root c hole \<and> links h (path_par c) hole t)"
  by (induction c t rule: plug.induct) auto

lemma aggs_plug: "aggs h (plug c t) \<Longrightarrow> aggs h t \<and> side_aggs h c"
  by (induction c t rule: plug.induct) auto

lemma links_root: "links h par r t \<Longrightarrow> r = (case t of Leaf \<Rightarrow> None | Node _ x _ \<Rightarrow> Some x)"
  by (cases t) auto

lemma links_dom: "links h par r t \<Longrightarrow> x \<in> set_tree t \<Longrightarrow> h x \<noteq> None"
  by (induction t arbitrary: par r) auto

subsection \<open>Aggregates\<close>

lemma of_nat_u32_less:
  "a < 2 ^ 32 \<Longrightarrow> b < 2 ^ 32 \<Longrightarrow> (of_nat a < (of_nat b :: u32)) = (a < b)"
  by (simp add: word_less_nat_alt unat_of_nat)

lemma of_nat_u32_eq:
  "a < 2 ^ 32 \<Longrightarrow> b < 2 ^ 32 \<Longrightarrow> (of_nat a = (of_nat b :: u32)) = (a = b)"
  by (simp add: word_unat_eq_iff unat_of_nat)

lemma height_le_size: "height t \<le> size (t :: 'a tree)"
  by (induction t) auto

lemma avl_height_eq: "links h par r t \<Longrightarrow> aggs h t \<Longrightarrow> avl_height h r = Some (of_nat (height t))"
  by (cases t) (auto simp: avl_height_def)

lemma avl_cnt_eq: "links h par r t \<Longrightarrow> aggs h t \<Longrightarrow> avl_cnt h r = Some (of_nat (size t))"
  by (cases t) (auto simp: avl_cnt_def)

lemma max_u32_of_nat:
  "a < 2 ^ 32 \<Longrightarrow> b < 2 ^ 32 \<Longrightarrow> max_u32 (of_nat a) (of_nat b) = of_nat (max a b)"
  by (auto simp: max_u32_def of_nat_u32_less max_def)

definition with_aggs :: "avl_node \<Rightarrow> addr tree \<Rightarrow> addr tree \<Rightarrow> avl_node" where
  "with_aggs n l r = n\<lparr>a_height := of_nat (Suc (max (height l) (height r))),
     a_cnt := of_nat (Suc (size l + size r))\<rparr>"

lemma with_aggs_sel [simp]:
  "a_parent (with_aggs n l r) = a_parent n"
  "a_left (with_aggs n l r) = a_left n"
  "a_right (with_aggs n l r) = a_right n"
  "a_height (with_aggs n l r) = of_nat (Suc (max (height l) (height r)))"
  "a_cnt (with_aggs n l r) = of_nat (Suc (size l + size r))"
  by (simp_all add: with_aggs_def)

lemma avl_update_eq:
  assumes n: "h p = Some n" and l: "links h q1 (a_left n) l" "aggs h l"
    and r: "links h q2 (a_right n) r" "aggs h r"
    and p: "p \<notin> set_tree l" "p \<notin> set_tree r" and sz: "size l + size r < 2 ^ 31"
  shows "avl_update h p = Some (h(p \<mapsto> with_aggs n l r))"
proof -
  let ?h' = "h(p \<mapsto> n\<lparr>a_height := 1 + max_u32 (of_nat (height l)) (of_nat (height r))\<rparr>)"
  have "agree_on (set_tree l) h ?h'" "agree_on (set_tree r) h ?h'"
    using p by (auto intro: agree_on_upd)
  then have "avl_cnt ?h' (a_left n) = Some (of_nat (size l))"
    "avl_cnt ?h' (a_right n) = Some (of_nat (size r))"
    using l r by (auto intro!: avl_cnt_eq simp: links_cong aggs_cong)
  moreover have "height l < 2 ^ 32" "height r < 2 ^ 32"
    using sz height_le_size [of l] height_le_size [of r] by auto
  ultimately show ?thesis
    using n l r
    by (simp add: avl_update_def upd_node_def avl_height_eq with_aggs_def max_u32_of_nat ac_simps)
qed

subsection \<open>Moving a subtree below another parent\<close>

lemma set_parent_opt_links:
  assumes "links h par r t" and "aggs h t" and "distinct (inorder t)"
  shows "\<exists>h'. set_parent_opt h r par' = Some h' \<and> links h' par' r t \<and> aggs h' t \<and>
    frame_off (set_tree t) h h'"
proof (cases t)
  case Leaf
  with assms show ?thesis by (simp add: set_parent_opt_def frame_off_def)
next
  case (Node lt x rt)
  with assms obtain n where n: "h x = Some n" "r = Some x"
    and sub: "links h (Some x) (a_left n) lt" "links h (Some x) (a_right n) rt"
    and x: "x \<notin> set_tree lt" "x \<notin> set_tree rt" by auto
  let ?h' = "h(x \<mapsto> n\<lparr>a_parent := par'\<rparr>)"
  have "agree_on (set_tree lt) h ?h'" "agree_on (set_tree rt) h ?h'"
    using x by (auto intro: agree_on_upd)
  then have "links ?h' par' r t \<and> aggs ?h' t"
    using assms(2) Node n sub by (simp add: links_cong aggs_cong)
  then show ?thesis
    using n Node
    by (intro exI [of _ ?h']) (simp add: set_parent_opt_def set_parent_def upd_node_def frame_off_def)
qed

subsection \<open>Rotations\<close>

lemma node_rep:
  "h x = Some (with_aggs n l r) \<Longrightarrow> a_parent n = par \<Longrightarrow> links h (Some x) (a_left n) l \<Longrightarrow>
     links h (Some x) (a_right n) r \<Longrightarrow> aggs h l \<Longrightarrow> aggs h r \<Longrightarrow>
     links h par (Some x) (Node l x r) \<and> aggs h (Node l x r)"
  by simp

lemma rot_left_links:
  assumes lk: "links h par (Some p) (Node a p (Node b q c))"
    and ag: "aggs h a" "aggs h b" "aggs h c"
    and di: "distinct (inorder (Node a p (Node b q c)))"
    and sz: "size (Node a p (Node b q c)) < 2 ^ 31"
  shows "\<exists>h'. rot_left h p = Some (h', q) \<and> links h' par (Some q) (Node (Node a p b) q c) \<and>
    aggs h' (Node (Node a p b) q c) \<and> frame_off (set_tree (Node a p (Node b q c))) h h'"
proof -
  from lk obtain np nq where np: "h p = Some np" "a_parent np = par" "a_right np = Some q"
    and nq: "h q = Some nq" and la: "links h (Some p) (a_left np) a"
    and lb: "links h (Some q) (a_left nq) b" and lc: "links h (Some q) (a_right nq) c"
    by auto
  from di have ne: "p \<noteq> q" "p \<notin> set_tree a" "p \<notin> set_tree b" "p \<notin> set_tree c"
      "q \<notin> set_tree a" "q \<notin> set_tree b" "q \<notin> set_tree c"
    and dj: "set_tree a \<inter> set_tree b = {}" "set_tree c \<inter> set_tree b = {}" and db: "distinct (inorder b)"
    by auto
  define h1 where "h1 = h(p \<mapsto> np\<lparr>a_right := a_left nq\<rparr>)"
  have h1b: "agree_on (set_tree b) h h1" unfolding h1_def using ne by (intro agree_on_upd) auto
  then obtain h2 where h2: "set_parent_opt h1 (a_left nq) (Some p) = Some h2"
    and lb2: "links h2 (Some p) (a_left nq) b" "aggs h2 b" and fr: "frame_off (set_tree b) h1 h2"
    using set_parent_opt_links [of h1 "Some q" "a_left nq" b "Some p"] lb ag db
    by (auto simp: links_cong aggs_cong)
  have h2p: "h2 p = Some (np\<lparr>a_right := a_left nq\<rparr>)" "h2 q = Some nq"
    using ne nq by (simp_all add: frame_offD [OF fr] h1_def)
  define h3 where "h3 = h2(q \<mapsto> nq\<lparr>a_parent := par, a_left := Some p\<rparr>,
      p \<mapsto> np\<lparr>a_right := a_left nq, a_parent := Some q\<rparr>)"
  have "h2 x = h1 x" if "x \<in> set_tree a \<union> set_tree c" for x
    using that dj by (intro frame_offD [OF fr]) auto
  then have h3a: "agree_on (set_tree a) h h3" and h3c: "agree_on (set_tree c) h h3"
    and h3b: "agree_on (set_tree b) h2 h3"
    using ne by (auto simp: agree_on_def h3_def h1_def)
  define h4 where "h4 = h3(p \<mapsto> with_aggs (np\<lparr>a_right := a_left nq, a_parent := Some q\<rparr>) a b)"
  have up: "avl_update h3 p = Some h4"
    unfolding h4_def
    by (rule avl_update_eq [where ?q1.0 = "Some p" and ?q2.0 = "Some p"])
       (use la lb2 ag ne sz h3a h3b in \<open>auto simp: h3_def [symmetric] links_cong aggs_cong\<close>,
        simp add: h3_def)
  have h4a: "agree_on (set_tree a) h h4" and h4c: "agree_on (set_tree c) h h4"
    and h4b: "agree_on (set_tree b) h2 h4"
    using ne h3a h3b h3c by (auto simp: agree_on_def h4_def)
  have h4p: "links h4 (Some q) (Some p) (Node a p b)" "aggs h4 (Node a p b)"
    using la lb2 ag h4a h4b by (simp_all add: links_cong aggs_cong) (simp_all add: h4_def)
  define h5 where "h5 = h4(q \<mapsto> with_aggs (nq\<lparr>a_parent := par, a_left := Some p\<rparr>) (Node a p b) c)"
  have uq: "avl_update h4 q = Some h5"
    unfolding h5_def
    by (rule avl_update_eq [where ?q1.0 = "Some q" and ?q2.0 = "Some q"])
       (use h4p lc ag ne sz h4c in \<open>auto simp: links_cong aggs_cong\<close>, simp_all add: h4_def h3_def)
  have rot: "rot_left h p = Some (h5, q)"
    using np nq ne h2 h2p up uq
    by (simp add: rot_left_def set_right_def set_left_def set_parent_def upd_node_def h1_def
        [symmetric] h3_def Let_def)
  have h5x: "agree_on (set_tree (Node a p b)) h4 h5" "agree_on (set_tree c) h4 h5"
    unfolding h5_def using ne by (auto intro!: agree_on_upd)
  have "links h5 (Some q) (Some p) (Node a p b)" "aggs h5 (Node a p b)"
    using h4p links_cong [OF h5x(1)] aggs_cong [OF h5x(1)] by blast+
  moreover have "links h5 (Some q) (a_right nq) c" "aggs h5 c"
    using lc ag(3) links_cong [OF h5x(2)] aggs_cong [OF h5x(2)] links_cong [OF h4c]
      aggs_cong [OF h4c] by blast+
  moreover have h5q: "h5 q = Some (with_aggs (nq\<lparr>a_parent := par, a_left := Some p\<rparr>) (Node a p b) c)"
    by (simp add: h5_def)
  ultimately have "links h5 par (Some q) (Node (Node a p b) q c) \<and> aggs h5 (Node (Node a p b) q c)"
    by (intro node_rep [of h5 q "nq\<lparr>a_parent := par, a_left := Some p\<rparr>"]) simp_all
  moreover have "frame_off (set_tree (Node a p (Node b q c))) h h5"
    using frame_offD [OF fr] by (auto simp: frame_off_def h5_def h4_def h3_def h1_def)
  ultimately show ?thesis using rot by blast
qed

subsection \<open>Mirror images\<close>

text \<open>
  The right-handed operations are the mirror images of the left-handed ones; swapping
  the child fields of every node turns one into the other.
\<close>

definition mir_node :: "avl_node \<Rightarrow> avl_node" where
  "mir_node n = n\<lparr>a_left := a_right n, a_right := a_left n\<rparr>"

definition mir :: "avl_store \<Rightarrow> avl_store" where
  "mir h = (\<lambda>p. map_option mir_node (h p))"

lemma mir_node_sel [simp]:
  "a_parent (mir_node n) = a_parent n" "a_left (mir_node n) = a_right n"
  "a_right (mir_node n) = a_left n" "a_height (mir_node n) = a_height n" "a_cnt (mir_node n) = a_cnt n"
  by (simp_all add: mir_node_def)

lemma mir_node_mir_node [simp]: "mir_node (mir_node n) = n"
  by (simp add: mir_node_def)

lemma mir_apply [simp]: "mir h p = map_option mir_node (h p)"
  by (simp add: mir_def)

lemma mir_mir [simp]: "mir (mir h) = h"
  by (rule ext) (simp add: option.map_comp comp_def option.map_ident)

lemma mir_upd: "mir (h(p \<mapsto> n)) = (mir h)(p \<mapsto> mir_node n)"
  by (rule ext) simp

lemma mir_upd_node:
  "(\<And>n. g (mir_node n) = mir_node (f n)) \<Longrightarrow> upd_node (mir h) p g = map_option mir (upd_node h p f)"
  by (cases "h p") (simp_all add: upd_node_def mir_upd)

lemma mir_set [simp]:
  "set_left (mir h) p x = map_option mir (set_right h p x)"
  "set_right (mir h) p x = map_option mir (set_left h p x)"
  "set_parent (mir h) p x = map_option mir (set_parent h p x)"
  "set_parent_opt (mir h) q x = map_option mir (set_parent_opt h q x)"
  by (auto simp: set_left_def set_right_def set_parent_def set_parent_opt_def mir_node_def
      intro!: mir_upd_node split: option.split)

lemma mir_height_cnt [simp]: "avl_height (mir h) q = avl_height h q" "avl_cnt (mir h) q = avl_cnt h q"
  by (auto simp: avl_height_def avl_cnt_def option.map_comp comp_def split: option.split)

lemma max_u32_commute: "max_u32 a b = max_u32 b a"
  by (auto simp: max_u32_def)

lemma bind_map_option_left: "Option.bind (map_option f x) g = Option.bind x (\<lambda>y. g (f y))"
  by (cases x) simp_all

lemma map_option_bind_right: "map_option f (Option.bind x g) = Option.bind x (\<lambda>y. map_option f (g y))"
  by (cases x) simp_all

lemmas mir_push = bind_map_option_left map_option_bind_right

lemma mir_avl_update [simp]: "avl_update (mir h) p = map_option mir (avl_update h p)"
proof -
  have u1: "upd_node (mir h) p (\<lambda>n. n\<lparr>a_height := v\<rparr>) = map_option mir (upd_node h p (\<lambda>n. n\<lparr>a_height := v\<rparr>))"
    and u2: "upd_node (mir h) p (\<lambda>n. n\<lparr>a_cnt := c\<rparr>) = map_option mir (upd_node h p (\<lambda>n. n\<lparr>a_cnt := c\<rparr>))"
    for h v c
    by (rule mir_upd_node, simp add: mir_node_def)+
  show ?thesis
  proof (cases "h p")
    case None
    then show ?thesis by (simp add: avl_update_def)
  next
    case (Some n)
    then show ?thesis
      by (cases "avl_height h (a_left n)"; cases "avl_height h (a_right n)")
         (auto simp: avl_update_def u1 u2 mir_push max_u32_commute ac_simps
          split: bind_splits)
  qed
qed

lemma mir_rot [simp]:
  "rot_left (mir h) p = map_option (map_prod mir id) (rot_right h p)"
  "rot_right (mir h) p = map_option (map_prod mir id) (rot_left h p)"
  by (simp_all add: rot_left_def rot_right_def mir_push Let_def)

lemma links_mir: "links (mir h) par r (mirror t) = links h par r t"
  by (induction t arbitrary: par r) auto

lemma aggs_mir: "aggs (mir h) (mirror t) = aggs h t"
  by (induction t) (auto simp: max.commute add.commute)

lemma frame_off_mir: "frame_off S (mir h) (mir h') = frame_off S h h'"
proof -
  have "frame_off S h h' \<Longrightarrow> frame_off S (mir h) (mir h')" for h h'
    by (simp add: frame_off_def)
  from this [of h h'] this [of "mir h" "mir h'"] show ?thesis by auto
qed

lemma rot_right_links:
  assumes lk: "links h par (Some q) (Node (Node a p b) q c)"
    and ag: "aggs h a" "aggs h b" "aggs h c"
    and di: "distinct (inorder (Node (Node a p b) q c))"
    and sz: "size (Node (Node a p b) q c) < 2 ^ 31"
  shows "\<exists>h'. rot_right h q = Some (h', p) \<and> links h' par (Some p) (Node a p (Node b q c)) \<and>
    aggs h' (Node a p (Node b q c)) \<and> frame_off (set_tree (Node (Node a p b) q c)) h h'"
proof -
  let ?t = "Node (Node a p b) q c"
  have m: "mirror ?t = Node (mirror c) q (Node (mirror b) p (mirror a))" by simp
  have "links (mir h) par (Some q) (Node (mirror c) q (Node (mirror b) p (mirror a)))"
    using lk links_mir [of h par "Some q" ?t] unfolding m by blast
  moreover have "distinct (inorder (Node (mirror c) q (Node (mirror b) p (mirror a))))"
    using di by (auto simp: inorder_mirror)
  moreover have "size (Node (mirror c) q (Node (mirror b) p (mirror a))) < 2 ^ 31"
    using sz by simp
  ultimately obtain h' where h': "rot_left (mir h) q = Some (h', p)"
    "links h' par (Some p) (Node (Node (mirror c) q (mirror b)) p (mirror a))"
    "aggs h' (Node (Node (mirror c) q (mirror b)) p (mirror a))"
    "frame_off (set_tree (mirror ?t)) (mir h) h'"
    using rot_left_links ag unfolding m by (metis aggs_mir)
  then obtain k where k: "rot_right h q = Some (k, p)" "h' = mir k"
    by (auto simp: map_prod_def split: prod.splits)
  have mm: "Node (Node (mirror c) q (mirror b)) p (mirror a) = mirror (Node a p (Node b q c))" by simp
  have "links k par (Some p) (Node a p (Node b q c))" "aggs k (Node a p (Node b q c))"
    using h'(2,3) unfolding mm k(2) links_mir aggs_mir by blast+
  moreover have "frame_off (set_tree ?t) h k"
    using h'(4) unfolding k(2) frame_off_mir by (metis set_inorder inorder_mirror set_rev)
  ultimately show ?thesis using k(1) by blast
qed

lemma avl_fix_left_links:
  assumes lk: "links h par (Some p) (Node l p r)" and ag: "aggs h l" "aggs h r"
    and di: "distinct (inorder (Node l p r))" and sz: "size (Node l p r) < 2 ^ 31"
    and ne: "l \<noteq> Leaf"
  shows "\<exists>h' x. avl_fix_left h p = Some (h', x) \<and> links h' par (Some x) (fix_left l p r) \<and>
    aggs h' (fix_left l p r) \<and> frame_off (set_tree (Node l p r)) h h'"
proof -
  from ne obtain a q b where l: "l = Node a q b" by (cases l) auto
  from lk l obtain np nq where np: "h p = Some np" "a_left np = Some q" "a_parent np = par"
    and nq: "h q = Some nq" and lr: "links h (Some p) (a_right np) r"
    and la: "links h (Some q) (a_left nq) a" and lb: "links h (Some q) (a_right nq) b"
    by auto
  have ha: "avl_height h (a_left nq) = Some (of_nat (height a))"
    and hb: "avl_height h (a_right nq) = Some (of_nat (height b))"
    using avl_height_eq la lb ag l by (meson aggs.simps(2))+
  have small: "height a < 2 ^ 32" "height b < 2 ^ 32"
    using sz l height_le_size [of a] height_le_size [of b] by auto
  show ?thesis
  proof (cases "height a < height b")
    case False
    then have fl: "fix_left (Node a q b) p r = Node a q (Node b p r)" by (simp add: fix_left_def)
    have "avl_fix_left h p = rot_right h p"
      using False np nq ha hb small by (simp add: avl_fix_left_def of_nat_u32_less)
    moreover have "\<exists>h'. rot_right h p = Some (h', q) \<and> links h' par (Some q) (Node a q (Node b p r)) \<and>
      aggs h' (Node a q (Node b p r)) \<and> frame_off (set_tree (Node (Node a q b) p r)) h h'"
      using lk ag di sz unfolding l by (intro rot_right_links) simp_all
    ultimately show ?thesis unfolding l fl by metis
  next
    case True
    then obtain b1 z b2 where b: "b = Node b1 z b2" by (cases b) auto
    have fl: "fix_left l p r = Node (Node a q b1) z (Node b2 p r)"
      using True unfolding l b by (simp add: fix_left_def)
    have "links h (Some p) (Some q) (Node a q (Node b1 z b2))" "aggs h a" "aggs h b1" "aggs h b2"
      "distinct (inorder (Node a q (Node b1 z b2)))" "size (Node a q (Node b1 z b2)) < 2 ^ 31"
      using lk ag di sz np unfolding l b by auto
    from rot_left_links [OF this] obtain h1 where h1: "rot_left h q = Some (h1, z)"
      "links h1 (Some p) (Some z) (Node (Node a q b1) z b2)" "aggs h1 (Node (Node a q b1) z b2)"
      "frame_off (set_tree (Node a q (Node b1 z b2))) h h1"
      by blast
    have pq: "p \<notin> set_tree (Node a q (Node b1 z b2))" "set_tree (Node a q (Node b1 z b2)) \<inter> set_tree r = {}"
      using di unfolding l b by auto
    have h1p: "h1 p = Some np" using frame_offD [OF h1(4) pq(1)] np by simp
    define h2 where "h2 = h1(p \<mapsto> np\<lparr>a_left := Some z\<rparr>)"
    have r12: "agree_on (set_tree r) h h1" using frame_off_agree [OF h1(4) pq(2)] .
    have a12: "agree_on (set_tree (Node (Node a q b1) z b2)) h1 h2" "agree_on (set_tree r) h1 h2"
      unfolding h2_def using pq(1) di by (auto intro!: agree_on_upd)
    have "links h2 (Some p) (Some z) (Node (Node a q b1) z b2)" "aggs h2 (Node (Node a q b1) z b2)"
      using h1(2,3) links_cong [OF a12(1)] aggs_cong [OF a12(1)] by blast+
    moreover have "links h2 (Some p) (a_right np) r" "aggs h2 r"
      using lr ag(2) links_cong [OF a12(2)] aggs_cong [OF a12(2)] links_cong [OF r12] aggs_cong [OF r12]
      by blast+
    ultimately have "\<exists>h'. rot_right h2 p = Some (h', z) \<and> links h' par (Some z) (Node (Node a q b1) z (Node b2 p r)) \<and>
      aggs h' (Node (Node a q b1) z (Node b2 p r)) \<and>
      frame_off (set_tree (Node (Node (Node a q b1) z b2) p r)) h2 h'"
      using np di sz by (intro rot_right_links) (auto simp: h2_def l b)
    moreover have "avl_fix_left h p = rot_right h2 p"
      using True np nq ha hb small h1 h1p
      by (simp add: avl_fix_left_def of_nat_u32_less set_left_def upd_node_def h2_def)
    moreover have "frame_off (set_tree (Node l p r)) h h2"
      using h1(4) by (auto simp: frame_off_def h2_def l b)
    moreover have "set_tree (Node (Node (Node a q b1) z b2) p r) = set_tree (Node l p r)"
      by (auto simp: l b)
    ultimately show ?thesis
      unfolding fl by (metis frame_off_trans)
  qed
qed

lemma mir_fix [simp]:
  "avl_fix_left (mir h) p = map_option (map_prod mir id) (avl_fix_right h p)"
  by (simp add: avl_fix_left_def avl_fix_right_def mir_push split_beta map_prod_def
      if_distrib [of "map_option _"] if_distrib [of "\<lambda>x. Option.bind x _"] cong: if_cong)

lemma avl_fix_right_links:
  assumes lk: "links h par (Some p) (Node l p r)" and ag: "aggs h l" "aggs h r"
    and di: "distinct (inorder (Node l p r))" and sz: "size (Node l p r) < 2 ^ 31"
    and ne: "r \<noteq> Leaf"
  shows "\<exists>h' x. avl_fix_right h p = Some (h', x) \<and> links h' par (Some x) (fix_right l p r) \<and>
    aggs h' (fix_right l p r) \<and> frame_off (set_tree (Node l p r)) h h'"
proof -
  have "links (mir h) par (Some p) (Node (mirror r) p (mirror l))"
    using lk links_mir [of h par "Some p" "Node l p r"] by simp
  moreover have "distinct (inorder (Node (mirror r) p (mirror l)))"
    using di by (auto simp: inorder_mirror)
  ultimately obtain h' x where h': "avl_fix_left (mir h) p = Some (h', x)"
    "links h' par (Some x) (fix_left (mirror r) p (mirror l))" "aggs h' (fix_left (mirror r) p (mirror l))"
    "frame_off (set_tree (Node (mirror r) p (mirror l))) (mir h) h'"
    using avl_fix_left_links [of "mir h" par p "mirror r" "mirror l"] ag sz ne by (auto simp: aggs_mir)
  then obtain k where k: "avl_fix_right h p = Some (k, x)" "h' = mir k"
    by (auto simp: map_prod_def split: prod.splits)
  have rot: "rotl (mirror t) = mirror (rotr t)" "rotr (mirror t) = mirror (rotl t)" for t :: "addr tree"
    by (cases t rule: rotr.cases; simp) (cases t rule: rotl.cases; simp)
  have "lr_heavy (mirror t) = rl_heavy t" for t :: "addr tree" by (cases t) auto
  then have m: "fix_left (mirror r) p (mirror l) = mirror (fix_right l p r)"
    using rot(2) [of "Node l p (if rl_heavy r then rotr r else r)"]
    by (cases "rl_heavy r") (simp_all add: fix_left_def fix_right_def rot)
  have "links k par (Some x) (fix_right l p r)" "aggs k (fix_right l p r)"
    using h'(2,3) unfolding m k(2) links_mir aggs_mir by blast+
  moreover have "set_tree (Node (mirror r) p (mirror l)) = set_tree (Node l p r)"
    by (metis inorder_mirror mirror.simps(2) set_inorder set_rev)
  then have "frame_off (set_tree (Node l p r)) h k"
    using h'(4) unfolding k(2) frame_off_mir by simp
  ultimately show ?thesis using k(1) by blast
qed

subsection \<open>Re-attaching a subtree\<close>

fun path_slot :: "addr frame list \<Rightarrow> slot" where
  "path_slot [] = Local"
| "path_slot (LF x r # c) = LeftOf x"
| "path_slot (RF l x # c) = RightOf x"

definition new_root :: "addr option \<Rightarrow> addr frame list \<Rightarrow> addr option \<Rightarrow> addr option" where
  "new_root root c x = (if c = [] then x else root)"

lemma slot_of_path:
  assumes "path_links h root c (Some p)" and "p \<notin> path_addrs c"
  shows "slot_of h p (path_par c) = Some (path_slot c)"
proof (cases c rule: path_slot.cases)
  case (3 l x c')
  with assms obtain n where "h x = Some n" "a_right n = Some p" "links h (Some x) (a_left n) l"
    and "p \<notin> set_tree l" by auto
  moreover from this have "a_left n \<noteq> Some p" by (cases l) auto
  ultimately show ?thesis using 3 by (simp add: slot_of_def)
qed (use assms in \<open>auto simp: slot_of_def\<close>)

lemma store_slot_path:
  assumes "path_links h root c hole" and "side_aggs h c" and "distinct (before c @ after c)"
  shows "\<exists>h'. store_slot h (path_slot c) new = Some h' \<and>
    path_links h' (new_root root c new) c new \<and> side_aggs h' c \<and> frame_off (path_addrs c) h h'"
proof (cases c rule: path_slot.cases)
  case 1
  with assms show ?thesis by (simp add: new_root_def frame_off_def)
next
  case (2 x r c')
  with assms obtain n where n: "h x = Some n" "a_parent n = path_par c'"
    "links h (Some x) (a_right n) r" "path_links h root c' (Some x)" by auto
  let ?h' = "h(x \<mapsto> n\<lparr>a_left := new\<rparr>)"
  have "agree_on (set_tree r) h ?h'" "agree_on (path_addrs c') h ?h'"
    using assms(3) 2 by (auto intro!: agree_on_upd simp: path_addrs_eq)
  then have "path_links ?h' root c new" "side_aggs ?h' c"
    using n assms(2) 2 by (auto simp: links_cong path_links_cong aggs_cong side_aggs_cong)
  then show ?thesis
    using n 2 by (auto simp: set_left_def upd_node_def new_root_def frame_off_def)
next
  case (3 l x c')
  with assms obtain n where n: "h x = Some n" "a_parent n = path_par c'"
    "links h (Some x) (a_left n) l" "path_links h root c' (Some x)" by auto
  let ?h' = "h(x \<mapsto> n\<lparr>a_right := new\<rparr>)"
  have "agree_on (set_tree l) h ?h'" "agree_on (path_addrs c') h ?h'"
    using assms(3) 3 by (auto intro!: agree_on_upd simp: path_addrs_eq)
  then have "path_links ?h' root c new" "side_aggs ?h' c"
    using n assms(2) 3 by (auto simp: links_cong path_links_cong aggs_cong side_aggs_cong)
  then show ?thesis
    using n 3 by (auto simp: set_right_def upd_node_def new_root_def frame_off_def)
qed

text \<open>
  \<open>at_path h root c x t\<close>: the store holds \<open>t\<close>, with correct aggregates and rooted at
  \<open>x\<close>, below the path \<open>c\<close>, whose own aggregates may be stale.
\<close>

definition at_path :: "avl_store \<Rightarrow> addr option \<Rightarrow> addr frame list \<Rightarrow> addr option \<Rightarrow> addr tree \<Rightarrow> bool" where
  "at_path h root c x t \<longleftrightarrow>
     path_links h root c x \<and> side_aggs h c \<and> links h (path_par c) x t \<and> aggs h t \<and>
     distinct (inorder (plug c t)) \<and> size (plug c t) < 2 ^ 31"

lemma size_plug: "size (plug c t) = length (before c) + size t + length (after c)"
  by (metis inorder_plug length_append length_inorder add.assoc)

lemma set_tree_plug: "set_tree (plug c t) = set_tree t \<union> path_addrs c"
  unfolding set_inorder [symmetric] inorder_plug path_addrs_eq by auto

lemma distinct_plugD:
  assumes "distinct (inorder (plug c t))"
  shows "distinct (inorder t)" and "set_tree t \<inter> path_addrs c = {}" and "distinct (before c @ after c)"
  using assms unfolding inorder_plug path_addrs_eq by auto

lemma at_path_store:
  assumes at: "at_path h root c (Some p) t"
    and t': "links h' (path_par c) (Some x) t'" "aggs h' t'" "inorder t' = inorder t"
    and fr: "frame_off (set_tree t) h h'"
  shows "\<exists>h''. store_slot h' (path_slot c) (Some x) = Some h'' \<and>
    at_path h'' (new_root root c (Some x)) c (Some x) t' \<and> frame_off (set_tree (plug c t)) h h''"
proof -
  from at have di: "distinct (inorder (plug c t))" and sz: "size (plug c t) < 2 ^ 31"
    and pl: "path_links h root c (Some p)" "side_aggs h c"
    by (simp_all add: at_path_def)
  note d = distinct_plugD [OF di]
  have ag: "agree_on (path_addrs c) h h'" using frame_off_agree [OF fr d(2)] .
  obtain h'' where h'': "store_slot h' (path_slot c) (Some x) = Some h''"
    "path_links h'' (new_root root c (Some x)) c (Some x)" "side_aggs h'' c" "frame_off (path_addrs c) h' h''"
    using store_slot_path [of h' root c "Some p" "Some x"] pl d(3)
    by (auto simp: path_links_cong [OF ag] side_aggs_cong [OF ag])
  have "set_tree t' = set_tree t" using t'(3) by (rule set_tree_inorder_eq)
  then have "agree_on (set_tree t') h' h''"
    using frame_off_agree [OF h''(4)] d(2) by (auto simp: Int_commute)
  then have "links h'' (path_par c) (Some x) t'" "aggs h'' t'"
    using t' by (simp_all add: links_cong aggs_cong)
  moreover have "frame_off (set_tree (plug c t)) h h''"
    using fr h''(4) by (auto simp: frame_off_def set_tree_plug)
  moreover have "size t' = size t" using t'(3) by (rule size_inorder_eq)
  ultimately show ?thesis
    using h'' di sz t'(3) by (simp add: at_path_def inorder_plug size_plug)
qed

lemma height_u32:
  assumes "size (Node l p r) < 2 ^ 31"
  shows "(of_nat (height l) = of_nat (height r) + (2 :: u32)) = (height l = height r + 2)"
    and "(of_nat (height l) + (2 :: u32) = of_nat (height r)) = (height l + 2 = height r)"
proof -
  have "height l + 2 < 2 ^ 32" "height r + 2 < 2 ^ 32"
    using assms height_le_size [of l] height_le_size [of r] by auto
  then show "(of_nat (height l) = of_nat (height r) + (2 :: u32)) = (height l = height r + 2)"
    and "(of_nat (height l) + (2 :: u32) = of_nat (height r)) = (height l + 2 = height r)"
    using of_nat_u32_eq [of "height l" "height r + 2"] of_nat_u32_eq [of "height l + 2" "height r"]
    by (simp_all add: add.commute)
qed

text \<open>The state in which the loop of \<open>avl_fix\<close> reaches a node: only its children are in order.\<close>

definition stale_at :: "avl_store \<Rightarrow> addr option \<Rightarrow> addr frame list \<Rightarrow> addr tree \<Rightarrow> addr \<Rightarrow> addr tree \<Rightarrow> bool" where
  "stale_at h root c l p r \<longleftrightarrow>
     path_links h root c (Some p) \<and> side_aggs h c \<and> links h (path_par c) (Some p) (Node l p r) \<and>
     aggs h l \<and> aggs h r \<and>
     distinct (inorder (plug c (Node l p r))) \<and> size (plug c (Node l p r)) < 2 ^ 31"

lemma stale_at_update:
  assumes st: "stale_at h root c l p r"
  shows "\<exists>h' n. avl_update h p = Some h' \<and> at_path h' root c (Some p) (Node l p r) \<and>
    frame_off {p} h h' \<and> h' p = Some n \<and> a_parent n = path_par c \<and>
    avl_height h' (a_left n) = Some (of_nat (height l)) \<and>
    avl_height h' (a_right n) = Some (of_nat (height r))"
proof -
  from st obtain n where n: "h p = Some n" "a_parent n = path_par c"
    and lr: "links h (Some p) (a_left n) l" "links h (Some p) (a_right n) r" "aggs h l" "aggs h r"
    and pl: "path_links h root c (Some p)" "side_aggs h c"
    and di: "distinct (inorder (plug c (Node l p r)))" and sz: "size (plug c (Node l p r)) < 2 ^ 31"
    by (auto simp: stale_at_def)
  let ?h' = "h(p \<mapsto> with_aggs n l r)"
  have p: "p \<notin> set_tree l" "p \<notin> set_tree r" "p \<notin> path_addrs c"
    using distinct_plugD(1,2) [OF di] by auto
  then have up: "avl_update h p = Some ?h'"
    using n lr sz by (intro avl_update_eq) (auto simp: size_plug)
  have ag: "agree_on (set_tree l) h ?h'" "agree_on (set_tree r) h ?h'" "agree_on (path_addrs c) h ?h'"
    using p by (auto intro: agree_on_upd)
  have lr': "links ?h' (Some p) (a_left n) l" "links ?h' (Some p) (a_right n) r" "aggs ?h' l" "aggs ?h' r"
    using lr by (simp_all add: links_cong [OF ag(1)] links_cong [OF ag(2)] aggs_cong [OF ag(1)]
      aggs_cong [OF ag(2)])
  have "links ?h' (path_par c) (Some p) (Node l p r) \<and> aggs ?h' (Node l p r)"
    using n lr' by (intro node_rep [of ?h' p n]) simp_all
  then have "at_path ?h' root c (Some p) (Node l p r)"
    using pl di sz by (simp add: at_path_def path_links_cong [OF ag(3)] side_aggs_cong [OF ag(3)])
  moreover have "avl_height ?h' (a_left n) = Some (of_nat (height l))"
    "avl_height ?h' (a_right n) = Some (of_nat (height r))"
    using avl_height_eq lr' by blast+
  ultimately show ?thesis
    using up n by (intro exI [of _ ?h'] exI [of _ "with_aggs n l r"]) (simp add: frame_off_def)
qed

lemma avl_fix_node_at:
  assumes st: "stale_at h root c l p r"
  shows "\<exists>h' x. avl_fix_node h p (path_par c) = Some (h', x) \<and>
    at_path h' (new_root root c (Some x)) c (Some x) (bal l p r) \<and>
    frame_off (set_tree (plug c (Node l p r))) h h'"
proof -
  from st have pl: "path_links h root c (Some p)" and di: "distinct (inorder (plug c (Node l p r)))"
    and sz: "size (Node l p r) < 2 ^ 31"
    by (auto simp: stale_at_def size_plug)
  have slot: "slot_of h p (path_par c) = Some (path_slot c)"
    using slot_of_path [OF pl] distinct_plugD(2) [OF di] by simp
  obtain h1 n where h1: "avl_update h p = Some h1" "at_path h1 root c (Some p) (Node l p r)"
    "frame_off {p} h h1" "h1 p = Some n"
    and hl: "avl_height h1 (a_left n) = Some (of_nat (height l))"
    "avl_height h1 (a_right n) = Some (of_nat (height r))"
    using stale_at_update [OF st] by blast
  note u32 = height_u32 [OF sz]
  have unf: "avl_fix_node h p (path_par c) =
      (if height l = height r + 2 then do {
         (h, x) \<leftarrow> avl_fix_left h1 p; h \<leftarrow> store_slot h (path_slot c) (Some x); Some (h, x) }
       else if height l + 2 = height r then do {
         (h, x) \<leftarrow> avl_fix_right h1 p; h \<leftarrow> store_slot h (path_slot c) (Some x); Some (h, x) }
       else Some (h1, p))"
    using slot h1 hl by (simp add: avl_fix_node_def u32)
  have fr1: "frame_off (set_tree (plug c (Node l p r))) h h1"
    using h1(3) by (rule frame_off_mono) (simp add: set_tree_plug)
  from h1(2) have lk: "links h1 (path_par c) (Some p) (Node l p r)" "aggs h1 l" "aggs h1 r"
    "distinct (inorder (Node l p r))"
    using distinct_plugD(1) [OF di] by (auto simp: at_path_def)
  have step: ?thesis
    if "f h1 p = Some (h2, x)" "links h2 (path_par c) (Some x) t'" "aggs h2 t'"
      "inorder t' = inorder (Node l p r)" "frame_off (set_tree (Node l p r)) h1 h2"
      "bal l p r = t'" "avl_fix_node h p (path_par c) = do {
         (h, x) \<leftarrow> f h1 p; h \<leftarrow> store_slot h (path_slot c) (Some x); Some (h, x) }"
    for f h2 x t'
    using at_path_store [OF h1(2) that(2-5)] that(1,6,7) frame_off_trans [OF fr1] by auto
  consider "height l = height r + 2" | "height l + 2 = height r"
    | "height l \<noteq> height r + 2" "height l + 2 \<noteq> height r" by blast
  then show ?thesis
  proof cases
    case 1
    then have "l \<noteq> Leaf" by auto
    from avl_fix_left_links [OF lk sz this] 1 show ?thesis
      by (elim exE conjE) (rule step, assumption+, simp_all add: bal_def fix_left_def unf)
  next
    case 2
    then have "r \<noteq> Leaf" by auto
    from avl_fix_right_links [OF lk sz this] 2 show ?thesis
      by (elim exE conjE) (rule step, assumption+, simp_all add: bal_def fix_right_def unf)
  next
    case 3
    then have "avl_fix_node h p (path_par c) = Some (h1, p)" "bal l p r = Node l p r"
      by (simp_all add: unf bal_def)
    moreover have "new_root root c (Some p) = root"
      using pl by (cases c) (auto simp: new_root_def)
    ultimately show ?thesis using h1(2) fr1 by auto
  qed
qed

subsection \<open>Rebalancing up to the root\<close>

lemma at_path_Nil: "at_path h root [] x t \<longleftrightarrow> root = x \<and> represents h x t"
  by (auto simp: at_path_def represents_def)

lemma at_path_stale:
  "at_path h root (LF y s # c) (Some x) t \<Longrightarrow> stale_at h root c t y s"
  "at_path h root (RF s y # c) (Some x) t \<Longrightarrow> stale_at h root c s y t"
  by (auto simp: at_path_def stale_at_def)

lemma avl_fix_refines:
  assumes "stale_at h root c l p r"
  shows "\<exists>h' x. avl_fix h p = Some (h', x) \<and> represents h' (Some x) (fix_up c (bal l p r)) \<and>
    frame_off (set_tree (plug c (Node l p r))) h h'"
  using assms
proof (induction c arbitrary: h root l p r)
  case Nil
  from avl_fix_node_at [OF Nil] obtain h' x where
    "avl_fix_node h p None = Some (h', x)" "represents h' (Some x) (bal l p r)"
    "frame_off (set_tree (plug [] (Node l p r))) h h'"
    by (auto simp: at_path_Nil)
  moreover from Nil obtain n where "h p = Some n" "a_parent n = None"
    by (auto simp: stale_at_def)
  ultimately show ?case by (subst avl_fix.simps) auto
next
  case (Cons f c)
  from avl_fix_node_at [OF Cons.prems] obtain h1 x where
    h1: "avl_fix_node h p (path_par (f # c)) = Some (h1, x)"
    and at: "at_path h1 root (f # c) (Some x) (bal l p r)"
    and fr: "frame_off (set_tree (plug (f # c) (Node l p r))) h h1"
    by (auto simp: new_root_def)
  from Cons.prems obtain n where n: "h p = Some n" "a_parent n = path_par (f # c)"
    by (auto simp: stale_at_def)
  have st: "set_tree (plug (f # c) (bal l p r)) = set_tree (plug (f # c) (Node l p r))"
    by (intro set_tree_inorder_eq) (simp add: inorder_plug)
  show ?case
  proof (cases f)
    case (LF y s)
    from at have "stale_at h1 root c (bal l p r) y s" unfolding LF by (rule at_path_stale(1))
    from Cons.IH [OF this] obtain h' z where "avl_fix h1 y = Some (h', z)"
      "represents h' (Some z) (fix_up (f # c) (bal l p r))"
      "frame_off (set_tree (plug (f # c) (bal l p r))) h1 h'"
      unfolding LF by auto
    moreover have "avl_fix h p = avl_fix h1 y"
      using n h1 LF by (subst avl_fix.simps) simp
    ultimately show ?thesis using fr st by (metis frame_off_trans)
  next
    case (RF s y)
    from at have "stale_at h1 root c s y (bal l p r)" unfolding RF by (rule at_path_stale(2))
    from Cons.IH [OF this] obtain h' z where "avl_fix h1 y = Some (h', z)"
      "represents h' (Some z) (fix_up (f # c) (bal l p r))"
      "frame_off (set_tree (plug (f # c) (bal l p r))) h1 h'"
      unfolding RF by auto
    moreover have "avl_fix h p = avl_fix h1 y"
      using n h1 RF by (subst avl_fix.simps) simp
    ultimately show ?thesis using fr st by (metis frame_off_trans)
  qed
qed

subsection \<open>Linking a new leaf\<close>

lemma represents_plug:
  "represents h root (plug c t) \<Longrightarrow>
     \<exists>x. at_path h root c x t"
  by (auto simp: represents_def at_path_def links_plug dest: aggs_plug)

lemma avl_link_refines:
  assumes rep: "represents h root (plug c Leaf)" and p: "h p = Some avl_blank" "p \<notin> path_addrs c"
    and sz: "size (plug c Leaf) + 1 < 2 ^ 31"
  shows "\<exists>h1 h2 h3 x. store_slot h (path_slot c) (Some p) = Some h1 \<and>
    set_parent h1 p (path_par c) = Some h2 \<and> avl_fix h2 p = Some (h3, x) \<and>
    represents h3 (Some x) (fix_up c (Node Leaf p Leaf)) \<and>
    frame_off (insert p (path_addrs c)) h h3"
proof -
  from represents_plug [OF rep] have pl: "path_links h root c None" "side_aggs h c"
    and di: "distinct (before c @ after c)"
    by (auto simp: at_path_def inorder_plug)
  from store_slot_path [OF pl di, of "Some p"] obtain h1 where
    h1: "store_slot h (path_slot c) (Some p) = Some h1"
    "path_links h1 (new_root root c (Some p)) c (Some p)" "side_aggs h1 c" "frame_off (path_addrs c) h h1"
    by blast
  have h1p: "h1 p = Some avl_blank" using frame_offD [OF h1(4) p(2)] p(1) by simp
  let ?h2 = "h1(p \<mapsto> avl_blank\<lparr>a_parent := path_par c\<rparr>)"
  have set: "set_parent h1 p (path_par c) = Some ?h2"
    by (simp add: set_parent_def upd_node_def h1p)
  have ag: "agree_on (path_addrs c) h1 ?h2" using p(2) by (rule agree_on_upd)
  have "path_links ?h2 (new_root root c (Some p)) c (Some p)" "side_aggs ?h2 c"
    using h1(2,3) path_links_cong [OF ag] side_aggs_cong [OF ag] by blast+
  then have "stale_at ?h2 (new_root root c (Some p)) c Leaf p Leaf"
    using di p(2) sz by (auto simp: stale_at_def inorder_plug size_plug path_addrs_eq)
  from avl_fix_refines [OF this] obtain h3 x where h3: "avl_fix ?h2 p = Some (h3, x)"
    "represents h3 (Some x) (fix_up c (Node Leaf p Leaf))"
    "frame_off (set_tree (plug c (Node Leaf p Leaf))) ?h2 h3"
    by (auto simp: bal_def)
  have "frame_off (insert p (path_addrs c)) h h3"
    using h1(4) h3(3) by (auto simp: frame_off_def set_tree_plug)
  with h1(1) set h3 show ?thesis by blast
qed

subsection \<open>Detaching a node\<close>

definition only_child :: "addr tree \<Rightarrow> addr tree \<Rightarrow> addr tree" where
  "only_child l r = (if l \<noteq> Leaf then l else r)"

text \<open>The path node above a changed subtree is where \<open>avl_fix\<close> starts after a removal.\<close>

lemma avl_del_easy_aux:
  assumes at: "at_path h root c x t" and par: "path_par c = Some y"
  shows "\<exists>h' z. avl_fix h y = Some (h', z) \<and> represents h' (Some z) (fix_up c t) \<and>
    frame_off (set_tree (plug c t)) h h'"
proof (cases c rule: path_par.cases)
  case (2 y' s c')
  with at par have "stale_at h root c' t y s" by (auto simp: at_path_def stale_at_def)
  from avl_fix_refines [OF this] show ?thesis using 2 par by simp
next
  case (3 s y' c')
  with at par have "stale_at h root c' s y t" by (auto simp: at_path_def stale_at_def)
  from avl_fix_refines [OF this] show ?thesis using 3 par by simp
qed (use par in simp)

lemma avl_del_easy_refines:
  assumes rep: "represents h root (plug c (Node l p r))" and easy: "l = Leaf \<or> r = Leaf"
  shows "\<exists>h' root'. avl_del_easy h p = Some (h', root') \<and>
    represents h' root' (fix_up c (only_child l r)) \<and>
    frame_off (set_tree (plug c (Node l p r)) - {p}) h h'"
proof -
  let ?t = "only_child l r"
  from represents_plug [OF rep] have pl: "path_links h root c (Some p)" "side_aggs h c"
    and lk: "links h (path_par c) (Some p) (Node l p r)" and ag: "aggs h l" "aggs h r"
    and di: "distinct (inorder (plug c (Node l p r)))" and sz: "size (plug c (Node l p r)) < 2 ^ 31"
    by (auto simp: at_path_def)
  from lk obtain n where n: "h p = Some n" "a_parent n = path_par c"
    "links h (Some p) (a_left n) l" "links h (Some p) (a_right n) r" by auto
  define child where "child = (if a_left n \<noteq> None then a_left n else a_right n)"
  have inor: "inorder (Node l p r) = (if l = Leaf then p # inorder ?t else inorder ?t @ [p])"
    using easy by (auto simp: only_child_def)
  have di': "distinct (inorder (plug c ?t))" and sz': "size (plug c ?t) < 2 ^ 31"
    and p: "p \<notin> set_tree ?t" "p \<notin> path_addrs c"
    using di sz easy unfolding inorder_plug size_plug path_addrs_eq
    by (auto simp: only_child_def split: if_splits)
  have child: "links h (Some p) child ?t" "aggs h ?t"
    using n ag easy by (cases l; auto simp: child_def only_child_def)+
  from set_parent_opt_links [OF this distinct_plugD(1) [OF di']] obtain h1 where
    h1: "set_parent_opt h child (path_par c) = Some h1" "links h1 (path_par c) child ?t" "aggs h1 ?t"
    "frame_off (set_tree ?t) h h1" by blast
  have ag1: "agree_on (path_addrs c) h h1"
    using frame_off_agree [OF h1(4)] distinct_plugD(2) [OF di'] by blast
  have pl1: "path_links h1 root c (Some p)" "side_aggs h1 c"
    using pl by (simp_all add: path_links_cong [OF ag1] side_aggs_cong [OF ag1])
  show ?thesis
  proof (cases "path_par c")
    case None
    then have c: "c = []" by (cases c rule: path_par.cases) auto
    then have "represents h1 child ?t" using h1 di' sz' by (simp add: represents_def)
    moreover have "avl_del_easy h p = Some (h1, child)"
      using n h1(1) None by (cases "a_left n") (auto simp: avl_del_easy_def child_def)
    moreover have "frame_off (set_tree (plug c (Node l p r)) - {p}) h h1"
      using h1(4) p(1) easy by (auto simp: frame_off_def c only_child_def split: if_splits)
    ultimately show ?thesis using c by auto
  next
    case (Some y)
    have slot: "slot_of h1 p (path_par c) = Some (path_slot c)"
      using slot_of_path [OF pl1(1) p(2)] .
    obtain h2 where h2: "store_slot h1 (path_slot c) child = Some h2"
      "path_links h2 (new_root root c child) c child" "side_aggs h2 c" "frame_off (path_addrs c) h1 h2"
      using store_slot_path [OF pl1 distinct_plugD(3) [OF di]] by blast
    have ag2: "agree_on (set_tree ?t) h1 h2"
      using frame_off_agree [OF h2(4)] distinct_plugD(2) [OF di'] by (auto simp: Int_commute)
    have "at_path h2 (new_root root c child) c child ?t"
      using h1(2,3) h2 di' sz' by (simp add: at_path_def links_cong [OF ag2] aggs_cong [OF ag2])
    then obtain h' x where h': "avl_fix h2 y = Some (h', x)" "represents h' (Some x) (fix_up c ?t)"
      "frame_off (set_tree (plug c ?t)) h2 h'"
      using Some avl_del_easy_aux by blast
    moreover have "avl_del_easy h p = Some (h', Some x)"
      using n h1(1) Some slot h2(1) h'(1)
      by (cases "a_left n") (auto simp: avl_del_easy_def child_def)
    moreover have "frame_off (set_tree (plug c (Node l p r)) - {p}) h h'"
      using h1(4) h2(4) h'(3) p easy
      by (auto simp: frame_off_def set_tree_plug only_child_def split: if_splits)
    ultimately show ?thesis by blast
  qed
qed

subsection \<open>Transplanting a node\<close>

text \<open>The aggregates along a path, above a subtree of height \<open>k\<close> with \<open>m\<close> nodes.\<close>

fun path_aggs :: "avl_store \<Rightarrow> addr frame list \<Rightarrow> nat \<Rightarrow> nat \<Rightarrow> bool" where
  "path_aggs h [] k m = True"
| "path_aggs h (LF x r # c) k m =
     ((\<exists>n. h x = Some n \<and> a_height n = of_nat (Suc (max k (height r))) \<and>
         a_cnt n = of_nat (Suc (m + size r))) \<and>
      aggs h r \<and> path_aggs h c (Suc (max k (height r))) (Suc (m + size r)))"
| "path_aggs h (RF l x # c) k m =
     ((\<exists>n. h x = Some n \<and> a_height n = of_nat (Suc (max (height l) k)) \<and>
         a_cnt n = of_nat (Suc (size l + m))) \<and>
      aggs h l \<and> path_aggs h c (Suc (max (height l) k)) (Suc (size l + m)))"

lemma aggs_plug_iff: "aggs h (plug c t) \<longleftrightarrow> aggs h t \<and> path_aggs h c (height t) (size t)"
  by (induction c t rule: plug.induct) auto

lemma path_aggs_cong: "agree_on (path_addrs c) h h' \<Longrightarrow> path_aggs h' c k m = path_aggs h c k m"
  by (induction h c k m rule: path_aggs.induct) (auto simp: aggs_cong)

lemma path_aggs_side: "path_aggs h c k m \<Longrightarrow> side_aggs h c"
  by (induction h c k m rule: path_aggs.induct) auto

lemma store_slot_path_aggs:
  assumes "path_aggs h c k m" and "store_slot h (path_slot c) x = Some h'"
    and "distinct (before c @ after c)"
  shows "path_aggs h' c k m"
proof (cases c rule: path_slot.cases)
  case (2 y r c')
  from assms 2 obtain n where n: "h y = Some n" "h' = h(y \<mapsto> n\<lparr>a_left := x\<rparr>)"
    by (auto simp: set_left_def upd_node_def)
  have "agree_on (set_tree r) h h'" "agree_on (path_addrs c') h h'"
    using assms(3) unfolding n(2) 2 by (auto intro!: agree_on_upd simp: path_addrs_eq)
  then show ?thesis
    using assms(1) n 2 aggs_cong [of r h h'] path_aggs_cong [of c' h h'] by auto
next
  case (3 l y c')
  from assms 3 obtain n where n: "h y = Some n" "h' = h(y \<mapsto> n\<lparr>a_right := x\<rparr>)"
    by (auto simp: set_right_def upd_node_def)
  have "agree_on (set_tree l) h h'" "agree_on (path_addrs c') h h'"
    using assms(3) unfolding n(2) 3 by (auto intro!: agree_on_upd simp: path_addrs_eq)
  then show ?thesis
    using assms(1) n 3 aggs_cong [of l h h'] path_aggs_cong [of c' h h'] by auto
qed (use assms in auto)

lemma represents_plug_iff:
  "represents h root (plug c t) \<longleftrightarrow>
     (\<exists>x. path_links h root c x \<and> links h (path_par c) x t) \<and> aggs h t \<and>
     path_aggs h c (height t) (size t) \<and> distinct (inorder (plug c t)) \<and> size (plug c t) < 2 ^ 31"
  by (auto simp: represents_def links_plug aggs_plug_iff)

lemma transplant_children:
  assumes n: "h p = Some n" and v: "h v \<noteq> None" "v \<noteq> p"
    and lk: "links h (Some p) (a_left n) l" "links h (Some p) (a_right n) r" "aggs h l" "aggs h r"
    and di: "distinct (inorder (Node l p r))" "v \<notin> set_tree l" "v \<notin> set_tree r"
  shows "\<exists>h2 h3. set_parent_opt (h(v \<mapsto> n)) (a_left n) (Some v) = Some h2 \<and>
    set_parent_opt h2 (a_right n) (Some v) = Some h3 \<and>
    h3 p = Some n \<and> h3 v = Some n \<and>
    links h3 (Some v) (a_left n) l \<and> links h3 (Some v) (a_right n) r \<and> aggs h3 l \<and> aggs h3 r \<and>
    frame_off (insert v (set_tree l \<union> set_tree r)) h h3"
proof -
  let ?h1 = "h(v \<mapsto> n)"
  have ag1: "agree_on (set_tree l) h ?h1" "agree_on (set_tree r) h ?h1"
    using di by (auto intro: agree_on_upd)
  have "links ?h1 (Some p) (a_left n) l" "aggs ?h1 l" "distinct (inorder l)"
    using lk di by (simp_all add: links_cong [OF ag1(1)] aggs_cong [OF ag1(1)])
  from set_parent_opt_links [OF this] obtain h2 where
    h2: "set_parent_opt ?h1 (a_left n) (Some v) = Some h2" "links h2 (Some v) (a_left n) l" "aggs h2 l"
    "frame_off (set_tree l) ?h1 h2" by blast
  have ag2: "agree_on (set_tree r) ?h1 h2" using frame_off_agree [OF h2(4)] di by auto
  have "links h2 (Some p) (a_right n) r" "aggs h2 r" "distinct (inorder r)"
    using lk di by (simp_all add: links_cong [OF ag2] aggs_cong [OF ag2] links_cong [OF ag1(2)]
      aggs_cong [OF ag1(2)])
  from set_parent_opt_links [OF this] obtain h3 where
    h3: "set_parent_opt h2 (a_right n) (Some v) = Some h3" "links h3 (Some v) (a_right n) r" "aggs h3 r"
    "frame_off (set_tree r) h2 h3" by blast
  have ag3: "agree_on (set_tree l) h2 h3" using frame_off_agree [OF h3(4)] di by auto
  have "links h3 (Some v) (a_left n) l" "aggs h3 l"
    using h2 by (simp_all add: links_cong [OF ag3] aggs_cong [OF ag3])
  moreover have "h3 x = ?h1 x" if "x \<notin> set_tree l" "x \<notin> set_tree r" for x
    using frame_offD [OF h2(4) that(1)] frame_offD [OF h3(4) that(2)] by simp
  then have "h3 p = Some n" "h3 v = Some n" "frame_off (insert v (set_tree l \<union> set_tree r)) h h3"
    using n v di by (auto simp: frame_off_def)
  ultimately show ?thesis using h2(1) h3(1-3) by blast
qed

lemma transplant_refines:
  assumes rep: "represents h root (plug c (Node l p r))" and n: "h p = Some n"
    and v: "h v \<noteq> None" "v \<notin> set_tree (plug c (Node l p r))"
  shows "\<exists>h2 h3 h4. set_parent_opt (h(v \<mapsto> n)) (a_left n) (Some v) = Some h2 \<and>
    set_parent_opt h2 (a_right n) (Some v) = Some h3 \<and> h3 p = Some n \<and>
    slot_of h3 p (a_parent n) = Some (path_slot c) \<and>
    store_slot h3 (path_slot c) (Some v) = Some h4 \<and> h4 p = Some n \<and>
    represents h4 (new_root root c (Some v)) (plug c (Node l v r)) \<and>
    frame_off (insert v (set_tree (plug c (Node l p r)))) h h4"
proof -
  from rep n obtain pl: "path_links h root c (Some p)" and pa: "a_parent n = path_par c"
    and lk: "links h (Some p) (a_left n) l" "links h (Some p) (a_right n) r" "aggs h l" "aggs h r"
    and nag: "a_height n = of_nat (height (Node l p r))" "a_cnt n = of_nat (size (Node l p r))"
    and pag: "path_aggs h c (height (Node l p r)) (size (Node l p r))"
    and di: "distinct (inorder (plug c (Node l p r)))" and sz: "size (plug c (Node l p r)) < 2 ^ 31"
    unfolding represents_plug_iff by auto
  note d = distinct_plugD [OF di]
  have vs: "v \<noteq> p" "v \<notin> set_tree l" "v \<notin> set_tree r" "v \<notin> path_addrs c"
    using v(2) by (auto simp: set_tree_plug)
  obtain h2 h3 where h3: "set_parent_opt (h(v \<mapsto> n)) (a_left n) (Some v) = Some h2"
    "set_parent_opt h2 (a_right n) (Some v) = Some h3" "h3 p = Some n" "h3 v = Some n"
    "links h3 (Some v) (a_left n) l" "links h3 (Some v) (a_right n) r" "aggs h3 l" "aggs h3 r"
    "frame_off (insert v (set_tree l \<union> set_tree r)) h h3"
    using transplant_children [OF n v(1) vs(1) lk d(1) vs(2,3)] by blast
  have ag3: "agree_on (path_addrs c) h h3"
    using frame_off_agree [OF h3(9)] vs d(2) by auto
  have pl3: "path_links h3 root c (Some p)" "path_aggs h3 c (height (Node l p r)) (size (Node l p r))"
    using pl pag by (simp_all add: path_links_cong [OF ag3] path_aggs_cong [OF ag3] del: path_aggs.simps)
  have slot: "slot_of h3 p (a_parent n) = Some (path_slot c)"
    using slot_of_path [OF pl3(1)] d(2) pa by simp
  obtain h4 where h4: "store_slot h3 (path_slot c) (Some v) = Some h4"
    "path_links h4 (new_root root c (Some v)) c (Some v)" "frame_off (path_addrs c) h3 h4"
    using store_slot_path [OF pl3(1) path_aggs_side [OF pl3(2)] d(3)] by blast
  have ag4: "agree_on (set_tree l) h3 h4" "agree_on (set_tree r) h3 h4"
    using frame_off_agree [OF h4(3)] d(2) by auto
  have h4v: "h4 v = Some n" "h4 p = Some n"
    using frame_offD [OF h4(3)] vs(4) d(2) h3(3,4) by auto
  have "links h4 (path_par c) (Some v) (Node l v r)" "aggs h4 (Node l v r)"
    using h3(5-8) nag pa h4v by (simp_all add: links_cong [OF ag4(1)] links_cong [OF ag4(2)]
      aggs_cong [OF ag4(1)] aggs_cong [OF ag4(2)])
  moreover have "path_aggs h4 c (height (Node l v r)) (size (Node l v r))"
    using store_slot_path_aggs [OF pl3(2) h4(1) d(3)] by simp
  moreover have "distinct (inorder (plug c (Node l v r)))" "size (plug c (Node l v r)) < 2 ^ 31"
    using di sz vs by (auto simp: inorder_plug size_plug path_addrs_eq)
  ultimately have "represents h4 (new_root root c (Some v)) (plug c (Node l v r))"
    using h4(2) unfolding represents_plug_iff by blast
  moreover have "frame_off (insert v (set_tree (plug c (Node l p r)))) h h4"
    using h3(9) h4(3) by (auto simp: frame_off_def set_tree_plug)
  ultimately show ?thesis using h3(1-3) slot h4(1) h4v(2) by blast
qed

subsection \<open>Removing any node\<close>

lemma leftmost_links:
  assumes "links h par (Some p) t"
  shows "\<exists>d v vr. leftmost h p = Some v \<and> t = plug d (Node Leaf v vr) \<and> before d = []"
  using assms
proof (induction t arbitrary: par p)
  case Leaf
  then show ?case by simp
next
  case (Node l x r)
  then obtain n where n: "h x = Some n" "p = x" "links h (Some x) (a_left n) l" by auto
  show ?case
  proof (cases "a_left n")
    case None
    with n have "l = Leaf" by (cases l) auto
    moreover have "leftmost h p = Some x" using n None by (subst leftmost.simps) simp
    ultimately show ?thesis by (intro exI [of _ "[]"]) simp
  next
    case (Some y)
    with n(3) Node.IH(1) obtain d v vr where d: "leftmost h y = Some v" "l = plug d (Node Leaf v vr)"
      "before d = []" by metis
    moreover have "leftmost h p = leftmost h y" using n Some by (subst leftmost.simps) simp
    ultimately show ?thesis
      by (intro exI [of _ "d @ [LF x r]"] exI) (auto simp: plug_append before_append)
  qed
qed

definition del_result :: "addr tree \<Rightarrow> addr \<Rightarrow> addr tree \<Rightarrow> bool" where
  "del_result t p t' \<longleftrightarrow> inorder t' = remove1 p (inorder t) \<and> (avl t \<longrightarrow> avl t')"

lemma del_result_easy:
  assumes "l = Leaf \<or> r = Leaf" and "distinct (inorder (plug c (Node l p r)))"
  shows "del_result (plug c (Node l p r)) p (fix_up c (only_child l r))"
proof -
  have "inorder (fix_up c (only_child l r)) = remove1 p (inorder (plug c (Node l p r)))"
    using assms by (auto simp: inorder_fix_up inorder_plug only_child_def remove1_append)
  moreover have "avl (fix_up c (only_child l r))" if "avl (plug c (Node l p r))"
    by (rule fix_up_avl [of _ _ "height (Node l p r)"])
       (use that assms in \<open>auto simp: avl_plug only_child_def\<close>)
  ultimately show ?thesis by (simp add: del_result_def)
qed

lemma del_result_transplant:
  assumes di: "distinct (inorder (plug c (Node l p r)))" and r: "r = plug d (Node Leaf v vr)"
    and d: "before d = []" and t1: "fix_up (d @ RF l p # c) vr = plug c1 (Node l1 p r1)"
  shows "del_result (plug c (Node l p r)) p (plug c1 (Node l1 v r1))"
proof -
  have in1: "before c1 @ inorder l1 @ p # inorder r1 @ after c1 =
      before c @ inorder l @ p # inorder vr @ after d @ after c"
    using arg_cong [OF t1, of inorder] d by (simp add: inorder_fix_up inorder_plug before_append after_append)
  have in0: "inorder (plug c (Node l p r)) =
      (before c @ inorder l) @ p # v # inorder vr @ after d @ after c"
    using d by (simp add: inorder_plug r)
  have "p \<notin> set (before c @ inorder l)" "p \<notin> set (inorder vr @ after d @ after c)"
    using di unfolding in0 by auto
  with in1 have "before c1 @ inorder l1 = before c @ inorder l"
    "inorder r1 @ after c1 = inorder vr @ after d @ after c"
    using append_Cons_eq_iff [of p "before c @ inorder l" "inorder vr @ after d @ after c"
        "before c1 @ inorder l1" "inorder r1 @ after c1"] by auto
  then have "inorder (plug c1 (Node l1 v r1)) = remove1 p (inorder (plug c (Node l p r)))"
    using \<open>p \<notin> set (before c @ inorder l)\<close> unfolding in0
    by (simp add: inorder_plug remove1_append)
  moreover have "avl (plug c1 (Node l1 v r1))" if "avl (plug c (Node l p r))"
  proof -
    have "avl (plug (d @ RF l p # c) (Node Leaf v vr))" using that by (simp add: plug_append r)
    then have "avl (fix_up (d @ RF l p # c) vr)"
      by (intro fix_up_avl [of _ _ "height (Node Leaf v vr)"]) (auto simp: avl_plug)
    then show ?thesis unfolding t1 avl_plug by simp
  qed
  ultimately show ?thesis by (simp add: del_result_def)
qed

lemma avl_del_refines:
  assumes rep: "represents h root t" and p: "p \<in> set_tree t"
  shows "\<exists>h' root' t'. avl_del h p = Some (h', root') \<and> represents h' root' t' \<and> del_result t p t' \<and>
    frame_off (set_tree t) h h' \<and> h' p \<noteq> None"
proof -
  from plug_exists [OF p] obtain c l r where t: "t = plug c (Node l p r)" by blast
  note rep = rep [unfolded t]
  from rep obtain n where n: "h p = Some n" "links h (Some p) (a_left n) l" "links h (Some p) (a_right n) r"
    by (auto simp: represents_plug_iff)
  from rep have di: "distinct (inorder (plug c (Node l p r)))" by (simp add: represents_def)
  show ?thesis
  proof (cases "l = Leaf \<or> r = Leaf")
    case True
    then have "avl_del h p = avl_del_easy h p"
      using n by (auto simp: avl_del_def)
    then show ?thesis
      using avl_del_easy_refines [OF rep True] del_result_easy [OF True di] n(1)
      unfolding t by (auto simp: frame_off_def)
  next
    case False
    then obtain rp where rp: "a_left n \<noteq> None" "a_right n = Some rp"
      using n by (cases l; cases r; auto)
    with n leftmost_links obtain d v vr where v: "leftmost h rp = Some v" "r = plug d (Node Leaf v vr)"
      "before d = []" by metis
    let ?c = "d @ RF l p # c"
    have pc: "plug c (Node l p r) = plug ?c (Node Leaf v vr)" by (simp add: plug_append v(2))
    have oc: "only_child Leaf vr = vr" by (simp add: only_child_def)
    from avl_del_easy_refines [OF rep [unfolded pc]] obtain h1 root1 where
      h1: "avl_del_easy h v = Some (h1, root1)" "represents h1 root1 (fix_up ?c vr)"
      "frame_off (set_tree (plug c (Node l p r)) - {v}) h h1"
      unfolding oc pc by blast
    have "p \<in> set_tree (fix_up ?c vr)"
      unfolding set_inorder [symmetric] inorder_fix_up by (simp add: before_append)
    then obtain c1 l1 r1 where t1: "fix_up ?c vr = plug c1 (Node l1 p r1)"
      using plug_exists by metis
    note rep1 = h1(2) [unfolded t1]
    have st1: "set_tree (plug c1 (Node l1 p r1)) = set_tree t - {v}"
      using di unfolding t1 [symmetric] t pc set_inorder [symmetric] inorder_fix_up inorder_plug
      by auto
    have vt: "v \<in> set_tree t" unfolding t pc set_tree_plug by simp
    have h1v: "h1 v = h v" using h1(3) by (simp add: frame_off_def)
    have "h v \<noteq> None"
      using rep vt links_dom unfolding t represents_def by blast
    with h1v have v1: "h1 v \<noteq> None" "v \<notin> set_tree (plug c1 (Node l1 p r1))"
      using st1 by auto
    from rep1 obtain n1 where n1: "h1 p = Some n1" by (auto simp: represents_plug_iff)
    from transplant_refines [OF rep1 n1 v1] obtain h2 h3 h4 where
      h4: "set_parent_opt (h1(v \<mapsto> n1)) (a_left n1) (Some v) = Some h2"
      "set_parent_opt h2 (a_right n1) (Some v) = Some h3" "h3 p = Some n1"
      "slot_of h3 p (a_parent n1) = Some (path_slot c1)"
      "store_slot h3 (path_slot c1) (Some v) = Some h4" "h4 p = Some n1"
      "represents h4 (new_root root1 c1 (Some v)) (plug c1 (Node l1 v r1))"
      "frame_off (insert v (set_tree (plug c1 (Node l1 p r1)))) h1 h4" by blast
    have "path_slot c1 = Local \<longleftrightarrow> c1 = []" by (cases c1 rule: path_slot.cases) auto
    then have "avl_del h p = Some (h4, new_root root1 c1 (Some v))"
      using n rp v h1 n1 h4 v1 by (auto simp: avl_del_def upd_node_def new_root_def)
    moreover have "frame_off (set_tree t) h h4"
      using h1(3) h4(8) vt unfolding st1 t [symmetric] by (auto simp: frame_off_def)
    ultimately show ?thesis
      using h4(6,7) del_result_transplant [OF di v(2,3) t1] unfolding t by blast
  qed
qed

subsection \<open>Walking by rank\<close>

lemma uint_of_nat_u32: "n < 2 ^ 32 \<Longrightarrow> uint (of_nat n :: u32) = int n"
  by (simp add: unsigned_of_nat take_bit_nat_eq_self)

lemma uint_cnt_Suc: "size t < 2 ^ 31 \<Longrightarrow> uint (of_nat (size (t :: addr tree)) + 1 :: u32) = int (size t) + 1"
  using uint_of_nat_u32 [of "Suc (size t)"] by (simp add: add.commute)

lemma avl_offset_descend:
  assumes "links h par (Some p) (Node l p r)" and "aggs h (Node l p r)" and "size (Node l p r) < 2 ^ 31"
    and "pos - int (size l) \<le> offset" and "offset \<le> pos + int (size r)"
  shows "avl_offset_loop h p pos offset =
    Some (Some (inorder (Node l p r) ! nat (int (size l) + offset - pos)))"
  using assms
proof (induction "Node l p r" arbitrary: l p r par pos)
  case (Node l p r)
  from Node.prems obtain n where n: "h p = Some n"
    and l: "links h (Some p) (a_left n) l" "aggs h l" and r: "links h (Some p) (a_right n) r" "aggs h r"
    by auto
  have cnt: "avl_cnt h (a_left n) = Some (of_nat (size l))" "avl_cnt h (a_right n) = Some (of_nat (size r))"
    using l r avl_cnt_eq by blast+
  have u: "uint (of_nat (size l) :: u32) = int (size l)" "uint (of_nat (size r) :: u32) = int (size r)"
    using Node.prems(3) by (auto intro!: uint_of_nat_u32)
  consider (here) "offset = pos" | (right) "pos < offset" | (left) "offset < pos" by linarith
  then show ?case
  proof cases
    case here
    then show ?thesis
      by (subst avl_offset_loop.simps) (simp add: nth_append)
  next
    case right
    with Node.prems obtain rl q rr where rt: "r = Node rl q rr" by (cases r) auto
    with r obtain m where m: "a_right n = Some q" "h q = Some m" "links h (Some q) (a_left m) rl" "aggs h rl"
      by auto
    have "avl_offset_loop h p pos offset = avl_offset_loop h q (pos + (int (size rl) + 1)) offset"
      using right n cnt u Node.prems m avl_cnt_eq [OF m(3,4)] uint_cnt_Suc [of rl]
      by (subst avl_offset_loop.simps) (simp add: rt)
    also have "\<dots> = Some (Some (inorder r ! nat (int (size rl) + offset - (pos + (int (size rl) + 1)))))"
      unfolding rt using Node.prems right rt r m by (intro Node.hyps(2)) auto
    also have "inorder r ! nat (int (size rl) + offset - (pos + (int (size rl) + 1))) =
        inorder (Node l p r) ! nat (int (size l) + offset - pos)"
    proof -
      have "nat (int (size l) + offset - pos) = size l + Suc (nat (offset - pos - 1))"
        using right by simp
      moreover have "nat (int (size rl) + offset - (pos + (int (size rl) + 1))) = nat (offset - pos - 1)"
        by simp
      ultimately show ?thesis by (simp add: nth_append)
    qed
    finally show ?thesis .
  next
    case left
    with Node.prems obtain ll q lr where lt: "l = Node ll q lr" by (cases l) auto
    with l obtain m where m: "a_left n = Some q" "h q = Some m" "links h (Some q) (a_right m) lr" "aggs h lr"
      by auto
    have "avl_offset_loop h p pos offset = avl_offset_loop h q (pos - (int (size lr) + 1)) offset"
      using left n cnt u Node.prems m avl_cnt_eq [OF m(3,4)] uint_cnt_Suc [of lr]
      by (subst avl_offset_loop.simps) (simp add: lt)
    also have "\<dots> = Some (Some (inorder l ! nat (int (size ll) + offset - (pos - (int (size lr) + 1)))))"
      unfolding lt using Node.prems left lt l m by (intro Node.hyps(1)) auto
    also have "inorder l ! nat (int (size ll) + offset - (pos - (int (size lr) + 1))) =
        inorder (Node l p r) ! nat (int (size l) + offset - pos)"
    proof -
      have "nat (int (size ll) + offset - (pos - (int (size lr) + 1))) = nat (int (size l) + offset - pos)"
        by (simp add: lt)
      moreover have "nat (int (size l) + offset - pos) < size l"
        using left Node.prems(4) by simp
      ultimately show ?thesis by (simp add: nth_append)
    qed
    finally show ?thesis .
  qed
qed

text \<open>A target outside the subtree sends the walk to the parent, if there is one.\<close>

lemma avl_offset_out:
  assumes rep: "represents h root (plug c (Node l p r))"
    and out: "\<not> (pos - int (size l) \<le> offset \<and> offset \<le> pos + int (size r))"
  shows "avl_offset_loop h p pos offset =
    (case c of [] \<Rightarrow> Some None
     | LF y s # c' \<Rightarrow> avl_offset_loop h y (pos + (int (size r) + 1)) offset
     | RF s y # c' \<Rightarrow> avl_offset_loop h y (pos - (int (size l) + 1)) offset)"
proof -
  from rep obtain n where n: "h p = Some n" "a_parent n = path_par c" "path_links h root c (Some p)"
    and lr: "links h (Some p) (a_left n) l" "aggs h l" "links h (Some p) (a_right n) r" "aggs h r"
    and di: "distinct (inorder (plug c (Node l p r)))" and sz: "size (Node l p r) < 2 ^ 31"
    by (auto simp: represents_plug_iff size_plug)
  have cnt: "avl_cnt h (a_left n) = Some (of_nat (size l))" "avl_cnt h (a_right n) = Some (of_nat (size r))"
    using lr avl_cnt_eq by blast+
  have u: "uint (of_nat (size l) :: u32) = int (size l)" "uint (of_nat (size r) :: u32) = int (size r)"
    "uint (of_nat (size l) + 1 :: u32) = int (size l) + 1" "uint (of_nat (size r) + 1 :: u32) = int (size r) + 1"
    using sz by (auto intro!: uint_of_nat_u32 uint_cnt_Suc)
  note unf = avl_offset_loop.simps [of h p pos offset]
  show ?thesis
  proof (cases c rule: path_par.cases)
    case 1
    then show ?thesis using out n cnt u by (auto simp: unf)
  next
    case (2 y s c')
    with n obtain m where m: "h y = Some m" "links h (Some y) (a_right m) s" by auto
    moreover have "p \<notin> set_tree s" using distinct_plugD(2) [OF di] 2 by auto
    ultimately have "a_right m \<noteq> Some p" by (cases s) auto
    then show ?thesis using 2 out n cnt u m by (auto simp: unf)
  next
    case (3 s y c')
    with n obtain m where "h y = Some m" "a_right m = Some p" by auto
    then show ?thesis using 3 out n cnt u by (auto simp: unf)
  qed
qed

definition rank_at :: "addr tree \<Rightarrow> int \<Rightarrow> addr option" where
  "rank_at t k = (if 0 \<le> k \<and> k < int (size t) then Some (inorder t ! nat k) else None)"

lemma avl_offset_in:
  assumes rep: "represents h root (plug c (Node l p r))"
    and inside: "pos - int (size l) \<le> offset \<and> offset \<le> pos + int (size r)"
  shows "avl_offset_loop h p pos offset =
    Some (rank_at (plug c (Node l p r)) (int (length (before c)) + int (size l) + offset - pos))"
proof -
  from rep have "links h (path_par c) (Some p) (Node l p r)" "aggs h (Node l p r)"
    "size (Node l p r) < 2 ^ 31"
    by (auto simp: represents_plug_iff size_plug)
  from avl_offset_descend [OF this] inside have
    "avl_offset_loop h p pos offset = Some (Some (inorder (Node l p r) ! nat (int (size l) + offset - pos)))"
    by blast
  moreover have "nat (int (length (before c)) + int (size l) + offset - pos) =
      length (before c) + nat (int (size l) + offset - pos)"
    using inside by (simp add: nat_eq_iff)
  moreover have "nat (int (size l) + offset - pos) < size (Node l p r)"
    using inside by (simp add: nat_less_iff)
  moreover have "inorder (plug c (Node l p r)) ! (length (before c) + k) = inorder (Node l p r) ! k"
    if "k < size (Node l p r)" for k
    using that unfolding inorder_plug length_inorder [symmetric]
    by (simp add: nth_append del: inorder.simps length_inorder)
  ultimately show ?thesis
    using inside by (simp add: rank_at_def size_plug del: inorder.simps)
qed

lemma avl_offset_climb:
  assumes "represents h root (plug c (Node l p r))"
  shows "avl_offset_loop h p pos offset =
    Some (rank_at (plug c (Node l p r)) (int (length (before c)) + int (size l) + offset - pos))"
  using assms
proof (induction c arbitrary: l p r pos)
  case Nil
  show ?case
  proof (cases "pos - int (size l) \<le> offset \<and> offset \<le> pos + int (size r)")
    case True
    with Nil show ?thesis by (rule avl_offset_in)
  next
    case False
    then show ?thesis using avl_offset_out [OF Nil False] by (auto simp: rank_at_def)
  qed
next
  case (Cons f c)
  show ?case
  proof (cases "pos - int (size l) \<le> offset \<and> offset \<le> pos + int (size r)")
    case True
    with Cons.prems show ?thesis by (rule avl_offset_in)
  next
    case False
    note out = avl_offset_out [OF Cons.prems False]
    show ?thesis
    proof (cases f)
      case (LF y s)
      then show ?thesis
        using out Cons.IH [of "Node l p r" y s "pos + (int (size r) + 1)"] Cons.prems
        by (simp add: algebra_simps)
    next
      case (RF s y)
      then show ?thesis
        using out Cons.IH [of s y "Node l p r" "pos - (int (size l) + 1)"] Cons.prems
        by (simp add: algebra_simps)
    qed
  qed
qed

lemma avl_offset_refines:
  assumes rep: "represents h root t" and i: "i < size t"
  shows "avl_offset h (inorder t ! i) offset = Some (rank_at t (int i + offset))"
proof -
  obtain p where p: "p = inorder t ! i" by blast
  have "p \<in> set_tree t" using i p by (metis length_inorder nth_mem set_inorder)
  then obtain c l r where t: "t = plug c (Node l p r)" using plug_exists by metis
  have "distinct (inorder t)" using rep by (simp add: represents_def)
  moreover have "inorder t ! (length (before c) + size l) = p" "length (before c) + size l < size t"
    by (simp_all add: t inorder_plug nth_append size_plug)
  ultimately have "i = length (before c) + size l"
    using i p by (metis length_inorder nth_eq_iff_index_eq)
  then have "avl_offset h p offset = Some (rank_at t (int i + offset))"
    using avl_offset_climb [of h root c l p r 0 offset] rep t by (simp add: avl_offset_def)
  then show ?thesis by (simp add: p)
qed

subsection \<open>Properties\<close>

text \<open>Linking a fresh node into an empty child slot of a balanced tree and calling
  \<open>avl_fix\<close> on it terminates without an invalid pointer access, puts the node at this place of
  the in-order sequence, gives a balanced tree with correct parent links, heights and subtree
  counts, and touches no other memory.\<close>

theorem avl_link_balanced:
  assumes "represents h root (plug c Leaf)" and "avl (plug c Leaf)"
    and "h p = Some avl_blank" and "p \<notin> path_addrs c" and "size (plug c Leaf) + 1 < 2 ^ 31"
  shows "\<exists>h1 h2 h3 x t. store_slot h (path_slot c) (Some p) = Some h1 \<and>
    set_parent h1 p (path_par c) = Some h2 \<and> avl_fix h2 p = Some (h3, x) \<and>
    represents h3 (Some x) t \<and> avl t \<and> inorder t = before c @ p # after c \<and>
    frame_off (insert p (path_addrs c)) h h3"
proof -
  have "avl (fix_up c (Node Leaf p Leaf))"
    using assms(2) by (intro fix_up_avl [of _ _ 0]) (auto simp: avl_plug)
  with avl_link_refines [OF assms(1,3-5)] show ?thesis
    by (fastforce simp: inorder_fix_up)
qed

text \<open>The store of the witnesses: node 1 with the right child 2, and a blank node 3.\<close>

definition demo_store :: avl_store where
  "demo_store =
     [1 \<mapsto> \<lparr>a_parent = None, a_left = None, a_right = Some 2, a_height = 2, a_cnt = 2\<rparr>,
      2 \<mapsto> \<lparr>a_parent = Some 1, a_left = None, a_right = None, a_height = 1, a_cnt = 1\<rparr>,
      3 \<mapsto> avl_blank]"

lemma demo_store_represents:
  "represents demo_store (Some 1) (Node Leaf 1 (Node Leaf 2 Leaf))"
  by (simp add: represents_def demo_store_def)

theorem avl_link_balanced_witness:
  "\<exists>h1 h2 h3 x t. set_right demo_store 2 (Some 3) = Some h1 \<and> set_parent h1 3 (Some 2) = Some h2 \<and>
     avl_fix h2 3 = Some (h3, x) \<and> represents h3 (Some x) t \<and> avl t \<and> inorder t = [1, 2, 3]"
  using avl_link_balanced [of demo_store "Some 1" "[RF Leaf 2, RF Leaf 1]" 3] demo_store_represents
  by (fastforce simp: demo_store_def)

text \<open>C10: \<open>avl_del\<close> on any node of a represented tree terminates without an invalid pointer
  access, removes exactly this node from the in-order sequence, keeps the tree balanced with
  correct links, heights and counts, touches no other memory, and leaves the removed node's
  memory allocated for the caller to free.\<close>

theorem avl_del_balanced:
  assumes "represents h root t" and "avl t" and "p \<in> set_tree t"
  shows "\<exists>h' root' t'. avl_del h p = Some (h', root') \<and> represents h' root' t' \<and> avl t' \<and>
    inorder t' = remove1 p (inorder t) \<and> frame_off (set_tree t) h h' \<and> h' p \<noteq> None"
  using avl_del_refines [OF assms(1,3)] assms(2) unfolding del_result_def by blast

theorem avl_del_balanced_witness:
  "\<exists>h' root' t'. avl_del demo_store 1 = Some (h', root') \<and> represents h' root' t' \<and> inorder t' = [2]"
  using avl_del_balanced [OF demo_store_represents, of 1] by fastforce

text \<open>\<open>avl_offset\<close> from the node of rank \<open>i\<close> by any signed offset terminates and returns the
  node of rank \<open>i + offset\<close>, and a null pointer when this rank does not exist.\<close>

theorem avl_offset_rank:
  assumes "represents h root t" and "i < size t"
  shows "avl_offset h (inorder t ! i) offset =
    Some (if 0 \<le> int i + offset \<and> int i + offset < int (size t)
          then Some (inorder t ! nat (int i + offset)) else None)"
  using avl_offset_refines [OF assms] by (simp add: rank_at_def)

theorem avl_offset_rank_witness:
  "avl_offset demo_store 1 1 = Some (Some 2) \<and> avl_offset demo_store 1 2 = Some None \<and>
   avl_offset demo_store 1 (- 1) = Some None"
  using avl_offset_rank [OF demo_store_represents, of 0 1] avl_offset_rank [OF demo_store_represents, of 0 2]
    avl_offset_rank [OF demo_store_represents, of 0 "- 1"] by simp

end
