(* ===== verification/Hash_Table.thy ===== *)
theory Hash_Table
  imports Prelude "HOL-Library.Multiset"
begin

text \<open>
  The chained hash table with progressive rehashing (\<open>include/store/hashtable.h\<close>,
  \<open>src/store/hashtable.cpp\<close>) and the string hash (\<open>include/common/hash.h\<close>).

  A chain linked through \<open>HNode::next\<close> is the list of its nodes; a node is its cached hash
  code and the address of the structure that embeds it (\<open>container_of\<close>). The comparison
  callback \<open>eq(cur, key)\<close> is a predicate on the embedding structure's address, with the key
  fixed by the caller; it is \<open>None\<close> where that address is not a live object. The address of the pointer that owns a node, which \<open>h_lookup\<close>
  returns, is the slot number and the position in its chain.
\<close>

record hnode =
  hcode :: u64
  owner :: addr

record htab =
  tab :: "hnode list list option"
  hmask :: u64
  hsize :: nat

record hmap =
  newer :: htab
  older :: htab
  migrate_pos :: nat

definition htab_empty :: htab where
  "htab_empty = \<lparr>tab = None, hmask = 0, hsize = 0\<rparr>"

definition hmap_empty :: hmap where
  "hmap_empty = \<lparr>newer = htab_empty, older = htab_empty, migrate_pos = 0\<rparr>"

subsection \<open>The string hash\<close>

definition str_hash :: "string \<Rightarrow> u64" where
  "str_hash data =
     ucast (foldl (\<lambda>h c. (h + ucast (byte_of_char c)) * 0x01000193) (0x811C9DC5 :: u32) data)"

subsection \<open>One table\<close>

definition h_init :: "u64 \<Rightarrow> htab option" where
  "h_init n =
     (if n > 0 \<and> (n - 1) AND n = 0
      then Some \<lparr>tab = Some (replicate (unat n) []), hmask = n - 1, hsize = 0\<rparr>
      else None)"

definition h_insert :: "htab \<Rightarrow> hnode \<Rightarrow> htab option" where
  "h_insert htab node = do {
     cs \<leftarrow> tab htab;
     let pos = unat (hcode node AND hmask htab);
     chain \<leftarrow> vec_at cs pos;
     cs \<leftarrow> vec_set cs pos (node # chain);
     Some (htab\<lparr>tab := Some cs, hsize := hsize htab + 1\<rparr>)
   }"

text \<open>The walk along a chain; \<open>i\<close> counts the nodes passed.\<close>

fun chain_find :: "hnode list \<Rightarrow> u64 \<Rightarrow> (addr \<Rightarrow> bool option) \<Rightarrow> nat \<Rightarrow> nat option option" where
  "chain_find [] key eq i = Some None"
| "chain_find (cur # rest) key eq i =
     (if hcode cur = key then do {
        same \<leftarrow> eq (owner cur);
        if same then Some (Some i) else chain_find rest key eq (Suc i) }
      else chain_find rest key eq (Suc i))"

definition h_lookup :: "htab \<Rightarrow> u64 \<Rightarrow> (addr \<Rightarrow> bool option) \<Rightarrow> (nat \<times> nat) option option" where
  "h_lookup htab key eq =
     (case tab htab of None \<Rightarrow> Some None
      | Some cs \<Rightarrow> do {
          let pos = unat (key AND hmask htab);
          chain \<leftarrow> vec_at cs pos;
          i \<leftarrow> chain_find chain key eq 0;
          Some (map_option (Pair pos) i) })"

text \<open>The node a pointer owns, and unlinking it. A linked node is counted, so the size is positive.\<close>

definition h_node :: "htab \<Rightarrow> nat \<times> nat \<Rightarrow> hnode option" where
  "h_node htab from = do { cs \<leftarrow> tab htab; chain \<leftarrow> vec_at cs (fst from); vec_at chain (snd from) }"

definition h_detach :: "htab \<Rightarrow> nat \<times> nat \<Rightarrow> (htab \<times> hnode) option" where
  "h_detach htab from = do {
     cs \<leftarrow> tab htab;
     chain \<leftarrow> vec_at cs (fst from);
     node \<leftarrow> vec_at chain (snd from);
     cs \<leftarrow> vec_set cs (fst from) (take (snd from) chain @ drop (Suc (snd from)) chain);
     Some (htab\<lparr>tab := Some cs, hsize := hsize htab - 1\<rparr>, node)
   }"

subsection \<open>Progressive rehashing\<close>

definition k_rehashing_work :: nat where "k_rehashing_work = 128"
definition k_max_load_factor :: u64 where "k_max_load_factor = 8"

definition tab_len :: "hmap \<Rightarrow> nat" where
  "tab_len m = (case tab (older m) of None \<Rightarrow> 0 | Some cs \<Rightarrow> length cs)"

function migrate :: "nat \<Rightarrow> hmap \<Rightarrow> hmap option" where
  "migrate nwork m =
     (if nwork < k_rehashing_work \<and> hsize (older m) > 0 then do {
        cs \<leftarrow> tab (older m);
        chain \<leftarrow> vec_at cs (migrate_pos m);
        if chain = [] then migrate nwork (m\<lparr>migrate_pos := migrate_pos m + 1\<rparr>)
        else do {
          (old, node) \<leftarrow> h_detach (older m) (migrate_pos m, 0);
          new \<leftarrow> h_insert (newer m) node;
          migrate (nwork + 1) (m\<lparr>older := old, newer := new\<rparr>)
        } }
      else Some m)"
  by pat_completeness auto
termination
  by (relation "measures [\<lambda>(nwork, m). k_rehashing_work - nwork, \<lambda>(nwork, m). tab_len m - migrate_pos m]")
     (auto simp: tab_len_def vec_at_eq_Some_iff)

declare migrate.simps [simp del]

definition hm_help_rehashing :: "hmap \<Rightarrow> hmap option" where
  "hm_help_rehashing m = do {
     m \<leftarrow> migrate 0 m;
     Some (if hsize (older m) = 0 \<and> tab (older m) \<noteq> None then m\<lparr>older := htab_empty\<rparr> else m)
   }"

definition hm_trigger_rehashing :: "hmap \<Rightarrow> hmap option" where
  "hm_trigger_rehashing m =
     (if tab (older m) = None then do {
        new \<leftarrow> h_init ((hmask (newer m) + 1) * 2);
        Some (m\<lparr>older := newer m, newer := new, migrate_pos := 0\<rparr>) }
      else None)"

subsection \<open>Public operations\<close>

definition hm_lookup :: "hmap \<Rightarrow> u64 \<Rightarrow> (addr \<Rightarrow> bool option) \<Rightarrow> (hmap \<times> addr option) option" where
  "hm_lookup m key eq = do {
     m \<leftarrow> hm_help_rehashing m;
     from \<leftarrow> h_lookup (newer m) key eq;
     (case from of
        Some f \<Rightarrow> do { n \<leftarrow> h_node (newer m) f; Some (m, Some (owner n)) }
      | None \<Rightarrow> do {
          from \<leftarrow> h_lookup (older m) key eq;
          (case from of
             Some f \<Rightarrow> do { n \<leftarrow> h_node (older m) f; Some (m, Some (owner n)) }
           | None \<Rightarrow> Some (m, None)) })
   }"

text \<open>\<open>hm_insert\<close> creates the first table lazily, and grows when not already migrating.\<close>

definition hm_first_table :: "hmap \<Rightarrow> hmap option" where
  "hm_first_table m =
     (if tab (newer m) = None then do { t \<leftarrow> h_init 4; Some (m\<lparr>newer := t\<rparr>) } else Some m)"

definition hm_grow :: "hmap \<Rightarrow> hmap option" where
  "hm_grow m =
     (if tab (older m) = None then
        let threshold = (hmask (newer m) + 1) * k_max_load_factor in
        if hsize (newer m) \<ge> unat threshold then hm_trigger_rehashing m else Some m
      else Some m)"

definition hm_insert :: "hmap \<Rightarrow> hnode \<Rightarrow> hmap option" where
  "hm_insert m node = do {
     m \<leftarrow> hm_first_table m;
     new \<leftarrow> h_insert (newer m) node;
     m \<leftarrow> hm_grow (m\<lparr>newer := new\<rparr>);
     hm_help_rehashing m
   }"

definition hm_delete :: "hmap \<Rightarrow> u64 \<Rightarrow> (addr \<Rightarrow> bool option) \<Rightarrow> (hmap \<times> addr option) option" where
  "hm_delete m key eq = do {
     m \<leftarrow> hm_help_rehashing m;
     from \<leftarrow> h_lookup (newer m) key eq;
     (case from of
        Some f \<Rightarrow> do { (t, n) \<leftarrow> h_detach (newer m) f; Some (m\<lparr>newer := t\<rparr>, Some (owner n)) }
      | None \<Rightarrow> do {
          from \<leftarrow> h_lookup (older m) key eq;
          (case from of
             Some f \<Rightarrow> do { (t, n) \<leftarrow> h_detach (older m) f; Some (m\<lparr>older := t\<rparr>, Some (owner n)) }
           | None \<Rightarrow> Some (m, None)) })
   }"

text \<open>The callback of \<open>hm_foreach\<close> returns whether to go on, and the new value of \<open>*arg\<close>.\<close>

fun chain_foreach :: "(addr \<Rightarrow> 's \<Rightarrow> bool \<times> 's) \<Rightarrow> hnode list \<Rightarrow> 's \<Rightarrow> bool \<times> 's" where
  "chain_foreach f [] s = (True, s)"
| "chain_foreach f (n # ns) s =
     (let (go, s) = f (owner n) s in if go then chain_foreach f ns s else (False, s))"

function h_foreach_from :: "(addr \<Rightarrow> 's \<Rightarrow> bool \<times> 's) \<Rightarrow> htab \<Rightarrow> nat \<Rightarrow> 's \<Rightarrow> (bool \<times> 's) option" where
  "h_foreach_from f htab i s =
     (case tab htab of None \<Rightarrow> Some (True, s)
      | Some cs \<Rightarrow>
          if i \<le> unat (hmask htab) then do {
            chain \<leftarrow> vec_at cs i;
            let (go, s) = chain_foreach f chain s;
            if go then h_foreach_from f htab (i + 1) s else Some (False, s) }
          else Some (True, s))"
  by pat_completeness auto
termination
  by (relation "measure (\<lambda>(f, htab, i, s). Suc (unat (hmask htab)) - i)") auto

declare h_foreach_from.simps [simp del]

definition h_foreach :: "(addr \<Rightarrow> 's \<Rightarrow> bool \<times> 's) \<Rightarrow> htab \<Rightarrow> 's \<Rightarrow> (bool \<times> 's) option" where
  "h_foreach f htab s = h_foreach_from f htab 0 s"

definition hm_foreach :: "(addr \<Rightarrow> 's \<Rightarrow> bool \<times> 's) \<Rightarrow> hmap \<Rightarrow> 's \<Rightarrow> 's option" where
  "hm_foreach f m s = do {
     (go, s) \<leftarrow> h_foreach f (newer m) s;
     if go then do { (_, s) \<leftarrow> h_foreach f (older m) s; Some s } else Some s
   }"

definition hm_clear :: "hmap \<Rightarrow> hmap" where
  "hm_clear m = hmap_empty"

definition hm_size :: "hmap \<Rightarrow> nat" where
  "hm_size m = hsize (newer m) + hsize (older m)"

end
