(* ===== verification/Hash_Refine.thy ===== *)
theory Hash_Refine
  imports Hash_Table
begin

text \<open>
  The hash table keeps its nodes: well-formedness of a table and of the pair of tables, and
  what every operation does to the multiset of linked nodes, at any stage of a rehash. The
  interface \<open>node_index\<close> states what the clients (the key space and the sorted sets) rely on,
  and turns it into a finite map from keys to the structures that embed the nodes.
\<close>


subsection \<open>Well-formed tables\<close>

text \<open>A table with \<open>2 ^ k\<close> slots, its mask and its count; each node is in the slot of its hash code.\<close>

definition htab_ok :: "htab \<Rightarrow> bool" where
  "htab_ok t \<longleftrightarrow>
     (case tab t of None \<Rightarrow> t = htab_empty
      | Some cs \<Rightarrow>
          (\<exists>k \<le> 60. length cs = 2 ^ k \<and> hmask t = mask k) \<and>
          hsize t = length (concat cs) \<and>
          (\<forall>i < length cs. \<forall>n \<in> set (cs ! i). unat (hcode n AND hmask t) = i))"

definition htab_nodes :: "htab \<Rightarrow> hnode list" where
  "htab_nodes t = (case tab t of None \<Rightarrow> [] | Some cs \<Rightarrow> concat cs)"

definition hm_nodes :: "hmap \<Rightarrow> hnode list" where
  "hm_nodes m = htab_nodes (newer m) @ htab_nodes (older m)"

definition capacity :: "hmap \<Rightarrow> nat" where
  "capacity m = unat (hmask (newer m)) + 1"

definition hmap_inv :: "hmap \<Rightarrow> bool" where
  "hmap_inv m \<longleftrightarrow> htab_ok (newer m) \<and> htab_ok (older m) \<and>
     (case tab (older m) of None \<Rightarrow> True
      | Some cs \<Rightarrow> tab (newer m) \<noteq> None \<and> (\<forall>i < migrate_pos m. i < length cs \<longrightarrow> cs ! i = []))"

lemma htab_empty_sel [simp]: "tab htab_empty = None" "hmask htab_empty = 0" "hsize htab_empty = 0"
  by (simp_all add: htab_empty_def)

lemma htab_ok_empty [simp]: "htab_ok htab_empty" "htab_nodes htab_empty = []"
  by (simp_all add: htab_ok_def htab_nodes_def htab_empty_def)

lemma hmap_inv_empty [simp]: "hmap_inv hmap_empty" "hm_nodes hmap_empty = []"
  by (simp_all add: hmap_inv_def hm_nodes_def hmap_empty_def htab_empty_def)
     (simp_all add: htab_ok_def htab_nodes_def htab_empty_def)

lemma slot_less:
  assumes "htab_ok t" and "tab t = Some cs"
  shows "unat (hc AND hmask t) < length cs"
proof -
  from assms obtain k where k: "k \<le> 60" "length cs = 2 ^ k" "hmask t = mask k"
    by (auto simp: htab_ok_def)
  have "hc AND mask k = take_bit k hc" by (simp add: take_bit_eq_mask)
  then have "unat (hc AND hmask t) = take_bit k (unat hc)"
    using k by (simp add: unsigned_take_bit_eq)
  then show ?thesis using k by simp
qed

lemma hsize_eq: "htab_ok t \<Longrightarrow> hsize t = length (htab_nodes t)"
  by (auto simp: htab_ok_def htab_nodes_def htab_empty_def split: option.splits)

lemma mset_concat_update:
  "i < length cs \<Longrightarrow> mset (concat (cs[i := c])) + mset (cs ! i) = mset (concat cs) + mset c"
proof (induction cs arbitrary: i)
  case Nil
  then show ?case by simp
next
  case (Cons a cs)
  then show ?case by (cases i) (auto simp: ac_simps)
qed

lemma h_insert_ok:
  assumes ok: "htab_ok t" and "tab t \<noteq> None"
  shows "\<exists>t' cs'. h_insert t n = Some t' \<and> htab_ok t' \<and> mset (htab_nodes t') = add_mset n (mset (htab_nodes t)) \<and>
    tab t' = Some cs' \<and> hmask t' = hmask t"
proof -
  from assms obtain cs where cs: "tab t = Some cs" by auto
  let ?pos = "unat (hcode n AND hmask t)"
  have pos: "?pos < length cs" using slot_less [OF ok cs] .
  let ?t' = "t\<lparr>tab := Some (cs[?pos := n # cs ! ?pos]), hsize := hsize t + 1\<rparr>"
  have "h_insert t n = Some ?t'" using cs pos by (simp add: h_insert_def Let_def)
  moreover have "mset (concat (cs[?pos := n # cs ! ?pos])) = add_mset n (mset (concat cs))"
    using mset_concat_update [OF pos, of "n # cs ! ?pos"] by simp
  moreover from arg_cong [OF this, of size] have "length (concat (cs[?pos := n # cs ! ?pos])) = Suc (length (concat cs))"
    by (simp only: size_mset size_add_mset)
  ultimately show ?thesis
    using ok cs pos
    by (intro exI [of _ ?t']) (auto simp: htab_ok_def htab_nodes_def nth_list_update)
qed


definition matches :: "u64 \<Rightarrow> (addr \<Rightarrow> bool option) \<Rightarrow> hnode \<Rightarrow> bool" where
  "matches key eq n \<longleftrightarrow> hcode n = key \<and> eq (owner n) = Some True"

text \<open>The callback may be called on every node of this hash code.\<close>

definition callable :: "u64 \<Rightarrow> (addr \<Rightarrow> bool option) \<Rightarrow> hnode set \<Rightarrow> bool" where
  "callable key eq ns \<longleftrightarrow> (\<forall>n \<in> ns. hcode n = key \<longrightarrow> eq (owner n) \<noteq> None)"

lemma callable_simps [simp]:
  "callable key eq (insert n ns) \<longleftrightarrow> (hcode n = key \<longrightarrow> eq (owner n) \<noteq> None) \<and> callable key eq ns"
  "callable key eq (A \<union> B) \<longleftrightarrow> callable key eq A \<and> callable key eq B"
  by (auto simp: callable_def)

lemma chain_find_ok:
  "callable key eq (set c) \<Longrightarrow>
     (chain_find c key eq i = Some None \<and> (\<forall>n \<in> set c. \<not> matches key eq n)) \<or>
     (\<exists>j < length c. chain_find c key eq i = Some (Some (i + j)) \<and> matches key eq (c ! j))"
proof (induction c arbitrary: i)
  case Nil
  then show ?case by simp
next
  case (Cons n c)
  show ?case
  proof (cases "matches key eq n")
    case True
    then show ?thesis by (auto simp: matches_def)
  next
    case False
    with Cons.prems have step: "chain_find (n # c) key eq i = chain_find c key eq (Suc i)"
      by (auto simp: matches_def)
    from Cons.prems have "callable key eq (set c)" by simp
    from Cons.IH [OF this, of "Suc i"] show ?thesis
    proof (elim disjE conjE exE)
      fix j assume "j < length c" "chain_find c key eq (Suc i) = Some (Some (Suc i + j))" "matches key eq (c ! j)"
      then show ?thesis unfolding step by (intro disjI2 exI [of _ "Suc j"]) simp
    qed (use False step in auto)
  qed
qed

lemma in_htab_nodes:
  assumes "htab_ok t" and "tab t = Some cs" and "n \<in> set (htab_nodes t)"
  shows "n \<in> set (cs ! unat (hcode n AND hmask t))"
proof -
  from assms obtain c where "c \<in> set cs" "n \<in> set c" by (auto simp: htab_nodes_def)
  then obtain i where "i < length cs" "n \<in> set (cs ! i)" by (metis in_set_conv_nth)
  with assms show ?thesis by (fastforce simp: htab_ok_def)
qed

lemma h_lookup_ok:
  assumes ok: "htab_ok t" and call: "callable key eq (set (htab_nodes t))"
  shows "(h_lookup t key eq = Some None \<and> (\<forall>n \<in> set (htab_nodes t). \<not> matches key eq n)) \<or>
    (\<exists>from n. h_lookup t key eq = Some (Some from) \<and> h_node t from = Some n \<and> matches key eq n)"
proof (cases "tab t")
  case None
  then show ?thesis by (simp add: h_lookup_def htab_nodes_def)
next
  case (Some cs)
  let ?pos = "unat (key AND hmask t)"
  have pos: "?pos < length cs" using slot_less [OF ok Some] .
  then have "set (cs ! ?pos) \<subseteq> set (htab_nodes t)" using Some nth_mem by (fastforce simp: htab_nodes_def)
  with call have "callable key eq (set (cs ! ?pos))" by (auto simp: callable_def)
  from chain_find_ok [OF this, of 0] show ?thesis
  proof (elim disjE conjE exE)
    assume none: "chain_find (cs ! ?pos) key eq 0 = Some None" "\<forall>n \<in> set (cs ! ?pos). \<not> matches key eq n"
    then have "\<not> matches key eq n" if "n \<in> set (htab_nodes t)" for n
      using in_htab_nodes [OF ok Some that] by (auto simp: matches_def)
    then show ?thesis using Some pos none by (simp add: h_lookup_def Let_def)
  qed (use Some pos in \<open>auto simp: h_lookup_def Let_def h_node_def\<close>)
qed

lemma mset_take_drop: "i < length c \<Longrightarrow> add_mset (c ! i) (mset (take i c @ drop (Suc i) c)) = mset c"
  by (metis Cons_nth_drop_Suc append_take_drop_id mset.simps(2) mset_append union_mset_add_mset_right)

lemma h_detach_ok:
  assumes ok: "htab_ok t" and n: "h_node t from = Some n"
  shows "\<exists>t' cs cs'. h_detach t from = Some (t', n) \<and> htab_ok t' \<and>
    add_mset n (mset (htab_nodes t')) = mset (htab_nodes t) \<and>
    tab t = Some cs \<and> tab t' = Some cs' \<and> length cs' = length cs \<and> hmask t' = hmask t \<and>
    (\<forall>i < length cs. cs ! i = [] \<longrightarrow> cs' ! i = [])"
proof -
  obtain pos i where f: "from = (pos, i)" by (cases "from")
  with n obtain cs where cs: "tab t = Some cs" "pos < length cs" "i < length (cs ! pos)" "n = cs ! pos ! i"
    by (auto simp: h_node_def vec_at_eq_Some_iff split: bind_splits)
  let ?c = "take i (cs ! pos) @ drop (Suc i) (cs ! pos)"
  let ?t' = "t\<lparr>tab := Some (cs[pos := ?c]), hsize := hsize t - 1\<rparr>"
  have d: "h_detach t from = Some (?t', n)" using cs f by (simp add: h_detach_def)
  have ms: "add_mset n (mset (concat (cs[pos := ?c]))) = mset (concat cs)"
    using mset_concat_update [OF cs(2), of ?c] mset_take_drop [OF cs(3)] cs(4)
    by (metis add_left_cancel union_mset_add_mset_right add.commute)
  from arg_cong [OF this, of size] have len: "Suc (length (concat (cs[pos := ?c]))) = length (concat cs)"
    by (simp only: size_mset size_add_mset)
  have sub: "set ?c \<subseteq> set (cs ! pos)" by (auto dest: in_set_takeD in_set_dropD)
  have "htab_ok ?t'"
    using ok cs(1,2) len sub by (auto simp: htab_ok_def nth_list_update)
  with d ms cs show ?thesis
    by (intro exI [of _ ?t'] exI [of _ cs] exI [of _ "cs[pos := ?c]"])
       (auto simp: htab_nodes_def nth_list_update)
qed

subsection \<open>Rehashing keeps the nodes\<close>

lemma migrate_ok:
  assumes "hmap_inv m"
  shows "\<exists>m'. migrate w m = Some m' \<and> hmap_inv m' \<and> mset (hm_nodes m') = mset (hm_nodes m)"
  using assms
proof (induction w m rule: migrate.induct)
  case (1 w m)
  show ?case
  proof (cases "w < k_rehashing_work \<and> hsize (older m) > 0")
    case False
    with "1.prems" show ?thesis by (subst migrate.simps) auto
  next
    case True
    from "1.prems" have ok: "htab_ok (newer m)" "htab_ok (older m)" by (auto simp: hmap_inv_def)
    from True ok(2) obtain cs where cs: "tab (older m) = Some cs"
      by (cases "tab (older m)") (auto simp: htab_ok_def htab_empty_def)
    with "1.prems" have new: "tab (newer m) \<noteq> None"
      and clr: "\<And>i. i < migrate_pos m \<Longrightarrow> i < length cs \<Longrightarrow> cs ! i = []"
      by (auto simp: hmap_inv_def)
    have pos: "migrate_pos m < length cs"
    proof (rule ccontr)
      assume "\<not> migrate_pos m < length cs"
      then have "\<forall>c \<in> set cs. c = []" using clr by (auto simp: in_set_conv_nth)
      then have "concat cs = []" by simp
      then show False using True ok(2) cs by (simp add: htab_ok_def)
    qed
    show ?thesis
    proof (cases "cs ! migrate_pos m = []")
      case empty: True
      have "hmap_inv (m\<lparr>migrate_pos := migrate_pos m + 1\<rparr>)"
        using "1.prems" cs clr empty by (auto simp: hmap_inv_def less_Suc_eq)
      from "1.IH"(1) [OF True cs _ empty this] pos show ?thesis
        using True cs empty by (subst migrate.simps) (auto simp: hm_nodes_def)
    next
      case full: False
      then have node: "h_node (older m) (migrate_pos m, 0) = Some (cs ! migrate_pos m ! 0)"
        using cs pos by (simp add: h_node_def)
      let ?n = "cs ! migrate_pos m ! 0"
      from h_detach_ok [OF ok(2) node] obtain old cs' where old:
        "h_detach (older m) (migrate_pos m, 0) = Some (old, ?n)" "htab_ok old"
        "add_mset ?n (mset (htab_nodes old)) = mset (htab_nodes (older m))" "tab old = Some cs'"
        "length cs' = length cs" "\<forall>i < length cs. cs ! i = [] \<longrightarrow> cs' ! i = []"
        using cs by auto
      from h_insert_ok [OF ok(1) new] obtain new' csn where new':
        "h_insert (newer m) ?n = Some new'" "htab_ok new'" "tab new' = Some csn"
        "mset (htab_nodes new') = add_mset ?n (mset (htab_nodes (newer m)))" by blast
      let ?m' = "m\<lparr>older := old, newer := new'\<rparr>"
      have inv: "hmap_inv ?m'" using old new' clr by (auto simp: hmap_inv_def)
      have ms: "mset (hm_nodes ?m') = mset (hm_nodes m)"
        using old(3) new'(4) by (simp add: hm_nodes_def flip: old(3))
      from "1.IH"(2) [OF True cs _ full old(1) refl new'(1) inv] pos show ?thesis
        using True cs full old(1) new'(1) ms by (subst migrate.simps) auto
    qed
  qed
qed

lemma hm_help_rehashing_ok:
  assumes "hmap_inv m"
  shows "\<exists>m'. hm_help_rehashing m = Some m' \<and> hmap_inv m' \<and> mset (hm_nodes m') = mset (hm_nodes m)"
proof -
  from migrate_ok [OF assms] obtain m1 where m1: "migrate 0 m = Some m1" "hmap_inv m1"
    "mset (hm_nodes m1) = mset (hm_nodes m)" by blast
  show ?thesis
  proof (cases "hsize (older m1) = 0 \<and> tab (older m1) \<noteq> None")
    case True
    then have "htab_nodes (older m1) = []" using m1(2) hsize_eq [of "older m1"] by (simp add: hmap_inv_def)
    with True m1 show ?thesis
      by (auto simp: hm_help_rehashing_def hmap_inv_def hm_nodes_def)
  next
    case False
    with m1 show ?thesis by (auto simp: hm_help_rehashing_def)
  qed
qed


subsection \<open>The public operations\<close>

lemma unat_exp_u64: "k < 64 \<Longrightarrow> unat (2 ^ k :: u64) = 2 ^ k"
proof -
  assume "k < 64"
  then have "(2 :: nat) ^ k < 2 ^ 64" by (rule power_strict_increasing) simp
  then have "unat (word_of_nat (2 ^ k) :: u64) = 2 ^ k" by (simp add: unat_of_nat del: of_nat_power)
  then show ?thesis by simp
qed

lemma unat_mask_u64: "k < 64 \<Longrightarrow> unat (mask k :: u64) + 1 = 2 ^ k"
  using unat_exp_u64 [of k] unat_sub [of 1 "2 ^ k :: u64"]
  by (simp add: mask_eq_exp_minus_1 word_le_nat_alt)

lemma h_init_ok:
  assumes "k \<le> 60"
  shows "\<exists>t. h_init (2 ^ k) = Some t \<and> htab_ok t \<and> htab_nodes t = [] \<and> tab t \<noteq> None \<and> hmask t = mask k"
proof -
  have "(2 ^ k :: u64) > 0" using unat_exp_u64 [of k] assms by (simp add: word_less_nat_alt)
  moreover have "(2 ^ k - 1 :: u64) AND 2 ^ k = 0"
  proof -
    have "(2 ^ k - 1 :: u64) AND 2 ^ k = take_bit k (2 ^ k)"
      by (simp add: take_bit_eq_mask mask_eq_exp_minus_1 and.commute)
    also have "\<dots> = 0" by (rule bit_word_eqI) (auto simp: bit_take_bit_iff bit_exp_iff)
    finally show ?thesis .
  qed
  ultimately show ?thesis
    using assms unat_exp_u64 [of k]
    by (auto simp: h_init_def htab_ok_def htab_nodes_def mask_eq_exp_minus_1 intro!: exI [of _ k])
qed

lemma htab_length:
  assumes "htab_ok t" and "tab t = Some cs"
  shows "length cs = Suc (unat (hmask t))"
proof -
  from assms obtain k where k: "k \<le> 60" "length cs = 2 ^ k" "hmask t = mask k" by (auto simp: htab_ok_def)
  then show ?thesis using unat_mask_u64 [of k] by simp
qed

lemma hm_first_table_ok:
  assumes inv: "hmap_inv m"
  shows "\<exists>m'. hm_first_table m = Some m' \<and> hmap_inv m' \<and> tab (newer m') \<noteq> None \<and>
    hm_nodes m' = hm_nodes m \<and> older m' = older m \<and> hsize (newer m') = hsize (newer m) \<and> capacity m' \<ge> capacity m"
proof (cases "tab (newer m) = None")
  case True
  from h_init_ok [of 2] obtain t where "h_init 4 = Some t" "htab_ok t" "htab_nodes t = []" "tab t \<noteq> None"
    by auto
  moreover from True inv have "tab (older m) = None" "htab_nodes (newer m) = []" "hsize (newer m) = 0" "hmask (newer m) = 0"
    by (auto simp: hmap_inv_def htab_nodes_def htab_ok_def split: option.splits)
  ultimately show ?thesis
    using True inv hsize_eq [of t] by (auto simp: hm_first_table_def hmap_inv_def hm_nodes_def capacity_def)
qed (use inv in \<open>auto simp: hm_first_table_def\<close>)

lemma hm_grow_ok:
  assumes inv: "hmap_inv m" and new: "tab (newer m) \<noteq> None" and few: "length (hm_nodes m) \<le> 2 ^ 60"
  shows "\<exists>m'. hm_grow m = Some m' \<and> hmap_inv m' \<and> mset (hm_nodes m') = mset (hm_nodes m) \<and>
    (if tab (older m) = None \<and> hsize (newer m) \<ge> 8 * capacity m
     then older m' = newer m \<and> hsize (newer m') = 0 \<and> capacity m' = 2 * capacity m
     else m' = m)"
proof -
  from new obtain cs where cs: "tab (newer m) = Some cs" by auto
  from inv have ok: "htab_ok (newer m)" by (simp add: hmap_inv_def)
  from ok cs obtain k where k: "k \<le> 60" "hmask (newer m) = mask k" "length cs = 2 ^ k" by (auto simp: htab_ok_def)
  have cap: "capacity m = 2 ^ k" using htab_length [OF ok cs] k by (simp add: capacity_def)
  have exp: "mask k + 1 = (2 ^ k :: u64)" by (simp add: mask_eq_exp_minus_1)
  have "(mask k + 1) * k_max_load_factor = (2 ^ (k + 3) :: u64)" unfolding exp k_max_load_factor_def by (simp add: power_add)
  then have thr: "unat ((mask k + 1) * k_max_load_factor) = 8 * capacity m"
    using unat_exp_u64 [of "k + 3"] k(1) cap by (simp add: power_add)
  show ?thesis
  proof (cases "tab (older m) = None \<and> hsize (newer m) \<ge> 8 * capacity m")
    case True
    have "hsize (newer m) \<le> 2 ^ 60" using hsize_eq [OF ok] few by (simp add: hm_nodes_def)
    with True cap have "8 * 2 ^ k \<le> (2 ^ 60 :: nat)" by simp
    moreover have "8 * 2 ^ 60 \<le> (8 * 2 ^ k :: nat)" if "k = 60" using that by simp
    ultimately have "k \<noteq> 60" by auto
    with k(1) h_init_ok [of "Suc k"] obtain t where t: "h_init (2 ^ Suc k) = Some t" "htab_ok t" "htab_nodes t = []"
      "tab t \<noteq> None" "hmask t = mask (Suc k)" by auto
    from t(4) obtain cst where "tab t = Some cst" by auto
    with t(2,5) have "unat (hmask t) + 1 = 2 * 2 ^ k"
      using unat_exp_u64 [of "Suc k"] \<open>k \<noteq> 60\<close> k(1) htab_length [OF t(2)] unat_mask_u64 [of "Suc k"] by simp
    moreover have "hm_grow m = Some (m\<lparr>older := newer m, newer := t, migrate_pos := 0\<rparr>)"
      using True k exp t(1) thr by (simp add: hm_grow_def hm_trigger_rehashing_def Let_def mult.commute)
    moreover have "htab_nodes (older m) = []" using True by (simp add: htab_nodes_def)
    ultimately show ?thesis
      using True inv t cap hsize_eq [OF t(2)] cs by (auto simp: hmap_inv_def hm_nodes_def capacity_def)
  next
    case False
    then show ?thesis using inv thr k by (auto simp: hm_grow_def Let_def)
  qed
qed

lemma hm_insert_staged:
  assumes inv: "hmap_inv m" and few: "length (hm_nodes m) < 2 ^ 60"
  shows "\<exists>m' m''. hm_insert m n = hm_help_rehashing m'' \<and>
    hmap_inv m'' \<and> mset (hm_nodes m'') = add_mset n (mset (hm_nodes m)) \<and>
    capacity m' \<ge> capacity m \<and> hsize (newer m') = hsize (newer m) + 1 \<and> older m' = older m \<and>
    (if tab (older m') = None \<and> hsize (newer m') \<ge> 8 * capacity m'
     then older m'' = newer m' \<and> hsize (newer m'') = 0 \<and> capacity m'' = 2 * capacity m'
     else m'' = m')"
proof -
  from hm_first_table_ok [OF inv] obtain m1 where m1: "hm_first_table m = Some m1" "hmap_inv m1" "tab (newer m1) \<noteq> None"
    "hm_nodes m1 = hm_nodes m" "older m1 = older m" "hsize (newer m1) = hsize (newer m)" "capacity m1 \<ge> capacity m" by blast
  from m1(2) have ok: "htab_ok (newer m1)" by (simp add: hmap_inv_def)
  from h_insert_ok [OF ok m1(3)] obtain new cs where new: "h_insert (newer m1) n = Some new" "htab_ok new"
    "mset (htab_nodes new) = add_mset n (mset (htab_nodes (newer m1)))" "tab new = Some cs" "hmask new = hmask (newer m1)"
    by blast
  let ?m2 = "m1\<lparr>newer := new\<rparr>"
  have m2: "hmap_inv ?m2" "mset (hm_nodes ?m2) = add_mset n (mset (hm_nodes m))" "tab (newer ?m2) \<noteq> None"
    using m1(2) new arg_cong [OF m1(4), of mset] by (auto simp: hmap_inv_def hm_nodes_def split: option.splits)
  have len: "length (hm_nodes ?m2) \<le> 2 ^ 60" using arg_cong [OF m2(2), of size] few by simp
  have "hsize new = hsize (newer m) + 1" "capacity ?m2 = capacity m1"
    using arg_cong [OF new(3), of size] hsize_eq [OF new(2)] hsize_eq [OF ok] m1(6) new(5) by (simp_all add: capacity_def)
  moreover from hm_grow_ok [OF m2(1,3) len] obtain m3 where "hm_grow ?m2 = Some m3" "hmap_inv m3"
    "mset (hm_nodes m3) = mset (hm_nodes ?m2)" "if tab (older ?m2) = None \<and> hsize (newer ?m2) \<ge> 8 * capacity ?m2
     then older m3 = newer ?m2 \<and> hsize (newer m3) = 0 \<and> capacity m3 = 2 * capacity ?m2 else m3 = ?m2"
    by blast
  ultimately show ?thesis
    using m1 new(1) m2(2) by (intro exI [of _ ?m2] exI [of _ m3]) (simp add: hm_insert_def)
qed

lemma hm_insert_ok:
  assumes "hmap_inv m" and "length (hm_nodes m) < 2 ^ 60"
  shows "\<exists>m'. hm_insert m n = Some m' \<and> hmap_inv m' \<and> mset (hm_nodes m') = add_mset n (mset (hm_nodes m))"
  using hm_insert_staged [OF assms, of n] hm_help_rehashing_ok by fastforce

lemma h_node_mem: "h_node t from = Some n \<Longrightarrow> n \<in> set (htab_nodes t)"
  by (auto simp: h_node_def htab_nodes_def vec_at_eq_Some_iff split: bind_splits intro: nth_mem)

lemma set_hm_nodes_cong: "mset (hm_nodes m') = mset (hm_nodes m) \<Longrightarrow> set (hm_nodes m') = set (hm_nodes m)"
  by (rule mset_eq_setD)

lemma hm_lookup_ok:
  assumes inv: "hmap_inv m" and call: "callable key eq (set (hm_nodes m))"
  shows "\<exists>m' r. hm_lookup m key eq = Some (m', r) \<and> hmap_inv m' \<and> mset (hm_nodes m') = mset (hm_nodes m) \<and>
    (case r of None \<Rightarrow> (\<forall>n \<in> set (hm_nodes m). \<not> matches key eq n)
     | Some p \<Rightarrow> (\<exists>n \<in> set (hm_nodes m). matches key eq n \<and> owner n = p))"
proof -
  from hm_help_rehashing_ok [OF inv] obtain m1 where m1: "hm_help_rehashing m = Some m1" "hmap_inv m1"
    "mset (hm_nodes m1) = mset (hm_nodes m)" by blast
  then have ok: "htab_ok (newer m1)" "htab_ok (older m1)" by (auto simp: hmap_inv_def)
  have set: "set (hm_nodes m) = set (htab_nodes (newer m1)) \<union> set (htab_nodes (older m1))"
    using set_hm_nodes_cong [OF m1(3)] by (simp add: hm_nodes_def)
  with call have "callable key eq (set (htab_nodes (newer m1)))" "callable key eq (set (htab_nodes (older m1)))"
    by simp_all
  from h_lookup_ok [OF ok(1) this(1)] h_lookup_ok [OF ok(2) this(2)] show ?thesis
    using m1 set h_node_mem by (auto simp: hm_lookup_def) blast+
qed

lemma hm_delete_ok:
  assumes inv: "hmap_inv m" and call: "callable key eq (set (hm_nodes m))"
  shows "\<exists>m' r. hm_delete m key eq = Some (m', r) \<and> hmap_inv m' \<and>
    (case r of None \<Rightarrow> mset (hm_nodes m') = mset (hm_nodes m) \<and> (\<forall>n \<in> set (hm_nodes m). \<not> matches key eq n)
     | Some p \<Rightarrow> (\<exists>n. add_mset n (mset (hm_nodes m')) = mset (hm_nodes m) \<and> matches key eq n \<and> owner n = p))"
proof -
  from hm_help_rehashing_ok [OF inv] obtain m1 where m1: "hm_help_rehashing m = Some m1" "hmap_inv m1"
    "mset (hm_nodes m1) = mset (hm_nodes m)" by blast
  then have ok: "htab_ok (newer m1)" "htab_ok (older m1)" by (auto simp: hmap_inv_def)
  from m1(3) have ms: "mset (hm_nodes m) = mset (htab_nodes (newer m1)) + mset (htab_nodes (older m1))"
    by (simp add: hm_nodes_def)
  have set: "set (hm_nodes m) = set (htab_nodes (newer m1)) \<union> set (htab_nodes (older m1))"
    using set_hm_nodes_cong [OF m1(3)] by (simp add: hm_nodes_def)
  with call have call: "callable key eq (set (htab_nodes (newer m1)))" "callable key eq (set (htab_nodes (older m1)))"
    by simp_all
  from h_lookup_ok [OF ok(1) call(1)] consider
    (here) "from" n where "h_lookup (newer m1) key eq = Some (Some from)" "h_node (newer m1) from = Some n" "matches key eq n"
  | (miss) "h_lookup (newer m1) key eq = Some None" "\<forall>n \<in> set (htab_nodes (newer m1)). \<not> matches key eq n"
    by blast
  then show ?thesis
  proof cases
    case here
    from h_detach_ok [OF ok(1) here(2)] obtain t' cs' where d: "h_detach (newer m1) from = Some (t', n)" "htab_ok t'"
      "add_mset n (mset (htab_nodes t')) = mset (htab_nodes (newer m1))" "tab t' = Some cs'" by blast
    have "hmap_inv (m1\<lparr>newer := t'\<rparr>)" using m1(2) d by (auto simp: hmap_inv_def split: option.splits)
    moreover have "add_mset n (mset (hm_nodes (m1\<lparr>newer := t'\<rparr>))) = mset (hm_nodes m)"
      unfolding ms by (simp add: hm_nodes_def flip: d(3))
    ultimately show ?thesis using here m1(1) d(1) by (auto simp: hm_delete_def)
  next
    case miss
    from h_lookup_ok [OF ok(2) call(2)] consider
      (there) "from" n where "h_lookup (older m1) key eq = Some (Some from)" "h_node (older m1) from = Some n" "matches key eq n"
    | (none) "h_lookup (older m1) key eq = Some None" "\<forall>n \<in> set (htab_nodes (older m1)). \<not> matches key eq n"
      by blast
    then show ?thesis
    proof cases
      case there
      from h_detach_ok [OF ok(2) there(2)] obtain t' cs cs' where d: "h_detach (older m1) from = Some (t', n)" "htab_ok t'"
        "add_mset n (mset (htab_nodes t')) = mset (htab_nodes (older m1))" "tab t' = Some cs'" "tab (older m1) = Some cs"
        "length cs' = length cs" "\<forall>i < length cs. cs ! i = [] \<longrightarrow> cs' ! i = []" by blast
      have "hmap_inv (m1\<lparr>older := t'\<rparr>)" using m1(2) d by (auto simp: hmap_inv_def)
      moreover have "add_mset n (mset (hm_nodes (m1\<lparr>older := t'\<rparr>))) = mset (hm_nodes m)"
        unfolding ms by (simp add: hm_nodes_def flip: d(3))
      ultimately show ?thesis using miss(1) there m1(1) d(1) by (auto simp: hm_delete_def)
    next
      case none
      with miss m1 set show ?thesis by (auto simp: hm_delete_def)
    qed
  qed
qed

subsection \<open>Traversal\<close>

lemma chain_foreach_append:
  "chain_foreach f (c @ d) s = (let (go, s) = chain_foreach f c s in if go then chain_foreach f d s else (False, s))"
  by (induction c arbitrary: s) (auto simp: Let_def split: prod.splits)

lemma h_foreach_from_eq:
  assumes ok: "htab_ok t" and cs: "tab t = Some cs" and "i \<le> length cs"
  shows "h_foreach_from f t i s = Some (chain_foreach f (concat (drop i cs)) s)"
  using assms(3)
proof (induction "length cs - i" arbitrary: i s)
  case 0
  then show ?case using htab_length [OF ok cs] cs by (subst h_foreach_from.simps) simp
next
  case (Suc x)
  then have i: "i < length cs" by simp
  then have "concat (drop i cs) = cs ! i @ concat (drop (Suc i) cs)" by (simp flip: Cons_nth_drop_Suc)
  moreover have "h_foreach_from f t (Suc i) s' = Some (chain_foreach f (concat (drop (Suc i) cs)) s')" for s'
    using Suc by (intro Suc.hyps(1)) auto
  ultimately show ?case
    using i htab_length [OF ok cs] cs
    by (subst h_foreach_from.simps) (simp add: chain_foreach_append Let_def split: prod.splits)
qed

lemma h_foreach_eq: "htab_ok t \<Longrightarrow> h_foreach f t s = Some (chain_foreach f (htab_nodes t) s)"
proof (cases "tab t")
  case None
  then show ?thesis by (simp add: h_foreach_def htab_nodes_def h_foreach_from.simps)
next
  case (Some cs)
  then show "htab_ok t \<Longrightarrow> ?thesis" by (simp add: h_foreach_def htab_nodes_def h_foreach_from_eq)
qed

lemma hm_foreach_ok: "hmap_inv m \<Longrightarrow> hm_foreach f m s = Some (snd (chain_foreach f (hm_nodes m) s))"
  by (simp add: hm_foreach_def h_foreach_eq hmap_inv_def hm_nodes_def chain_foreach_append Let_def split: prod.splits)

lemma chain_foreach_fold:
  "chain_foreach (\<lambda>p s. (True, g p s)) c s = (True, fold g (map owner c) s)"
  by (induction c arbitrary: s) simp_all

lemma hm_size_ok: "hmap_inv m \<Longrightarrow> hm_size m = length (hm_nodes m)"
  by (simp add: hm_size_def hm_nodes_def hmap_inv_def hsize_eq)

subsection \<open>Progress and bounded work of a rehash\<close>

lemma h_detach_size: "h_detach t from = Some (t', n) \<Longrightarrow> hsize t' = hsize t - 1"
  by (auto simp: h_detach_def split: bind_splits)

lemma h_insert_size: "h_insert t n = Some t' \<Longrightarrow> hsize t' = hsize t + 1 \<and> hmask t' = hmask t"
  by (auto simp: h_insert_def Let_def split: bind_splits)

lemma migrate_sizes:
  "migrate w m = Some m' \<Longrightarrow> w \<le> k_rehashing_work \<Longrightarrow>
     hsize (older m') = hsize (older m) - (k_rehashing_work - w) \<and> hmask (newer m') = hmask (newer m) \<and>
     hsize (newer m') + hsize (older m') = hsize (newer m) + hsize (older m)"
proof (induction w m rule: migrate.induct)
  case (1 w m)
  show ?case
  proof (cases "w < k_rehashing_work \<and> hsize (older m) > 0")
    case False
    with "1.prems" show ?thesis by (subst (asm) migrate.simps) auto
  next
    case True
    with "1.prems"(1) obtain cs chain where cs: "tab (older m) = Some cs" "vec_at cs (migrate_pos m) = Some chain"
      by (subst (asm) migrate.simps) (auto split: bind_splits)
    show ?thesis
    proof (cases "chain = []")
      case empty: True
      with "1.prems"(1) True cs have "migrate w (m\<lparr>migrate_pos := migrate_pos m + 1\<rparr>) = Some m'"
        by (subst (asm) migrate.simps) simp
      from "1.IH"(1) [OF True cs empty this "1.prems"(2)] show ?thesis by simp
    next
      case full: False
      with "1.prems"(1) True cs obtain old n new where d: "h_detach (older m) (migrate_pos m, 0) = Some (old, n)"
        "h_insert (newer m) n = Some new" "migrate (w + 1) (m\<lparr>older := old, newer := new\<rparr>) = Some m'"
        by (subst (asm) migrate.simps) (auto split: bind_splits)
      from "1.IH"(2) [OF True cs full d(1) refl d(2,3)] True show ?thesis
        using h_detach_size [OF d(1)] h_insert_size [OF d(2)] by auto
    qed
  qed
qed

lemma hm_help_rehashing_sizes:
  assumes "hm_help_rehashing m = Some m'"
  shows "hsize (older m') = hsize (older m) - k_rehashing_work" "hmask (newer m') = hmask (newer m)"
    "hsize (newer m') + hsize (older m') = hsize (newer m) + hsize (older m)"
    "hsize (older m') = 0 \<Longrightarrow> tab (older m') = None"
  using assms migrate_sizes [of 0 m]
  by (auto simp: hm_help_rehashing_def split: bind_splits if_splits)


subsection \<open>The load factor\<close>

text \<open>
  While a rehash is under way no new one can start, so it has to finish before the new table
  fills up. The nodes still to migrate are charged to the new table.
\<close>

definition load_ok :: "hmap \<Rightarrow> bool" where
  "load_ok m \<longleftrightarrow>
     (case tab (older m) of None \<Rightarrow> hm_size m \<le> 8 * capacity m
      | Some cs \<Rightarrow> hm_size m + hsize (older m) < 8 * capacity m)"

lemma load_ok_bound: "load_ok m \<Longrightarrow> hm_size m \<le> 8 * capacity m"
  by (auto simp: load_ok_def split: option.splits)

lemma htab_None_size: "htab_ok t \<Longrightarrow> tab t = None \<Longrightarrow> hsize t = 0 \<and> hmask t = 0"
  by (simp add: htab_ok_def)

lemma help_load:
  assumes "hmap_inv m" and "hm_help_rehashing m = Some m'"
    and "tab (older m) = None \<Longrightarrow> hm_size m \<le> 8 * capacity m"
    and "tab (older m) \<noteq> None \<Longrightarrow> hsize (older m) \<le> k_rehashing_work \<Longrightarrow> hm_size m \<le> 8 * capacity m"
    and "tab (older m) \<noteq> None \<Longrightarrow> hsize (older m) > k_rehashing_work \<Longrightarrow>
           hm_size m + hsize (older m) < 8 * capacity m + k_rehashing_work"
  shows "load_ok m'"
proof -
  note sizes = hm_help_rehashing_sizes [OF assms(2)]
  have "hm_size m' = hm_size m" "capacity m' = capacity m" using sizes by (simp_all add: hm_size_def capacity_def)
  moreover have "hsize (older m) = 0" if "tab (older m) = None"
    using assms(1) that htab_None_size by (auto simp: hmap_inv_def)
  ultimately show ?thesis
    using assms(3-5) sizes by (cases "tab (older m) = None"; cases "hsize (older m) \<le> k_rehashing_work")
      (auto simp: load_ok_def split: option.splits)
qed

lemma help_keeps_load:
  "hmap_inv m \<Longrightarrow> load_ok m \<Longrightarrow> hm_help_rehashing m = Some m' \<Longrightarrow> load_ok m'"
  by (erule help_load) (auto simp: load_ok_def split: option.splits)

lemma hm_lookup_load: "hmap_inv m \<Longrightarrow> load_ok m \<Longrightarrow> hm_lookup m key eq = Some (m', r) \<Longrightarrow> load_ok m'"
  by (auto simp: hm_lookup_def split: bind_splits option.splits intro: help_keeps_load)

lemma h_detach_load:
  assumes "h_detach t from = Some (t', n)"
  shows "hsize t' \<le> hsize t \<and> hmask t' = hmask t \<and> tab t \<noteq> None \<and> tab t' \<noteq> None"
  using assms by (auto simp: h_detach_def split: bind_splits)

lemma hm_delete_load:
  assumes "hmap_inv m" and "load_ok m" and "hm_delete m key eq = Some (m', r)"
  shows "load_ok m'"
proof -
  from assms(3) obtain m1 where m1: "hm_help_rehashing m = Some m1"
    by (auto simp: hm_delete_def split: bind_splits)
  from help_keeps_load [OF assms(1,2) m1] assms(3) m1 show ?thesis
    by (auto simp: hm_delete_def load_ok_def hm_size_def capacity_def split: bind_splits option.splits
        dest!: h_detach_load)
qed

lemma hm_insert_load:
  assumes inv: "hmap_inv m" and load: "load_ok m" and few: "length (hm_nodes m) < 2 ^ 60" and ins: "hm_insert m n = Some m'"
  shows "load_ok m'"
proof -
  from hm_insert_staged [OF inv few, of n] obtain m1 m2 where m2: "hm_help_rehashing m2 = Some m'" "hmap_inv m2"
    "capacity m1 \<ge> capacity m" "hsize (newer m1) = hsize (newer m) + 1" "older m1 = older m"
    "if tab (older m1) = None \<and> hsize (newer m1) \<ge> 8 * capacity m1
     then older m2 = newer m1 \<and> hsize (newer m2) = 0 \<and> capacity m2 = 2 * capacity m1
     else m2 = m1"
    using ins by auto
  have "hsize (older m) = 0" if "tab (older m) = None"
    using inv that htab_None_size by (auto simp: hmap_inv_def)
  moreover have "capacity m1 \<ge> 1" by (simp add: capacity_def)
  ultimately show ?thesis
    using m2 load
    by (intro help_load [OF m2(2,1)])
       (auto simp: load_ok_def hm_size_def k_rehashing_work_def split: if_splits option.splits)
qed

subsection \<open>The index as its clients see it\<close>

definition hm_inv :: "hmap \<Rightarrow> bool" where
  "hm_inv m \<longleftrightarrow> hmap_inv m \<and> load_ok m"

definition hm_mset :: "hmap \<Rightarrow> hnode multiset" where
  "hm_mset m = mset (hm_nodes m)"

text \<open>The nodes of a family of structures, each embedding a node hashed by its own key.\<close>

definition key_node :: "(addr \<rightharpoonup> string) \<Rightarrow> addr \<Rightarrow> hnode" where
  "key_node ks p = \<lparr>hcode = str_hash (the (ks p)), owner = p\<rparr>"

definition keyed_by :: "hnode multiset \<Rightarrow> (addr \<rightharpoonup> string) \<Rightarrow> bool" where
  "keyed_by N ks \<longleftrightarrow> finite (dom ks) \<and> inj_on ks (dom ks) \<and> N = image_mset (key_node ks) (mset_set (dom ks))"

text \<open>A comparison callback that is defined on these structures and compares with a key.\<close>

definition compares :: "(addr \<rightharpoonup> string) \<Rightarrow> string \<Rightarrow> (addr \<Rightarrow> bool option) \<Rightarrow> bool" where
  "compares ks k eq \<longleftrightarrow> (\<forall>p k'. ks p = Some k' \<longrightarrow> eq p = Some (k' = k))"

lemma key_node_sel [simp]: "owner (key_node ks p) = p" "hcode (key_node ks p) = str_hash (the (ks p))"
  by (simp_all add: key_node_def)

lemma keyed_by_finite: "keyed_by N ks \<Longrightarrow> finite (dom ks)"
  by (simp add: keyed_by_def)

lemma keyed_by_unique: "keyed_by N ks \<Longrightarrow> ks p = Some k \<Longrightarrow> ks q = Some k \<Longrightarrow> p = q"
  unfolding keyed_by_def by (metis domI inj_onD)

lemma keyed_by_empty [simp]: "keyed_by {#} ks \<longleftrightarrow> ks = Map.empty"
proof
  assume "keyed_by {#} ks"
  then have "finite (dom ks)" "image_mset (key_node ks) (mset_set (dom ks)) = {#}"
    unfolding keyed_by_def by metis+
  then have "dom ks = {}" by (simp add: mset_set_empty_iff)
  then show "ks = Map.empty" by simp
qed (simp add: keyed_by_def)

lemma keyed_by_size: "keyed_by N ks \<Longrightarrow> size N = card (dom ks)"
  unfolding keyed_by_def by (elim conjE) simp

lemma keyed_by_mem: "keyed_by N ks \<Longrightarrow> n \<in># N \<longleftrightarrow> owner n \<in> dom ks \<and> n = key_node ks (owner n)"
  unfolding keyed_by_def by (elim conjE) (auto simp: image_iff)

lemma keyed_by_insert:
  assumes "keyed_by N ks" and "ks p = None" and "k \<notin> ran ks"
  shows "keyed_by (add_mset \<lparr>hcode = str_hash k, owner = p\<rparr> N) (ks(p \<mapsto> k))"
proof -
  have "image_mset (key_node (ks(p \<mapsto> k))) (mset_set (dom ks)) = image_mset (key_node ks) (mset_set (dom ks))"
    using assms(2) keyed_by_finite [OF assms(1)] by (intro image_mset_cong) (auto simp: key_node_def)
  moreover have "p \<notin> dom ks" using assms(2) by auto
  ultimately show ?thesis
    using assms unfolding keyed_by_def by (simp add: key_node_def inj_on_def ran_def) metis
qed

lemma keyed_by_delete:
  assumes "keyed_by (add_mset n N) ks"
  shows "keyed_by N (ks(owner n := None))"
proof -
  let ?ks = "ks(owner n := None)"
  from keyed_by_mem [OF assms, of n] have n: "owner n \<in> dom ks" "n = key_node ks (owner n)" by auto
  have "mset_set (dom ks) = add_mset (owner n) (mset_set (dom ?ks))"
    using mset_set.remove [OF keyed_by_finite [OF assms] n(1)] by simp
  moreover have "image_mset (key_node ?ks) (mset_set (dom ?ks)) = image_mset (key_node ks) (mset_set (dom ?ks))"
    using keyed_by_finite [OF assms] by (intro image_mset_cong) (auto simp: key_node_def)
  ultimately have "N = image_mset (key_node ?ks) (mset_set (dom ?ks))"
    using assms n by (simp add: keyed_by_def)
  with assms show ?thesis by (auto simp: keyed_by_def inj_on_def)
qed

locale node_index =
  fixes inv :: "'m \<Rightarrow> bool"
    and nodes :: "'m \<Rightarrow> hnode multiset"
    and lookup :: "'m \<Rightarrow> u64 \<Rightarrow> (addr \<Rightarrow> bool option) \<Rightarrow> ('m \<times> addr option) option"
    and ins :: "'m \<Rightarrow> hnode \<Rightarrow> 'm option"
    and del :: "'m \<Rightarrow> u64 \<Rightarrow> (addr \<Rightarrow> bool option) \<Rightarrow> ('m \<times> addr option) option"
  assumes lookup_law:
    "inv m \<Longrightarrow> callable key eq (set_mset (nodes m)) \<Longrightarrow>
       \<exists>m' r. lookup m key eq = Some (m', r) \<and> inv m' \<and> nodes m' = nodes m \<and>
         (case r of None \<Rightarrow> (\<forall>n \<in># nodes m. \<not> matches key eq n)
          | Some p \<Rightarrow> (\<exists>n \<in># nodes m. matches key eq n \<and> owner n = p))"
    and ins_law:
    "inv m \<Longrightarrow> size (nodes m) < 2 ^ 60 \<Longrightarrow>
       \<exists>m'. ins m n = Some m' \<and> inv m' \<and> nodes m' = add_mset n (nodes m)"
    and del_law:
    "inv m \<Longrightarrow> callable key eq (set_mset (nodes m)) \<Longrightarrow>
       \<exists>m' r. del m key eq = Some (m', r) \<and> inv m' \<and>
         (case r of None \<Rightarrow> nodes m' = nodes m \<and> (\<forall>n \<in># nodes m. \<not> matches key eq n)
          | Some p \<Rightarrow> (\<exists>n. add_mset n (nodes m') = nodes m \<and> matches key eq n \<and> owner n = p))"
begin

lemma keyed_callable:
  assumes "keyed_by (nodes m) ks" and "compares ks k eq"
  shows "callable key eq (set_mset (nodes m))"
  using assms(2) keyed_by_mem [OF assms(1)] by (auto simp: callable_def compares_def)

lemma keyed_matches:
  assumes "keyed_by (nodes m) ks" and "compares ks k eq" and "n \<in># nodes m"
  shows "matches (str_hash k) eq n \<longleftrightarrow> ks (owner n) = Some k"
proof -
  from keyed_by_mem [OF assms(1)] assms(3) obtain k' where k': "ks (owner n) = Some k'" "n = key_node ks (owner n)"
    by blast
  then have "hcode n = str_hash k'" by (metis key_node_sel(2) option.sel)
  with assms(2) k'(1) show ?thesis by (auto simp: matches_def compares_def)
qed

lemma lookup_key:
  assumes inv: "inv m" and key: "keyed_by (nodes m) ks" and eq: "compares ks k eq"
  shows "\<exists>m' r. lookup m (str_hash k) eq = Some (m', r) \<and> inv m' \<and> nodes m' = nodes m \<and>
    (\<forall>p. r = Some p \<longleftrightarrow> ks p = Some k)"
proof -
  from lookup_law [OF inv keyed_callable [OF key eq]] obtain m' r where l: "lookup m (str_hash k) eq = Some (m', r)"
    "inv m'" "nodes m' = nodes m" "case r of None \<Rightarrow> (\<forall>n \<in># nodes m. \<not> matches (str_hash k) eq n)
          | Some p \<Rightarrow> (\<exists>n \<in># nodes m. matches (str_hash k) eq n \<and> owner n = p)" by blast
  have "r = Some p \<longleftrightarrow> ks p = Some k" for p
  proof (cases r)
    case None
    have "key_node ks p \<in># nodes m" if "ks p = Some k" using that keyed_by_mem [OF key, of "key_node ks p"] by auto
    with None l(4) keyed_matches [OF key eq, of "key_node ks p"] show ?thesis by auto
  next
    case (Some q)
    with l(4) keyed_matches [OF key eq] have "ks q = Some k" by auto
    with Some keyed_by_unique [OF key] show ?thesis by auto
  qed
  with l show ?thesis by blast
qed

lemma ins_key:
  assumes "inv m" and "keyed_by (nodes m) ks" and "ks p = None" and "k \<notin> ran ks" and "card (dom ks) < 2 ^ 60"
  shows "\<exists>m'. ins m \<lparr>hcode = str_hash k, owner = p\<rparr> = Some m' \<and> inv m' \<and> keyed_by (nodes m') (ks(p \<mapsto> k))"
  using ins_law [OF assms(1), of "\<lparr>hcode = str_hash k, owner = p\<rparr>"] keyed_by_insert [OF assms(2-4)]
    keyed_by_size [OF assms(2)] assms(5) by auto

lemma del_key:
  assumes inv: "inv m" and key: "keyed_by (nodes m) ks" and eq: "compares ks k eq"
    and p: "ks p = Some k"
  shows "\<exists>m'. del m (str_hash k) eq = Some (m', Some p) \<and> inv m' \<and> keyed_by (nodes m') (ks(p := None))"
proof -
  from del_law [OF inv keyed_callable [OF key eq]] obtain m' r where d: "del m (str_hash k) eq = Some (m', r)"
    "inv m'" "case r of None \<Rightarrow> nodes m' = nodes m \<and> (\<forall>n \<in># nodes m. \<not> matches (str_hash k) eq n)
      | Some p \<Rightarrow> (\<exists>n. add_mset n (nodes m') = nodes m \<and> matches (str_hash k) eq n \<and> owner n = p)" by blast
  have kn: "key_node ks p \<in># nodes m" using p keyed_by_mem [OF key, of "key_node ks p"] by auto
  from kn d(3) p keyed_matches [OF key eq kn] obtain n where n: "add_mset n (nodes m') = nodes m"
    "matches (str_hash k) eq n" "r = Some (owner n)" by (auto split: option.splits)
  then have "n \<in># nodes m" by (metis union_single_eq_member)
  with n(2) keyed_matches [OF key eq] have "owner n = p" using keyed_by_unique [OF key _ p] by simp
  with d n keyed_by_delete [of n "nodes m'" ks] key show ?thesis by auto
qed

text \<open>Deleting an absent key leaves the nodes as they are.\<close>

lemma del_absent:
  assumes inv: "inv m" and key: "keyed_by (nodes m) ks" and eq: "compares ks k eq"
    and absent: "k \<notin> ran ks"
  shows "\<exists>m'. del m (str_hash k) eq = Some (m', None) \<and> inv m' \<and> nodes m' = nodes m"
proof -
  from del_law [OF inv keyed_callable [OF key eq]] obtain m' r where d: "del m (str_hash k) eq = Some (m', r)"
    "inv m'" "case r of None \<Rightarrow> nodes m' = nodes m \<and> (\<forall>n \<in># nodes m. \<not> matches (str_hash k) eq n)
      | Some p \<Rightarrow> (\<exists>n. add_mset n (nodes m') = nodes m \<and> matches (str_hash k) eq n \<and> owner n = p)" by blast
  have "\<not> matches (str_hash k) eq n" if "n \<in># nodes m" for n
    using keyed_matches [OF key eq that] absent by (auto simp: ran_def)
  with d(3) have "r = None \<and> nodes m' = nodes m"
    by (cases r) (simp_all, metis union_single_eq_member)
  with d show ?thesis by blast
qed

end

interpretation hm: node_index hm_inv hm_mset hm_lookup hm_insert hm_delete
proof
  fix m key eq
  assume inv: "hm_inv m" and call: "callable key eq (set_mset (hm_mset m))"
  then have "hmap_inv m" "callable key eq (set (hm_nodes m))" by (simp_all add: hm_inv_def hm_mset_def)
  from hm_lookup_ok [OF this] hm_lookup_load [of m key eq] inv
  show "\<exists>m' r. hm_lookup m key eq = Some (m', r) \<and> hm_inv m' \<and> hm_mset m' = hm_mset m \<and>
         (case r of None \<Rightarrow> (\<forall>n \<in># hm_mset m. \<not> matches key eq n)
          | Some p \<Rightarrow> (\<exists>n \<in># hm_mset m. matches key eq n \<and> owner n = p))"
    unfolding hm_inv_def hm_mset_def set_mset_mset by blast
next
  fix m n
  assume "hm_inv m" "size (hm_mset m) < 2 ^ 60"
  then show "\<exists>m'. hm_insert m n = Some m' \<and> hm_inv m' \<and> hm_mset m' = add_mset n (hm_mset m)"
    using hm_insert_ok [of m n] hm_insert_load [of m n] by (auto simp: hm_inv_def hm_mset_def)
next
  fix m key eq
  assume inv: "hm_inv m" and call: "callable key eq (set_mset (hm_mset m))"
  then have "hmap_inv m" "callable key eq (set (hm_nodes m))" by (simp_all add: hm_inv_def hm_mset_def)
  from hm_delete_ok [OF this] hm_delete_load [of m key eq] inv
  show "\<exists>m' r. hm_delete m key eq = Some (m', r) \<and> hm_inv m' \<and>
         (case r of None \<Rightarrow> hm_mset m' = hm_mset m \<and> (\<forall>n \<in># hm_mset m. \<not> matches key eq n)
          | Some p \<Rightarrow> (\<exists>n. add_mset n (hm_mset m') = hm_mset m \<and> matches key eq n \<and> owner n = p))"
    unfolding hm_inv_def hm_mset_def set_mset_mset by blast
qed

subsection \<open>Properties\<close>

lemma hm_inv_empty [simp]: "hm_inv hmap_empty" "hm_mset hmap_empty = {#}"
  by (simp_all add: hm_inv_def hm_mset_def load_ok_def hm_size_def capacity_def hmap_empty_def htab_empty_def
      hmap_inv_def htab_ok_def hm_nodes_def htab_nodes_def)

text \<open>The one-entry table the witnesses use.\<close>

lemma one_entry:
  "\<exists>m. hm_insert hmap_empty \<lparr>hcode = str_hash ''a'', owner = 7\<rparr> = Some m \<and> hm_inv m \<and>
     keyed_by (hm_mset m) [7 \<mapsto> ''a'']"
  using hm.ins_key [of hmap_empty Map.empty 7 "''a''"] by simp

text \<open>C9: Inserting a node for a new key into a well-formed hash table, at any stage of a
  progressive rehash, terminates without undefined behaviour, keeps the table well formed, adds
  exactly this node, and keeps the load factor of the newer table at 8 or below.\<close>

theorem hm_insert_key:
  assumes "hm_inv m" and "keyed_by (hm_mset m) ks" and "ks p = None" and "k \<notin> ran ks"
    and "card (dom ks) < 2 ^ 60"
  shows "\<exists>m'. hm_insert m \<lparr>hcode = str_hash k, owner = p\<rparr> = Some m' \<and> hm_inv m' \<and>
    keyed_by (hm_mset m') (ks(p \<mapsto> k)) \<and> hm_size m' = hm_size m + 1 \<and> hm_size m' \<le> 8 * capacity m'"
proof -
  from hm.ins_key [OF assms] obtain m' where m': "hm_insert m \<lparr>hcode = str_hash k, owner = p\<rparr> = Some m'" "hm_inv m'"
    "keyed_by (hm_mset m') (ks(p \<mapsto> k))" by blast
  have "hm_size m' = card (dom (ks(p \<mapsto> k)))" "hm_size m = card (dom ks)"
    using m'(2,3) assms(1,2) keyed_by_size hm_size_ok by (fastforce simp: hm_inv_def hm_mset_def)+
  with m' assms(3) keyed_by_finite [OF assms(2)] show ?thesis
    using load_ok_bound [of m'] by (auto simp: hm_inv_def domIff)
qed

theorem hm_insert_key_witness:
  "\<exists>m m'. hm_insert hmap_empty \<lparr>hcode = str_hash ''a'', owner = 7\<rparr> = Some m \<and>
     hm_insert m \<lparr>hcode = str_hash ''b'', owner = 9\<rparr> = Some m' \<and> keyed_by (hm_mset m') [7 \<mapsto> ''a'', 9 \<mapsto> ''b'']"
  using one_entry hm_insert_key [of _ "[7 \<mapsto> ''a'']" 9 "''b''"] by fastforce

text \<open>A lookup by key, at any stage of a progressive rehash, terminates without undefined
  behaviour, returns the structure with this key if there is one and a null pointer otherwise,
  never calls the comparison on a structure that is not linked, and loses no node.\<close>

theorem hm_lookup_key:
  assumes "hm_inv m" and "keyed_by (hm_mset m) ks" and "compares ks k eq"
  shows "\<exists>m' r. hm_lookup m (str_hash k) eq = Some (m', r) \<and> hm_inv m' \<and> hm_mset m' = hm_mset m \<and>
    (\<forall>p. r = Some p \<longleftrightarrow> ks p = Some k)"
  using assms by (rule hm.lookup_key)

theorem hm_lookup_key_witness:
  "\<exists>m m'. hm_insert hmap_empty \<lparr>hcode = str_hash ''a'', owner = 7\<rparr> = Some m \<and>
     hm_lookup m (str_hash ''a'') (\<lambda>p. if p = 7 then Some True else None) = Some (m', Some 7)"
proof -
  from one_entry obtain m where m: "hm_insert hmap_empty \<lparr>hcode = str_hash ''a'', owner = 7\<rparr> = Some m" "hm_inv m"
    "keyed_by (hm_mset m) [7 \<mapsto> ''a'']" by blast
  have "compares [7 \<mapsto> ''a''] ''a'' (\<lambda>p. if p = 7 then Some True else None)" by (simp add: compares_def)
  from hm_lookup_key [OF m(2,3) this] m(1) show ?thesis by auto
qed

text \<open>Deleting a key that is present, at any stage of a progressive rehash, detaches and
  returns its node and no other; the remaining table is well formed.\<close>

theorem hm_delete_key:
  assumes "hm_inv m" and "keyed_by (hm_mset m) ks" and "compares ks k eq" and "ks p = Some k"
  shows "\<exists>m'. hm_delete m (str_hash k) eq = Some (m', Some p) \<and> hm_inv m' \<and> keyed_by (hm_mset m') (ks(p := None))"
  using assms by (rule hm.del_key)

theorem hm_delete_key_witness:
  "\<exists>m m'. hm_insert hmap_empty \<lparr>hcode = str_hash ''a'', owner = 7\<rparr> = Some m \<and>
     hm_delete m (str_hash ''a'') (\<lambda>p. if p = 7 then Some True else None) = Some (m', Some 7) \<and> hm_mset m' = {#}"
proof -
  from one_entry obtain m where m: "hm_insert hmap_empty \<lparr>hcode = str_hash ''a'', owner = 7\<rparr> = Some m" "hm_inv m"
    "keyed_by (hm_mset m) [7 \<mapsto> ''a'']" by blast
  have "compares [7 \<mapsto> ''a''] ''a'' (\<lambda>p. if p = 7 then Some True else None)" by (simp add: compares_def)
  from hm_delete_key [OF m(2,3) this, of 7] m(1) show ?thesis by (auto simp: keyed_by_def)
qed

text \<open>C28: One step of a progressive rehash moves at most 128 nodes, exactly 128 as long as the
  older table holds that many, loses none, and releases the older table once it is drained.\<close>

theorem hm_help_rehashing_progress:
  assumes "hm_inv m"
  shows "\<exists>m'. hm_help_rehashing m = Some m' \<and> hm_inv m' \<and> hm_mset m' = hm_mset m \<and>
    hsize (older m') = hsize (older m) - 128 \<and> hsize (newer m') = hsize (newer m) + min 128 (hsize (older m)) \<and>
    (hsize (older m) \<le> 128 \<longrightarrow> older m' = htab_empty)"
proof -
  from assms have inv: "hmap_inv m" "load_ok m" by (auto simp: hm_inv_def)
  from hm_help_rehashing_ok [OF inv(1)] obtain m' where m': "hm_help_rehashing m = Some m'" "hmap_inv m'"
    "mset (hm_nodes m') = mset (hm_nodes m)" by blast
  note sizes = hm_help_rehashing_sizes [OF m'(1)]
  have "older m' = htab_empty" if "hsize (older m) \<le> 128"
    using sizes(1,4) m'(2) that by (auto simp: k_rehashing_work_def hmap_inv_def htab_ok_def)
  with m' sizes(1,3) help_keeps_load [OF inv m'(1)] show ?thesis
    by (intro exI [of _ m']) (auto simp: hm_inv_def hm_mset_def k_rehashing_work_def)
qed

theorem hm_help_rehashing_progress_witness:
  "let n = \<lparr>hcode = 5, owner = 7\<rparr>;
       m = \<lparr>newer = \<lparr>tab = Some (replicate 8 []), hmask = 7, hsize = 0\<rparr>,
            older = \<lparr>tab = Some [[], [n], [], []], hmask = 3, hsize = 1\<rparr>, migrate_pos = 0\<rparr>
   in hm_inv m \<and> (\<exists>m'. hm_help_rehashing m = Some m' \<and> older m' = htab_empty \<and> hsize (newer m') = 1)"
proof -
  define n where "n = \<lparr>hcode = 5, owner = 7\<rparr>"
  define t where "t = \<lparr>tab = Some (replicate 8 ([] :: hnode list)), hmask = 7, hsize = 0\<rparr>"
  define u where "u = \<lparr>tab = Some [[], [n], [], []], hmask = 3, hsize = 1\<rparr>"
  have [simp]: "mask 3 = (7 :: u64)" "mask 2 = (3 :: u64)" by (simp_all add: mask_eq_exp_minus_1)
  have "htab_ok t" unfolding htab_ok_def t_def by (simp, intro exI [of _ 3]) simp
  moreover have "unat ((5 :: u64) AND 3) = 1" by simp
  then have "htab_ok u" unfolding htab_ok_def u_def by (auto simp: n_def less_Suc_eq intro!: exI [of _ 2])
  ultimately have inv: "hm_inv \<lparr>newer = t, older = u, migrate_pos = 0\<rparr>"
    by (simp add: hm_inv_def hmap_inv_def load_ok_def hm_size_def capacity_def t_def u_def)
  from hm_help_rehashing_progress [OF this] inv show ?thesis
    unfolding Let_def t_def u_def n_def by auto
qed

end
