(* ===== verification/Double.thy ===== *)
theory Double
  imports Prelude
begin

text \<open>
  The \<open>double\<close> values of the program, as their 64-bit IEEE 754 patterns. The code copies,
  compares and prints them and never calculates with them. The patterns of the numbers
  other than NaN are ordered like their magnitudes, with the sign in the top bit, so that
  comparison is comparison of signed integers; both zeros have the key \<open>0\<close>.
\<close>

type_synonym dbl = "64 word"

definition dbl_sign :: "dbl \<Rightarrow> bool" where
  "dbl_sign x = bit x 63"

definition dbl_mag :: "dbl \<Rightarrow> u64" where
  "dbl_mag x = x AND mask 63"

definition dbl_inf :: u64 where
  "dbl_inf = 0x7FF0000000000000"

definition is_nan :: "dbl \<Rightarrow> bool" where
  "is_nan x = (dbl_mag x > dbl_inf)"

definition dbl_key :: "dbl \<Rightarrow> int" where
  "dbl_key x = (if dbl_sign x then - uint (dbl_mag x) else uint (dbl_mag x))"

definition dbl_lt :: "dbl \<Rightarrow> dbl \<Rightarrow> bool" where
  "dbl_lt x y = (\<not> is_nan x \<and> \<not> is_nan y \<and> dbl_key x < dbl_key y)"

definition dbl_eq :: "dbl \<Rightarrow> dbl \<Rightarrow> bool" where
  "dbl_eq x y = (\<not> is_nan x \<and> \<not> is_nan y \<and> dbl_key x = dbl_key y)"

lemma dbl_numbers [simp]:
  "\<not> is_nan x \<Longrightarrow> \<not> is_nan y \<Longrightarrow> dbl_lt x y \<longleftrightarrow> dbl_key x < dbl_key y"
  "\<not> is_nan x \<Longrightarrow> \<not> is_nan y \<Longrightarrow> dbl_eq x y \<longleftrightarrow> dbl_key x = dbl_key y"
  by (simp_all add: dbl_lt_def dbl_eq_def)

end
