(* ===== verification/ZSet.thy ===== *)
theory ZSet
  imports Avl_Refine Hash_Refine Double "HOL-Library.List_Lexorder" "HOL-Library.Product_Lexorder"
begin

text \<open>
  The sorted set (\<open>include/ds/zset.h\<close>, \<open>src/ds/zset.cpp\<close>): pairs of a score and a name, indexed by
  an AVL tree ordered by (score, name) and by a hash map over the names. A \<open>ZNode\<close> is one
  allocation that embeds both index hooks; its address stands for both hooks. The parts of a
  node are kept in two stores with the same addresses, the tree hooks in \<open>z_tree\<close> and
  the data in \<open>z_nodes\<close>, and the hash hook is the node in the table. \<open>malloc\<close> takes a
  fresh address and \<open>free\<close> removes the address from the stores, so that a use after free
  or a double free is an undefined (\<open>None\<close>) access.
\<close>

record znode =
  z_score :: dbl
  z_name :: string
  z_hcode :: u64

record zset =
  z_root :: "addr option"
  z_hmap :: hmap
  z_tree :: avl_store
  z_nodes :: "addr \<rightharpoonup> znode"
  z_fresh :: addr

definition zset_empty :: zset where
  "zset_empty = \<lparr>z_root = None, z_hmap = hmap_empty, z_tree = Map.empty, z_nodes = Map.empty, z_fresh = 0\<rparr>"

subsection \<open>Node lifetime\<close>

definition znode_new :: "zset \<Rightarrow> string \<Rightarrow> dbl \<Rightarrow> zset \<times> addr" where
  "znode_new zs name score =
     (let p = z_fresh zs in
      (zs\<lparr>z_fresh := p + 1, z_tree := (z_tree zs)(p \<mapsto> avl_blank),
          z_nodes := (z_nodes zs)(p \<mapsto> \<lparr>z_score = score, z_name = name, z_hcode = str_hash name\<rparr>)\<rparr>, p))"

definition znode_del :: "zset \<Rightarrow> addr \<Rightarrow> zset option" where
  "znode_del zs p =
     (if p \<in> dom (z_nodes zs)
      then Some (zs\<lparr>z_tree := (z_tree zs)(p := None), z_nodes := (z_nodes zs)(p := None)\<rparr>)
      else None)"

subsection \<open>Tuple comparison\<close>

text \<open>\<open>memcmp\<close> compares bytes as unsigned numbers; only the sign of its result is used.\<close>

fun memcmp :: "nat \<Rightarrow> string \<Rightarrow> string \<Rightarrow> int" where
  "memcmp (Suc n) (x # xs) (y # ys) =
     (if byte_of_char x < byte_of_char y then -1
      else if byte_of_char y < byte_of_char x then 1
      else memcmp n xs ys)"
| "memcmp _ _ _ = 0"

definition zless_key :: "zset \<Rightarrow> addr \<Rightarrow> dbl \<Rightarrow> string \<Rightarrow> bool option" where
  "zless_key zs lhs score name = do {
     zl \<leftarrow> z_nodes zs lhs;
     if \<not> dbl_eq (z_score zl) score then Some (dbl_lt (z_score zl) score)
     else
       let rv = memcmp (min (length (z_name zl)) (length name)) (z_name zl) name in
       if rv \<noteq> 0 then Some (rv < 0)
       else Some (length (z_name zl) < length name)
   }"

definition zless :: "zset \<Rightarrow> addr \<Rightarrow> addr \<Rightarrow> bool option" where
  "zless zs lhs rhs = do { zr \<leftarrow> z_nodes zs rhs; zless_key zs lhs (z_score zr) (z_name zr) }"

subsection \<open>The name index\<close>

definition hcmp :: "zset \<Rightarrow> string \<Rightarrow> addr \<Rightarrow> bool option" where
  "hcmp zs name p = do {
     z \<leftarrow> z_nodes zs p;
     if length (z_name z) \<noteq> length name then Some False
     else Some (memcmp (length (z_name z)) (z_name z) name = 0)
   }"

definition zset_lookup :: "zset \<Rightarrow> string \<Rightarrow> (zset \<times> addr option) option" where
  "zset_lookup zs name =
     (if z_root zs = None then Some (zs, None)
      else do {
        (m, found) \<leftarrow> hm_lookup (z_hmap zs) (str_hash name) (hcmp zs name);
        Some (zs\<lparr>z_hmap := m\<rparr>, found) })"

subsection \<open>The score index\<close>

text \<open>The walk down to an empty link: \<open>cur\<close> is \<open>*from\<close>.\<close>

partial_function (option) tree_walk ::
  "zset \<Rightarrow> addr \<Rightarrow> addr option \<Rightarrow> slot \<Rightarrow> addr option \<Rightarrow> (addr option \<times> slot) option" where
  "tree_walk zs node parent from cur =
     (case cur of None \<Rightarrow> Some (parent, from)
      | Some p \<Rightarrow> do {
          lt \<leftarrow> zless zs node p;
          n \<leftarrow> z_tree zs p;
          if lt then tree_walk zs node (Some p) (LeftOf p) (a_left n)
          else tree_walk zs node (Some p) (RightOf p) (a_right n) })"

definition tree_insert :: "zset \<Rightarrow> addr \<Rightarrow> zset option" where
  "tree_insert zs node = do {
     (parent, from) \<leftarrow> tree_walk zs node None Local (z_root zs);
     h \<leftarrow> store_slot (z_tree zs) from (Some node);
     h \<leftarrow> set_parent h node parent;
     (h, root) \<leftarrow> avl_fix h node;
     Some (zs\<lparr>z_tree := h, z_root := Some root\<rparr>)
   }"

definition zset_update :: "zset \<Rightarrow> addr \<Rightarrow> dbl \<Rightarrow> zset option" where
  "zset_update zs node score = do {
     z \<leftarrow> z_nodes zs node;
     if dbl_eq (z_score z) score then Some zs
     else do {
       (h, root) \<leftarrow> avl_del (z_tree zs) node;
       h \<leftarrow> avl_init h node;
       tree_insert (zs\<lparr>z_tree := h, z_root := root, z_nodes := (z_nodes zs)(node \<mapsto> z\<lparr>z_score := score\<rparr>)\<rparr>) node }
   }"

text \<open>\<open>zset_insert\<close> for a name that is not in the set\<close>

definition zset_add :: "zset \<Rightarrow> string \<Rightarrow> dbl \<Rightarrow> zset option" where
  "zset_add zs name score = do {
     let (zs, node) = znode_new zs name score;
     z \<leftarrow> z_nodes zs node;
     m \<leftarrow> hm_insert (z_hmap zs) \<lparr>hcode = z_hcode z, owner = node\<rparr>;
     tree_insert (zs\<lparr>z_hmap := m\<rparr>) node
   }"

definition zset_insert :: "zset \<Rightarrow> string \<Rightarrow> dbl \<Rightarrow> (zset \<times> bool) option" where
  "zset_insert zs name score = do {
     (zs, found) \<leftarrow> zset_lookup zs name;
     (case found of
        Some node \<Rightarrow> do { zs \<leftarrow> zset_update zs node score; Some (zs, False) }
      | None \<Rightarrow> do { zs \<leftarrow> zset_add zs name score; Some (zs, True) })
   }"

definition zset_delete :: "zset \<Rightarrow> addr \<Rightarrow> zset option" where
  "zset_delete zs node = do {
     z \<leftarrow> z_nodes zs node;
     (m, found) \<leftarrow> hm_delete (z_hmap zs) (z_hcode z) (hcmp zs (z_name z));
     if found = None then None
     else do {
       (h, root) \<leftarrow> avl_del (z_tree zs) node;
       znode_del (zs\<lparr>z_hmap := m, z_tree := h, z_root := root\<rparr>) node }
   }"

subsection \<open>Queries\<close>

partial_function (option) seek_loop ::
  "zset \<Rightarrow> dbl \<Rightarrow> string \<Rightarrow> addr option \<Rightarrow> addr option \<Rightarrow> addr option option" where
  "seek_loop zs score name node found =
     (case node of None \<Rightarrow> Some found
      | Some p \<Rightarrow> do {
          lt \<leftarrow> zless_key zs p score name;
          n \<leftarrow> z_tree zs p;
          if lt then seek_loop zs score name (a_right n) found
          else seek_loop zs score name (a_left n) (Some p) })"

definition zset_seekge :: "zset \<Rightarrow> dbl \<Rightarrow> string \<Rightarrow> addr option option" where
  "zset_seekge zs score name = seek_loop zs score name (z_root zs) None"

definition znode_offset :: "zset \<Rightarrow> addr option \<Rightarrow> int \<Rightarrow> addr option option" where
  "znode_offset zs node offset =
     (case node of None \<Rightarrow> Some None | Some p \<Rightarrow> avl_offset (z_tree zs) p offset)"

subsection \<open>Disposal\<close>

partial_function (option) tree_dispose :: "zset \<Rightarrow> addr option \<Rightarrow> zset option" where
  "tree_dispose zs node =
     (case node of None \<Rightarrow> Some zs
      | Some p \<Rightarrow> do {
          n \<leftarrow> z_tree zs p;
          zs \<leftarrow> tree_dispose zs (a_left n);
          n \<leftarrow> z_tree zs p;
          zs \<leftarrow> tree_dispose zs (a_right n);
          znode_del zs p })"

definition zset_clear :: "zset \<Rightarrow> zset option" where
  "zset_clear zs = do {
     let zs = zs\<lparr>z_hmap := hm_clear (z_hmap zs)\<rparr>;
     zs \<leftarrow> tree_dispose zs (z_root zs);
     Some (zs\<lparr>z_root := None\<rparr>)
   }"

text \<open>The loops are computed by their equations.\<close>

declare tree_walk.simps [code] seek_loop.simps [code] tree_dispose.simps [code]

lemma memcmp_code [code]:
  "memcmp n xs ys =
     (if n = 0 then 0
      else case xs of [] \<Rightarrow> 0
      | x # xs \<Rightarrow> (case ys of [] \<Rightarrow> 0
          | y # ys \<Rightarrow> if byte_of_char x < byte_of_char y then -1
              else if byte_of_char y < byte_of_char x then 1
              else memcmp (n - 1) xs ys))"
  by (cases n; cases xs; cases ys) simp_all

end
