(* ===== verification/ZSet_Refine.thy ===== *)
theory ZSet_Refine
  imports ZSet
begin

text \<open>
  The sorted set implements a list of (score, name) pairs with distinct names, ordered by score
  and then by the bytes of the name. \<open>zset_view\<close> relates the two indexes and their
  stores to this list; every operation of \<open>src/ds/zset.cpp\<close> is shown to succeed on a
  well-formed set (no use after free, no failed assertion, termination), to keep the two
  indexes consistent, and to compute the specified list or answer.
\<close>

subsection \<open>The order of pairs\<close>

type_synonym zpair = "dbl \<times> string"

definition zkey :: "zpair \<Rightarrow> int \<times> nat list" where
  "zkey x = (dbl_key (fst x), map of_char (snd x))"

lemma byte_less_iff: "byte_of_char x < byte_of_char y \<longleftrightarrow> (of_char x :: nat) < of_char y"
  by (simp add: word_less_nat_alt)

lemma memcmp_less:
  "(if memcmp (min (length a) (length b)) a b \<noteq> 0 then memcmp (min (length a) (length b)) a b < 0
    else length a < length b) \<longleftrightarrow> (map of_char a :: nat list) < map of_char b"
proof (induction a arbitrary: b)
  case Nil
  then show ?case by (cases b) auto
next
  case (Cons x a)
  show ?case
  proof (cases b)
    case (Cons y b')
    then show ?thesis using Cons.IH [of b'] by (auto simp: byte_less_iff split: if_splits)
  qed simp
qed

lemma memcmp_eq: "length a = length b \<Longrightarrow> memcmp (length a) a b = 0 \<longleftrightarrow> a = b"
  by (induction a b rule: list_induct2) (auto simp: byte_less_iff not_less dest: order_antisym)

definition zpair_of :: "zset \<Rightarrow> addr \<Rightarrow> zpair" where
  "zpair_of zs p = (case z_nodes zs p of None \<Rightarrow> (0, []) | Some z \<Rightarrow> (z_score z, z_name z))"

abbreviation zk :: "zset \<Rightarrow> addr \<Rightarrow> int \<times> nat list" where
  "zk zs p \<equiv> zkey (zpair_of zs p)"

lemma zpair_of_Some: "z_nodes zs p = Some z \<Longrightarrow> zpair_of zs p = (z_score z, z_name z)"
  by (simp add: zpair_of_def)

lemma zless_key_eq:
  assumes "z_nodes zs p = Some z" and "\<not> is_nan (z_score z)" and "\<not> is_nan score"
  shows "zless_key zs p score name = Some (zk zs p < zkey (score, name))"
  using assms memcmp_less [of "z_name z" name]
  by (auto simp: zless_key_def zpair_of_def zkey_def less_prod_def' Let_def)

lemma zless_eq:
  assumes "z_nodes zs p = Some z" "\<not> is_nan (z_score z)" and "z_nodes zs q = Some w" "\<not> is_nan (z_score w)"
  shows "zless zs p q = Some (zk zs p < zk zs q)"
  using assms zless_key_eq [OF assms(1,2,4), of "z_name w"] by (simp add: zless_def zpair_of_Some)

subsection \<open>The tree part\<close>

text \<open>The tree over the store, ordered by (score, name).\<close>

definition tree_ok :: "zset \<Rightarrow> addr tree \<Rightarrow> bool" where
  "tree_ok zs t \<longleftrightarrow> represents (z_tree zs) (z_root zs) t \<and> avl t \<and>
     sorted_wrt (\<lambda>p q. zk zs p < zk zs q) (inorder t) \<and>
     (\<forall>p \<in> set_tree t. \<exists>z. z_nodes zs p = Some z \<and> \<not> is_nan (z_score z))"

lemma tree_walk_ok:
  assumes node: "z_nodes zs node = Some z" "\<not> is_nan (z_score z)"
    and num: "\<And>p. p \<in> set_tree s \<Longrightarrow> \<exists>z. z_nodes zs p = Some z \<and> \<not> is_nan (z_score z)"
    and lk: "links (z_tree zs) (path_par c) cur s"
    and sorted: "sorted_wrt (\<lambda>p q. zk zs p < zk zs q) (inorder s)"
    and bf: "\<forall>x \<in> set (before c). zk zs x \<le> zk zs node"
    and af: "\<forall>x \<in> set (after c). zk zs node < zk zs x"
  shows "\<exists>c'. tree_walk zs node (path_par c) (path_slot c) cur = Some (path_par c', path_slot c') \<and>
    plug c' Leaf = plug c s \<and> (\<forall>x \<in> set (before c'). zk zs x \<le> zk zs node) \<and>
    (\<forall>x \<in> set (after c'). zk zs node < zk zs x)"
  using num lk sorted bf af
proof (induction s arbitrary: c cur)
  case Leaf
  then show ?case by (intro exI [of _ c]) (simp add: tree_walk.simps)
next
  case (Node l p r)
  from Node.prems(2) obtain n where n: "cur = Some p" "z_tree zs p = Some n" "links (z_tree zs) (Some p) (a_left n) l"
    "links (z_tree zs) (Some p) (a_right n) r" by auto
  from Node.prems(1) obtain w where w: "z_nodes zs p = Some w" "\<not> is_nan (z_score w)" by auto
  from zless_eq [OF node w] have lt: "zless zs node p = Some (zk zs node < zk zs p)" .
  from Node.prems(3) have so: "sorted_wrt (\<lambda>p q. zk zs p < zk zs q) (inorder l)"
    "sorted_wrt (\<lambda>p q. zk zs p < zk zs q) (inorder r)"
    "\<forall>x \<in> set_tree l. zk zs x < zk zs p" "\<forall>x \<in> set_tree r. zk zs p < zk zs x"
    by (auto simp: sorted_wrt_append)
  show ?case
  proof (cases "zk zs node < zk zs p")
    case True
    have "\<exists>c'. tree_walk zs node (path_par (LF p r # c)) (path_slot (LF p r # c)) (a_left n) = Some (path_par c', path_slot c') \<and>
      plug c' Leaf = plug (LF p r # c) l \<and> (\<forall>x \<in> set (before c'). zk zs x \<le> zk zs node) \<and>
      (\<forall>x \<in> set (after c'). zk zs node < zk zs x)"
      using Node.prems so True n(3) by (intro Node.IH(1)) (auto intro: order.strict_trans)
    then show ?thesis using True n lt by (subst tree_walk.simps) simp
  next
    case False
    have "\<exists>c'. tree_walk zs node (path_par (RF l p # c)) (path_slot (RF l p # c)) (a_right n) = Some (path_par c', path_slot c') \<and>
      plug c' Leaf = plug (RF l p # c) r \<and> (\<forall>x \<in> set (before c'). zk zs x \<le> zk zs node) \<and>
      (\<forall>x \<in> set (after c'). zk zs node < zk zs x)"
      using Node.prems so False n(4)
      by (intro Node.IH(2)) (auto simp: not_less intro: order.strict_implies_order order.strict_trans2 order.trans)
    then show ?thesis using False n lt by (subst tree_walk.simps) simp
  qed
qed

lemma represents_dom: "represents h root t \<Longrightarrow> set_tree t \<subseteq> dom h"
  using links_dom by (fastforce simp: represents_def)

lemma dom_frame:
  assumes "frame_off S h h'" and "S \<subseteq> dom h" and "S \<subseteq> dom h'"
  shows "dom h' = dom h"
proof (rule set_eqI)
  fix x show "x \<in> dom h' \<longleftrightarrow> x \<in> dom h"
    using assms frame_offD [OF assms(1), of x] by (cases "x \<in> S") (blast, simp add: domIff)
qed

lemma tree_insert_ok:
  assumes ok: "tree_ok zs t" and node: "z_nodes zs p = Some z" "\<not> is_nan (z_score z)"
    and p: "z_tree zs p = Some avl_blank" "p \<notin> set_tree t" and sz: "size t + 1 < 2 ^ 31"
    and new: "zk zs p \<notin> zk zs ` set_tree t"
  shows "\<exists>h x t' xs ys. tree_insert zs p = Some (zs\<lparr>z_tree := h, z_root := Some x\<rparr>) \<and>
    tree_ok (zs\<lparr>z_tree := h, z_root := Some x\<rparr>) t' \<and> dom h = dom (z_tree zs) \<and>
    inorder t = xs @ ys \<and> inorder t' = xs @ p # ys \<and>
    (\<forall>x \<in> set xs. zk zs x < zk zs p) \<and> (\<forall>x \<in> set ys. zk zs p < zk zs x)"
proof -
  from ok have rep: "represents (z_tree zs) (z_root zs) t" and avl: "avl t"
    and so: "sorted_wrt (\<lambda>p q. zk zs p < zk zs q) (inorder t)"
    and num: "\<And>p. p \<in> set_tree t \<Longrightarrow> \<exists>z. z_nodes zs p = Some z \<and> \<not> is_nan (z_score z)"
    by (auto simp: tree_ok_def)
  have "links (z_tree zs) (path_par []) (z_root zs) t" using rep by (simp add: represents_def)
  from tree_walk_ok [OF node num this so] obtain c where c: "tree_walk zs p None Local (z_root zs) = Some (path_par c, path_slot c)"
    "plug c Leaf = t" "\<forall>x \<in> set (before c). zk zs x \<le> zk zs p" "\<forall>x \<in> set (after c). zk zs p < zk zs x"
    by auto
  have io: "inorder t = before c @ after c" using inorder_plug [of c Leaf] c(2) by simp
  have bf: "\<forall>x \<in> set (before c). zk zs x < zk zs p"
  proof
    fix x assume x: "x \<in> set (before c)"
    then have "x \<in> set_tree t" using io set_inorder [of t] by auto
    then have "zk zs x \<noteq> zk zs p" using new by (metis image_eqI)
    then show "zk zs x < zk zs p" using c(3) x by (simp add: order.not_eq_order_implies_strict)
  qed
  have pa: "path_addrs c = set_tree t" using set_tree_plug [of c Leaf] c(2) by simp
  from avl_link_refines [of "z_tree zs" "z_root zs" c p] rep p sz c(2) pa obtain h1 h2 h3 x where
    h: "store_slot (z_tree zs) (path_slot c) (Some p) = Some h1" "set_parent h1 p (path_par c) = Some h2"
    "avl_fix h2 p = Some (h3, x)" "represents h3 (Some x) (fix_up c (Node Leaf p Leaf))"
    "frame_off (insert p (set_tree t)) (z_tree zs) h3" by auto
  let ?t = "fix_up c (Node Leaf p Leaf)"
  have io': "inorder ?t = before c @ p # after c" by (simp add: inorder_fix_up)
  then have set': "set_tree ?t = insert p (set_tree t)" using io by (metis Un_insert_right list.simps(15) set_append set_inorder)
  have "avl ?t" using avl c(2) by (intro fix_up_avl [of _ _ 0]) (auto simp: avl_plug)
  moreover have "sorted_wrt (\<lambda>p q. zk zs p < zk zs q) (inorder ?t)"
    using so bf c(4) unfolding io' io by (auto simp: sorted_wrt_append)
  moreover have "zpair_of (zs\<lparr>z_tree := h3, z_root := Some x\<rparr>) = zpair_of zs" by (simp add: zpair_of_def fun_eq_iff)
  ultimately have "tree_ok (zs\<lparr>z_tree := h3, z_root := Some x\<rparr>) ?t"
    using h(4) num node set' by (auto simp: tree_ok_def)
  moreover have "dom h3 = dom (z_tree zs)"
    using represents_dom [OF rep] represents_dom [OF h(4)] p(1) set' by (intro dom_frame [OF h(5)]) auto
  moreover have "tree_insert zs p = Some (zs\<lparr>z_tree := h3, z_root := Some x\<rparr>)"
    using c(1) h by (simp add: tree_insert_def)
  ultimately show ?thesis using io io' bf c(4) by blast
qed

lemma tree_del_ok:
  assumes ok: "tree_ok zs t" and p: "p \<in> set_tree t"
  shows "\<exists>h root t'. avl_del (z_tree zs) p = Some (h, root) \<and> represents h root t' \<and> avl t' \<and>
    inorder t' = remove1 p (inorder t) \<and> set_tree t' = set_tree t - {p} \<and> dom h = dom (z_tree zs) \<and> p \<in> dom h \<and>
    sorted_wrt (\<lambda>p q. zk zs p < zk zs q) (inorder t')"
proof -
  from ok have rep: "represents (z_tree zs) (z_root zs) t" and avl: "avl t"
    and so: "sorted_wrt (\<lambda>p q. zk zs p < zk zs q) (inorder t)" by (auto simp: tree_ok_def)
  from avl_del_refines [OF rep p] avl obtain h root t' where d: "avl_del (z_tree zs) p = Some (h, root)"
    "represents h root t'" "avl t'" "inorder t' = remove1 p (inorder t)" "frame_off (set_tree t) (z_tree zs) h" "h p \<noteq> None"
    unfolding del_result_def by blast
  have di: "distinct (inorder t)" using rep by (simp add: represents_def)
  have set': "set_tree t' = set_tree t - {p}"
    using d(4) di by (metis set_inorder set_remove1_eq)
  have "set_tree t \<subseteq> dom h" using represents_dom [OF d(2)] set' d(6) by auto
  then have "dom h = dom (z_tree zs)" using represents_dom [OF rep] by (intro dom_frame [OF d(5)]) auto
  moreover have "sorted_wrt (\<lambda>p q. zk zs p < zk zs q) (inorder t')"
    using so d(4) di by (simp add: distinct_remove1_removeAll removeAll_filter_not_eq sorted_wrt_filter)
  moreover have "p \<in> dom h" using d(6) by blast
  ultimately show ?thesis using d set' by blast
qed

subsection \<open>Well-formed sorted sets\<close>

definition znames :: "zset \<Rightarrow> addr \<rightharpoonup> string" where
  "znames zs p = map_option z_name (z_nodes zs p)"

definition zset_ok :: "zset \<Rightarrow> addr tree \<Rightarrow> bool" where
  "zset_ok zs t \<longleftrightarrow> tree_ok zs t \<and> set_tree t = dom (z_nodes zs) \<and> dom (z_tree zs) = dom (z_nodes zs) \<and>
     hm_inv (z_hmap zs) \<and> keyed_by (hm_mset (z_hmap zs)) (znames zs) \<and>
     (\<forall>p z. z_nodes zs p = Some z \<longrightarrow> z_hcode z = str_hash (z_name z)) \<and>
     (\<forall>p \<in> dom (z_nodes zs). p < z_fresh zs)"

definition zset_view :: "zset \<Rightarrow> zpair list \<Rightarrow> bool" where
  "zset_view zs L \<longleftrightarrow> (\<exists>t. zset_ok zs t \<and> L = map (zpair_of zs) (inorder t))"

text \<open>The specification: operations on the ordered list of pairs.\<close>

definition zscore_of :: "zpair list \<Rightarrow> string \<rightharpoonup> dbl" where
  "zscore_of L = map_of (map (\<lambda>x. (snd x, fst x)) L)"

definition zrem_spec :: "string \<Rightarrow> zpair list \<Rightarrow> zpair list" where
  "zrem_spec name L = filter (\<lambda>x. snd x \<noteq> name) L"

definition zins_spec :: "zpair \<Rightarrow> zpair list \<Rightarrow> zpair list" where
  "zins_spec x L = filter (\<lambda>y. zkey y < zkey x) L @ x # filter (\<lambda>y. zkey x < zkey y) L"

definition zadd_spec :: "string \<Rightarrow> dbl \<Rightarrow> zpair list \<Rightarrow> zpair list" where
  "zadd_spec name s L =
     (case zscore_of L name of None \<Rightarrow> zins_spec (s, name) L
      | Some old \<Rightarrow> if dbl_eq old s then L else zins_spec (s, name) (zrem_spec name L))"

lemma zins_spec_eq:
  "\<forall>y \<in> set A. zkey y < zkey x \<Longrightarrow> \<forall>y \<in> set B. zkey x < zkey y \<Longrightarrow> zins_spec x (A @ B) = A @ x # B"
proof -
  assume A: "\<forall>y \<in> set A. zkey y < zkey x" and B: "\<forall>y \<in> set B. zkey x < zkey y"
  then have "filter (\<lambda>y. zkey y < zkey x) B = []" "filter (\<lambda>y. zkey x < zkey y) A = []"
    by (auto simp: filter_empty_conv dest!: bspec dest: order.asym)
  with A B show ?thesis by (simp add: zins_spec_def)
qed

lemma dom_znames [simp]: "dom (znames zs) = dom (z_nodes zs)"
  by (auto simp: znames_def)

lemma znames_upd [simp]:
  "znames (zs\<lparr>z_hmap := m\<rparr>) = znames zs" "znames (zs\<lparr>z_tree := h\<rparr>) = znames zs" "znames (zs\<lparr>z_root := r\<rparr>) = znames zs"
  "znames (zs\<lparr>z_fresh := n\<rparr>) = znames zs" "znames (zs\<lparr>z_nodes := f\<rparr>) = (\<lambda>p. map_option z_name (f p))"
  by (simp_all add: znames_def fun_eq_iff)

lemma zpair_of_upd [simp]:
  "zpair_of (zs\<lparr>z_hmap := m\<rparr>) = zpair_of zs" "zpair_of (zs\<lparr>z_tree := h\<rparr>) = zpair_of zs"
  "zpair_of (zs\<lparr>z_root := r\<rparr>) = zpair_of zs" "zpair_of (zs\<lparr>z_fresh := n\<rparr>) = zpair_of zs"
  by (simp_all add: zpair_of_def fun_eq_iff)

lemma tree_ok_upd [simp]:
  "tree_ok (zs\<lparr>z_hmap := m\<rparr>) t = tree_ok zs t" "tree_ok (zs\<lparr>z_fresh := n\<rparr>) t = tree_ok zs t"
  by (simp_all add: tree_ok_def)

lemma zset_ok_node:
  assumes "zset_ok zs t" and "z_nodes zs p = Some z"
  shows "p \<in> set_tree t" "\<not> is_nan (z_score z)" "z_hcode z = str_hash (z_name z)" "p < z_fresh zs"
    "znames zs p = Some (z_name z)" "z_tree zs p \<noteq> None"
proof -
  show p: "p \<in> set_tree t" using assms by (auto simp: zset_ok_def)
  from assms(1) p obtain z' where "z_nodes zs p = Some z'" "\<not> is_nan (z_score z')"
    unfolding zset_ok_def tree_ok_def by blast
  with assms(2) show "\<not> is_nan (z_score z)" by simp
qed (use assms in \<open>auto simp: zset_ok_def znames_def\<close>)

lemma zset_ok_names:
  assumes "zset_ok zs t" and "znames zs p = Some n" and "znames zs q = Some n"
  shows "p = q"
  using assms keyed_by_unique unfolding zset_ok_def by blast

lemma zset_ok_card: "zset_ok zs t \<Longrightarrow> card (dom (z_nodes zs)) = size t \<and> finite (dom (z_nodes zs)) \<and> size t < 2 ^ 31"
  by (metis distinct_card finite_set length_inorder set_inorder represents_def tree_ok_def zset_ok_def)

lemma hcmp_compares: "compares (znames zs) name (hcmp zs name)"
  unfolding compares_def
proof (intro allI impI)
  fix p k assume "znames zs p = Some k"
  then obtain z where "z_nodes zs p = Some z" "z_name z = k" by (auto simp: znames_def)
  then show "hcmp zs name p = Some (k = name)" using memcmp_eq [of k name] by (auto simp: hcmp_def)
qed

lemma tree_ok_cong:
  assumes "tree_ok zs t" and "agree_on (set_tree t) (z_tree zs) (z_tree zs')" and "z_root zs' = z_root zs"
    and "\<And>p. p \<in> set_tree t \<Longrightarrow> z_nodes zs' p = z_nodes zs p"
  shows "tree_ok zs' t"
proof -
  have same: "zpair_of zs' p = zpair_of zs p" if "p \<in> set_tree t" for p using assms(4) [OF that] by (simp add: zpair_of_def)
  from assms(1) have "sorted_wrt (\<lambda>p q. zk zs p < zk zs q) (inorder t)" by (simp add: tree_ok_def)
  then have "sorted_wrt (\<lambda>p q. zk zs' p < zk zs' q) (inorder t)"
    by (rule sorted_wrt_mono_rel [rotated]) (simp add: same)
  moreover have "represents (z_tree zs') (z_root zs') t"
    using assms(1,3) by (simp add: tree_ok_def represents_def links_cong [OF assms(2)] aggs_cong [OF assms(2)])
  moreover have "\<exists>z. z_nodes zs' p = Some z \<and> \<not> is_nan (z_score z)" if "p \<in> set_tree t" for p
    using assms(1) that assms(4) [OF that] unfolding tree_ok_def by simp
  ultimately show ?thesis using assms(1) by (simp add: tree_ok_def)
qed

lemma zset_lookup_ok:
  assumes ok: "zset_ok zs t"
  shows "\<exists>m r. zset_lookup zs name = Some (zs\<lparr>z_hmap := m\<rparr>, r) \<and> zset_ok (zs\<lparr>z_hmap := m\<rparr>) t \<and>
    (\<forall>p. r = Some p \<longleftrightarrow> znames zs p = Some name)"
proof (cases "z_root zs = None")
  case True
  then have "t = Leaf" using ok links_root [of "z_tree zs" None "z_root zs" t]
    by (auto simp: zset_ok_def tree_ok_def represents_def split: tree.splits)
  then have "dom (z_nodes zs) = {}" using ok by (simp add: zset_ok_def)
  then have "znames zs p = None" for p by (auto simp: znames_def)
  with True ok show ?thesis by (intro exI [of _ "z_hmap zs"]) (simp add: zset_lookup_def)
next
  case False
  from ok have inv: "hm_inv (z_hmap zs)" "keyed_by (hm_mset (z_hmap zs)) (znames zs)" by (auto simp: zset_ok_def)
  from hm.lookup_key [OF inv hcmp_compares] obtain m r where m: "hm_lookup (z_hmap zs) (str_hash name) (hcmp zs name) = Some (m, r)"
    "hm_inv m" "hm_mset m = hm_mset (z_hmap zs)" "\<forall>p. r = Some p \<longleftrightarrow> znames zs p = Some name" by blast
  from ok m(2,3) have "zset_ok (zs\<lparr>z_hmap := m\<rparr>) t" unfolding zset_ok_def by simp
  with m False show ?thesis by (auto simp: zset_lookup_def)
qed

lemma map_of_char_inj: "map (of_char :: char \<Rightarrow> nat) xs = map of_char ys \<longleftrightarrow> xs = ys"
  by (simp add: inj_map_eq_map inj_on_def)

lemma zkey_names: "zkey x = zkey y \<Longrightarrow> snd x = snd y"
  by (auto simp: zkey_def map_of_char_inj)

lemma zset_ok_keys_distinct:
  assumes "zset_ok zs t" and "p \<in> set_tree t" and "q \<noteq> p" and "z_nodes zs q = Some w"
  shows "snd (zpair_of zs p) \<noteq> z_name w"
proof -
  from assms obtain z where "z_nodes zs p = Some z" by (auto simp: zset_ok_def)
  with assms zset_ok_names [OF assms(1), of p "z_name w" q] show ?thesis
    by (auto simp: zpair_of_def znames_def)
qed

lemma zset_okI:
  assumes "tree_ok zs t" and "set_tree t = dom (z_nodes zs)" and "dom (z_tree zs) = dom (z_nodes zs)"
    and "hm_inv (z_hmap zs)" and "keyed_by (hm_mset (z_hmap zs)) (znames zs)"
    and "\<And>p z. z_nodes zs p = Some z \<Longrightarrow> z_hcode z = str_hash (z_name z) \<and> p < z_fresh zs"
  shows "zset_ok zs t"
  using assms unfolding zset_ok_def by blast

lemma zset_okD:
  assumes "zset_ok zs t"
  shows "tree_ok zs t" "set_tree t = dom (z_nodes zs)" "dom (z_tree zs) = dom (z_nodes zs)"
    "hm_inv (z_hmap zs)" "keyed_by (hm_mset (z_hmap zs)) (znames zs)"
    "represents (z_tree zs) (z_root zs) t" "distinct (inorder t)"
  using assms unfolding zset_ok_def tree_ok_def represents_def by blast+

text \<open>The list after \<open>tree_insert\<close>.\<close>

lemma view_insert:
  assumes "inorder t = xs @ ys" and "inorder t' = xs @ p # ys"
    and "\<forall>x \<in> set xs. zk zs x < zk zs p" and "\<forall>x \<in> set ys. zk zs p < zk zs x"
  shows "map (zpair_of zs) (inorder t') = zins_spec (zpair_of zs p) (map (zpair_of zs) (inorder t))"
  using zins_spec_eq [of "map (zpair_of zs) xs" "zpair_of zs p" "map (zpair_of zs) ys"] assms by simp

lemma zk_fresh:
  assumes "\<And>q. q \<in> S \<Longrightarrow> snd (zpair_of zs q) \<noteq> snd (zpair_of zs p)"
  shows "zk zs p \<notin> zk zs ` S"
proof
  assume "zk zs p \<in> zk zs ` S"
  then obtain q where "q \<in> S" "zk zs p = zk zs q" by (rule imageE)
  with assms [of q] zkey_names [of "zpair_of zs p" "zpair_of zs q"] show False by simp
qed

lemma zset_ok_fresh_name:
  assumes "zset_ok zs t" and "q \<in> set_tree t" and "name \<notin> ran (znames zs)"
  shows "snd (zpair_of zs q) \<noteq> name"
proof -
  from assms(1,2) zset_okD(2) obtain w where "z_nodes zs q = Some w" by blast
  then show ?thesis using assms(3) by (auto simp: zpair_of_def znames_def ran_def)
qed

lemma zset_add_ok:
  assumes ok: "zset_ok zs t" and fresh: "name \<notin> ran (znames zs)" and num: "\<not> is_nan score" and sz: "size t + 1 < 2 ^ 31"
  shows "\<exists>zs' t'. zset_add zs name score = Some zs' \<and> zset_ok zs' t' \<and>
    map (zpair_of zs') (inorder t') = zins_spec (score, name) (map (zpair_of zs) (inorder t))"
proof -
  note ok' = zset_okD [OF ok]
  let ?p = "z_fresh zs"
  let ?z = "\<lparr>z_score = score, z_name = name, z_hcode = str_hash name\<rparr>"
  have p: "z_nodes zs ?p = None"
    using zset_ok_node(4) [OF ok, of ?p] by (cases "z_nodes zs ?p") auto
  then have pt: "?p \<notin> set_tree t" using ok'(2) by auto
  have "znames zs ?p = None" using p by (simp add: znames_def)
  moreover have "card (dom (znames zs)) < 2 ^ 60" using zset_ok_card [OF ok] by simp
  ultimately obtain m where m: "hm_insert (z_hmap zs) \<lparr>hcode = str_hash name, owner = ?p\<rparr> = Some m" "hm_inv m"
    "keyed_by (hm_mset m) ((znames zs)(?p \<mapsto> name))"
    using hm.ins_key [OF ok'(4,5) _ fresh] by blast
  define zs1 where "zs1 = zs\<lparr>z_fresh := ?p + 1, z_tree := (z_tree zs)(?p \<mapsto> avl_blank),
    z_nodes := (z_nodes zs)(?p \<mapsto> ?z), z_hmap := m\<rparr>"
  have sel: "z_nodes zs1 = (z_nodes zs)(?p \<mapsto> ?z)" "z_tree zs1 = (z_tree zs)(?p \<mapsto> avl_blank)" "z_root zs1 = z_root zs"
    "z_fresh zs1 = ?p + 1" "z_hmap zs1 = m" "znames zs1 = (znames zs)(?p \<mapsto> name)"
    by (simp_all add: zs1_def znames_def fun_eq_iff)
  have ag: "zpair_of zs1 q = zpair_of zs q" if "q \<in> set_tree t" for q
    using that pt sel(1) by (auto simp: zpair_of_def)
  have zp: "zpair_of zs1 ?p = (score, name)" by (simp add: zpair_of_def sel(1))
  have t1: "tree_ok zs1 t"
    using ok'(1) pt sel by (intro tree_ok_cong [of zs t zs1]) (auto simp: agree_on_def)
  have "snd (zpair_of zs1 q) \<noteq> name" if "q \<in> set_tree t" for q
    using zset_ok_fresh_name [OF ok that fresh] ag [OF that] by simp
  then have new: "zk zs1 ?p \<notin> zk zs1 ` set_tree t" using zp by (intro zk_fresh) simp
  from tree_insert_ok [OF t1 _ _ _ pt sz new, of ?z] num sel(1,2) obtain h x t' xs ys where ins:
    "tree_insert zs1 ?p = Some (zs1\<lparr>z_tree := h, z_root := Some x\<rparr>)"
    "tree_ok (zs1\<lparr>z_tree := h, z_root := Some x\<rparr>) t'" "dom h = dom (z_tree zs1)"
    "inorder t = xs @ ys" "inorder t' = xs @ ?p # ys"
    "\<forall>x \<in> set xs. zk zs1 x < zk zs1 ?p" "\<forall>x \<in> set ys. zk zs1 ?p < zk zs1 x"
    by auto
  let ?zs' = "zs1\<lparr>z_tree := h, z_root := Some x\<rparr>"
  have st: "set_tree t' = insert ?p (set_tree t)"
    using ins(4,5) by (metis Un_insert_right list.simps(15) set_append set_inorder)
  have "zset_ok ?zs' t'"
  proof (rule zset_okI)
    fix q z assume "z_nodes ?zs' q = Some z"
    then show "z_hcode z = str_hash (z_name z) \<and> q < z_fresh ?zs'"
      using zset_ok_node(3,4) [OF ok, of q z] sel(1,4) by (auto split: if_splits)
  qed (use ins(2,3) st ok'(2,3) sel m(2,3) in \<open>simp_all\<close>)
  moreover have "map (zpair_of ?zs') (inorder t') = zins_spec (score, name) (map (zpair_of zs) (inorder t))"
  proof -
    have eq: "map (zpair_of zs1) (inorder t) = map (zpair_of zs) (inorder t)" using ag by simp
    show ?thesis using view_insert [OF ins(4-7)] zp unfolding eq by simp
  qed
  ultimately show ?thesis
    using m(1) ins(1) by (intro exI [of _ ?zs'] exI [of _ t']) (simp add: zset_add_def znode_new_def Let_def zs1_def)
qed


lemma view_remove:
  assumes ok: "zset_ok zs t" and p: "z_nodes zs p = Some z"
  shows "map (zpair_of zs) (remove1 p (inorder t)) = zrem_spec (z_name z) (map (zpair_of zs) (inorder t))"
proof -
  have "q = p \<longleftrightarrow> snd (zpair_of zs q) = z_name z" if q: "q \<in> set (inorder t)" for q
    using zset_ok_keys_distinct [OF ok _ _ p, of q] q p by (auto simp: zpair_of_Some)
  then have "filter (\<lambda>q. q \<noteq> p) (inorder t) = filter (\<lambda>q. snd (zpair_of zs q) \<noteq> z_name z) (inorder t)"
    by (intro filter_cong) auto
  moreover have "remove1 p (inorder t) = filter (\<lambda>q. q \<noteq> p) (inorder t)"
    using zset_okD(7) [OF ok] by (simp add: distinct_remove1_removeAll removeAll_filter_not_eq eq_commute)
  ultimately show ?thesis by (simp add: zrem_spec_def filter_map comp_def)
qed

lemma size_remove:
  assumes "represents h root t" and "p \<in> set_tree t" and "inorder t' = remove1 p (inorder t)"
  shows "Suc (size t') = size t"
proof -
  have "p \<in> set (inorder t)" using assms(2) by simp
  then have "length (inorder t') = length (inorder t) - 1" "0 < length (inorder t)"
    using assms(3) length_pos_if_in_set [of p "inorder t"] by (auto simp: length_remove1)
  then show ?thesis by simp
qed

lemma zset_update_ok:
  assumes ok: "zset_ok zs t" and p: "z_nodes zs p = Some z" and num: "\<not> is_nan score"
  shows "\<exists>zs' t'. zset_update zs p score = Some zs' \<and> zset_ok zs' t' \<and>
    map (zpair_of zs') (inorder t') =
      (let L = map (zpair_of zs) (inorder t) in
       if dbl_eq (z_score z) score then L else zins_spec (score, z_name z) (zrem_spec (z_name z) L))"
proof (cases "dbl_eq (z_score z) score")
  case True
  then show ?thesis using ok p by (intro exI [of _ zs] exI [of _ t]) (simp add: zset_update_def)
next
  case False
  note ok' = zset_okD [OF ok] and pn = zset_ok_node [OF ok p]
  from tree_del_ok [OF ok'(1) pn(1)] obtain h root u where d: "avl_del (z_tree zs) p = Some (h, root)"
    "represents h root u" "avl u" "inorder u = remove1 p (inorder t)" "set_tree u = set_tree t - {p}"
    "dom h = dom (z_tree zs)" "p \<in> dom h" "sorted_wrt (\<lambda>p q. zk zs p < zk zs q) (inorder u)" by blast
  let ?z = "z\<lparr>z_score := score\<rparr>"
  define zs1 where "zs1 = zs\<lparr>z_tree := h(p \<mapsto> avl_blank), z_root := root, z_nodes := (z_nodes zs)(p \<mapsto> ?z)\<rparr>"
  have sel: "z_nodes zs1 = (z_nodes zs)(p \<mapsto> ?z)" "z_tree zs1 = h(p \<mapsto> avl_blank)" "z_root zs1 = root"
    "z_fresh zs1 = z_fresh zs" "z_hmap zs1 = z_hmap zs" "znames zs1 = znames zs"
    using p by (auto simp: zs1_def znames_def fun_eq_iff)
  have ag: "zpair_of zs1 q = zpair_of zs q" if "q \<in> set_tree u" for q
    using that d(5) sel(1) by (auto simp: zpair_of_def)
  have zp: "zpair_of zs1 p = (score, z_name z)" by (simp add: zpair_of_def sel(1))
  have num': "\<And>q. q \<in> set_tree u \<Longrightarrow> \<exists>z. z_nodes zs q = Some z \<and> \<not> is_nan (z_score z)"
    using ok'(1) d(5) unfolding tree_ok_def by blast
  have "tree_ok (zs\<lparr>z_tree := h, z_root := root\<rparr>) u"
    unfolding tree_ok_def using d(2,3,8) num' by simp
  then have t1: "tree_ok zs1 u"
    by (rule tree_ok_cong) (use d(5) sel in \<open>auto simp: agree_on_def\<close>)
  have pu: "p \<notin> set_tree u" using d(5) by simp
  have "snd (zpair_of zs1 q) \<noteq> z_name z" if q: "q \<in> set_tree u" for q
    using zset_ok_keys_distinct [OF ok _ _ p, of q] q d(5) ag [OF q] by auto
  then have new: "zk zs1 p \<notin> zk zs1 ` set_tree u" using zp by (intro zk_fresh) simp
  have sz: "size u + 1 < 2 ^ 31" using size_remove [OF ok'(6) pn(1) d(4)] zset_ok_card [OF ok] by simp
  from tree_insert_ok [OF t1 _ _ _ pu sz new, of ?z] num sel(1,2) obtain h2 x t' xs ys where ins:
    "tree_insert zs1 p = Some (zs1\<lparr>z_tree := h2, z_root := Some x\<rparr>)"
    "tree_ok (zs1\<lparr>z_tree := h2, z_root := Some x\<rparr>) t'" "dom h2 = dom (z_tree zs1)"
    "inorder u = xs @ ys" "inorder t' = xs @ p # ys"
    "\<forall>x \<in> set xs. zk zs1 x < zk zs1 p" "\<forall>x \<in> set ys. zk zs1 p < zk zs1 x"
    by auto
  let ?zs' = "zs1\<lparr>z_tree := h2, z_root := Some x\<rparr>"
  have st: "set_tree t' = set_tree t"
    using ins(4,5) d(5) pn(1) by (metis Un_insert_right insert_Diff list.simps(15) set_append set_inorder)
  have "zset_ok ?zs' t'"
  proof (rule zset_okI)
    fix q w assume "z_nodes ?zs' q = Some w"
    then show "z_hcode w = str_hash (z_name w) \<and> q < z_fresh ?zs'"
      using zset_ok_node(3,4) [OF ok, of q] pn(3,4) sel(1,4) by (auto split: if_splits)
  qed (use ins(2,3) st ok' sel d(6) p in \<open>auto\<close>)
  moreover have "map (zpair_of ?zs') (inorder t') = zins_spec (score, z_name z) (zrem_spec (z_name z) (map (zpair_of zs) (inorder t)))"
  proof -
    have eq: "map (zpair_of zs1) (inorder u) = map (zpair_of zs) (inorder u)" using ag by simp
    show ?thesis using view_insert [OF ins(4-7)] zp view_remove [OF ok p] unfolding eq unfolding d(4) by simp
  qed
  moreover have "avl_init h p = Some (h(p \<mapsto> avl_blank))" using d(7) by (auto simp: avl_init_def upd_node_def)
  ultimately show ?thesis
    using p False d(1) ins(1) by (intro exI [of _ ?zs'] exI [of _ t']) (simp add: zset_update_def zs1_def)
qed

lemma zset_delete_ok:
  assumes ok: "zset_ok zs t" and p: "z_nodes zs p = Some z"
  shows "\<exists>zs' t'. zset_delete zs p = Some zs' \<and> zset_ok zs' t' \<and>
    map (zpair_of zs') (inorder t') = zrem_spec (z_name z) (map (zpair_of zs) (inorder t))"
proof -
  note ok' = zset_okD [OF ok] and pn = zset_ok_node [OF ok p]
  from hm.del_key [OF ok'(4,5) hcmp_compares pn(5)] obtain m where m:
    "hm_delete (z_hmap zs) (str_hash (z_name z)) (hcmp zs (z_name z)) = Some (m, Some p)" "hm_inv m"
    "keyed_by (hm_mset m) ((znames zs)(p := None))" by blast
  from tree_del_ok [OF ok'(1) pn(1)] obtain h root u where d: "avl_del (z_tree zs) p = Some (h, root)"
    "represents h root u" "avl u" "inorder u = remove1 p (inorder t)" "set_tree u = set_tree t - {p}"
    "dom h = dom (z_tree zs)" "p \<in> dom h" "sorted_wrt (\<lambda>p q. zk zs p < zk zs q) (inorder u)" by blast
  define zs1 where "zs1 = zs\<lparr>z_hmap := m, z_root := root, z_tree := h(p := None), z_nodes := (z_nodes zs)(p := None)\<rparr>"
  have sel: "z_nodes zs1 = (z_nodes zs)(p := None)" "z_tree zs1 = h(p := None)" "z_root zs1 = root"
    "z_fresh zs1 = z_fresh zs" "z_hmap zs1 = m" "znames zs1 = (znames zs)(p := None)"
    by (auto simp: zs1_def znames_def fun_eq_iff)
  have ag: "zpair_of zs1 q = zpair_of zs q" if "q \<in> set_tree u" for q
    using that d(5) sel(1) by (auto simp: zpair_of_def)
  have num': "\<And>q. q \<in> set_tree u \<Longrightarrow> \<exists>z. z_nodes zs q = Some z \<and> \<not> is_nan (z_score z)"
    using ok'(1) d(5) unfolding tree_ok_def by blast
  have "tree_ok (zs\<lparr>z_tree := h, z_root := root\<rparr>) u"
    unfolding tree_ok_def using d(2,3,8) num' by simp
  then have t1: "tree_ok zs1 u"
    by (rule tree_ok_cong) (use d(5) sel in \<open>auto simp: agree_on_def\<close>)
  have "zset_ok zs1 u"
  proof (rule zset_okI)
    fix q w assume "z_nodes zs1 q = Some w"
    then show "z_hcode w = str_hash (z_name w) \<and> q < z_fresh zs1"
      using zset_ok_node(3,4) [OF ok, of q] sel(1,4) by (auto split: if_splits)
  qed (use t1 ok' sel d(5,6) m in \<open>simp_all\<close>)
  moreover have "map (zpair_of zs1) (inorder u) = zrem_spec (z_name z) (map (zpair_of zs) (inorder t))"
  proof -
    have eq: "map (zpair_of zs1) (inorder u) = map (zpair_of zs) (inorder u)" using ag by simp
    show ?thesis unfolding eq unfolding d(4) by (rule view_remove [OF ok p])
  qed
  moreover have "zset_delete zs p = Some zs1"
    using p pn(3) m(1) d(1) by (simp add: zset_delete_def znode_del_def zs1_def domIff)
  ultimately show ?thesis by blast
qed

subsection \<open>The operations on the list\<close>

text \<open>The addresses of the pairs in order.\<close>

definition zset_rep :: "zset \<Rightarrow> addr list \<Rightarrow> bool" where
  "zset_rep zs ps \<longleftrightarrow> (\<exists>t. zset_ok zs t \<and> ps = inorder t)"

lemma zset_view_rep: "zset_view zs L \<longleftrightarrow> (\<exists>ps. zset_rep zs ps \<and> L = map (zpair_of zs) ps)"
  by (auto simp: zset_view_def zset_rep_def)

lemma zset_rep_facts:
  assumes "zset_rep zs ps"
  shows "distinct ps" "set ps = dom (z_nodes zs)" "length ps < 2 ^ 31"
    "sorted_wrt (\<lambda>p q. zk zs p < zk zs q) ps" "distinct (map (\<lambda>p. snd (zpair_of zs p)) ps)"
proof -
  from assms obtain t where t: "zset_ok zs t" "ps = inorder t" by (auto simp: zset_rep_def)
  note ok = zset_okD [OF t(1)]
  show "distinct ps" "set ps = dom (z_nodes zs)" "length ps < 2 ^ 31" using t(2) ok zset_ok_card [OF t(1)] by auto
  show "sorted_wrt (\<lambda>p q. zk zs p < zk zs q) ps" using ok(1) t(2) by (simp add: tree_ok_def)
  have "inj_on (\<lambda>p. snd (zpair_of zs p)) (set_tree t)"
  proof (rule inj_onI, rule ccontr)
    fix p q assume pq: "p \<in> set_tree t" "q \<in> set_tree t" "snd (zpair_of zs p) = snd (zpair_of zs q)" "p \<noteq> q"
    from pq(2) ok(2) obtain w where "z_nodes zs q = Some w" by auto
    with zset_ok_keys_distinct [OF t(1) pq(1) pq(4) [symmetric] this] pq(3) show False by (simp add: zpair_of_Some)
  qed
  then show "distinct (map (\<lambda>p. snd (zpair_of zs p)) ps)" using ok(7) t(2) by (simp add: distinct_map)
qed

lemma zscore_of_iff:
  assumes "zset_rep zs ps"
  shows "zscore_of (map (zpair_of zs) ps) name = Some s \<longleftrightarrow> (\<exists>p z. z_nodes zs p = Some z \<and> z_name z = name \<and> z_score z = s)"
proof -
  note f = zset_rep_facts [OF assms]
  have "distinct (map fst (map (\<lambda>x. (snd x, fst x)) (map (zpair_of zs) ps)))"
    using f(5) by (simp add: comp_def)
  from map_of_eq_Some_iff [OF this, of name s] have "zscore_of (map (zpair_of zs) ps) name = Some s \<longleftrightarrow>
      (name, s) \<in> (\<lambda>x. (snd x, fst x)) ` zpair_of zs ` set ps"
    by (simp only: zscore_of_def set_map)
  also have "\<dots> \<longleftrightarrow> (\<exists>p \<in> set ps. zpair_of zs p = (s, name))" by (auto simp: image_iff) (metis fst_conv snd_conv)
  also have "\<dots> \<longleftrightarrow> (\<exists>p z. z_nodes zs p = Some z \<and> z_name z = name \<and> z_score z = s)"
  proof
    assume "\<exists>p \<in> set ps. zpair_of zs p = (s, name)"
    then obtain p z where "z_nodes zs p = Some z" "zpair_of zs p = (s, name)" using f(2) by auto
    then show "\<exists>p z. z_nodes zs p = Some z \<and> z_name z = name \<and> z_score z = s" by (auto simp: zpair_of_Some)
  next
    assume "\<exists>p z. z_nodes zs p = Some z \<and> z_name z = name \<and> z_score z = s"
    then obtain p z where "z_nodes zs p = Some z" "z_name z = name" "z_score z = s" by blast
    moreover from this have "p \<in> set ps" using f(2) by blast
    ultimately show "\<exists>p \<in> set ps. zpair_of zs p = (s, name)" using zpair_of_Some [of zs p z] by blast
  qed
  finally show ?thesis .
qed

lemma zscore_of_None:
  assumes "zset_rep zs ps"
  shows "zscore_of (map (zpair_of zs) ps) name = None \<longleftrightarrow> name \<notin> ran (znames zs)"
proof -
  have "zscore_of (map (zpair_of zs) ps) name \<noteq> None \<longleftrightarrow> (\<exists>p z. z_nodes zs p = Some z \<and> z_name z = name)"
    using zscore_of_iff [OF assms, of name] by auto
  then show ?thesis by (auto simp: ran_def znames_def)
qed

lemma zset_lookup_view:
  assumes "zset_rep zs ps"
  shows "\<exists>zs' r. zset_lookup zs name = Some (zs', r) \<and> zset_rep zs' ps \<and> zpair_of zs' = zpair_of zs \<and>
    z_nodes zs' = z_nodes zs \<and>
    (case r of None \<Rightarrow> zscore_of (map (zpair_of zs) ps) name = None
     | Some p \<Rightarrow> \<exists>z. z_nodes zs p = Some z \<and> z_name z = name \<and> zscore_of (map (zpair_of zs) ps) name = Some (z_score z))"
proof -
  from assms obtain t where t: "zset_ok zs t" "ps = inorder t" by (auto simp: zset_rep_def)
  from zset_lookup_ok [OF t(1), of name] obtain m r where l: "zset_lookup zs name = Some (zs\<lparr>z_hmap := m\<rparr>, r)"
    "zset_ok (zs\<lparr>z_hmap := m\<rparr>) t" "\<forall>p. r = Some p \<longleftrightarrow> znames zs p = Some name" by blast
  have "case r of None \<Rightarrow> zscore_of (map (zpair_of zs) ps) name = None
     | Some p \<Rightarrow> \<exists>z. z_nodes zs p = Some z \<and> z_name z = name \<and> zscore_of (map (zpair_of zs) ps) name = Some (z_score z)"
  proof (cases r)
    case None
    with l(3) have "name \<notin> ran (znames zs)" by (auto simp: ran_def)
    with None zscore_of_None [OF assms] show ?thesis by simp
  next
    case (Some p)
    with l(3) obtain z where "z_nodes zs p = Some z" "z_name z = name" by (auto simp: znames_def)
    with Some zscore_of_iff [OF assms, of name "z_score z"] show ?thesis by auto
  qed
  moreover have "zset_rep (zs\<lparr>z_hmap := m\<rparr>) ps" using l(2) t(2) unfolding zset_rep_def by blast
  ultimately show ?thesis using l(1) by auto
qed

lemma zset_insert_view:
  assumes v: "zset_view zs L" and num: "\<not> is_nan score" and sz: "length L + 1 < 2 ^ 31"
  shows "\<exists>zs'. zset_insert zs name score = Some (zs', zscore_of L name = None) \<and> zset_view zs' (zadd_spec name score L)"
proof -
  from v obtain ps where ps: "zset_rep zs ps" "L = map (zpair_of zs) ps" by (auto simp: zset_view_rep)
  from zset_lookup_view [OF ps(1), of name] obtain zs1 r where l: "zset_lookup zs name = Some (zs1, r)"
    "zset_rep zs1 ps" "zpair_of zs1 = zpair_of zs" "z_nodes zs1 = z_nodes zs"
    "case r of None \<Rightarrow> zscore_of L name = None
     | Some p \<Rightarrow> \<exists>z. z_nodes zs p = Some z \<and> z_name z = name \<and> zscore_of L name = Some (z_score z)"
    unfolding ps(2) by blast
  from l(2) obtain t where t: "zset_ok zs1 t" "ps = inorder t" by (auto simp: zset_rep_def)
  have L: "L = map (zpair_of zs1) (inorder t)" using ps(2) t(2) l(3) by simp
  show ?thesis
  proof (cases r)
    case None
    then have none: "zscore_of L name = None" using l(5) by simp
    then have "name \<notin> ran (znames zs1)" using zscore_of_None [OF l(2), of name] ps(2) l(3) by simp
    moreover have "size t + 1 < 2 ^ 31" using sz ps(2) t(2) by simp
    ultimately obtain zs' t' where "zset_add zs1 name score = Some zs'" "zset_ok zs' t'"
      "map (zpair_of zs') (inorder t') = zins_spec (score, name) L"
      using zset_add_ok [OF t(1) _ num] L by metis
    then show ?thesis using l(1) None none unfolding zset_view_def zadd_spec_def by (auto simp: zset_insert_def)
  next
    case (Some p)
    then obtain z where z: "z_nodes zs1 p = Some z" "z_name z = name" "zscore_of L name = Some (z_score z)"
      using l(4,5) by auto
    from zset_update_ok [OF t(1) z(1) num] L z(2) obtain zs' t' where "zset_update zs1 p score = Some zs'" "zset_ok zs' t'"
      "map (zpair_of zs') (inorder t') = (if dbl_eq (z_score z) score then L else zins_spec (score, name) (zrem_spec name L))"
      by (auto simp: Let_def)
    then show ?thesis using l(1) Some z(3) unfolding zset_view_def zadd_spec_def by (auto simp: zset_insert_def)
  qed
qed

lemma zset_delete_view:
  assumes "zset_view zs L" and "z_nodes zs p = Some z"
  shows "\<exists>zs'. zset_delete zs p = Some zs' \<and> zset_view zs' (zrem_spec (z_name z) L)"
proof -
  from assms(1) obtain t where t: "zset_ok zs t" "L = map (zpair_of zs) (inorder t)" by (auto simp: zset_view_def)
  from zset_delete_ok [OF t(1) assms(2)] t(2) show ?thesis unfolding zset_view_def by metis
qed


subsection \<open>Queries\<close>

lemma find_append: "find P (xs @ ys) = (case find P xs of None \<Rightarrow> find P ys | Some x \<Rightarrow> Some x)"
  by (induction xs) auto

lemma find_vec_at: "find P xs = vec_at xs (length (takeWhile (\<lambda>x. \<not> P x) xs))"
  by (induction xs) (auto simp: vec_at_def)

lemma seek_loop_ok:
  assumes "links (z_tree zs) par cur s" and "\<not> is_nan score"
    and "\<And>p. p \<in> set_tree s \<Longrightarrow> \<exists>z. z_nodes zs p = Some z \<and> \<not> is_nan (z_score z)"
    and "sorted_wrt (\<lambda>p q. zk zs p < zk zs q) (inorder s)"
  shows "seek_loop zs score name cur found =
    Some (case find (\<lambda>p. \<not> zk zs p < zkey (score, name)) (inorder s) of None \<Rightarrow> found | Some p \<Rightarrow> Some p)"
  using assms
proof (induction s arbitrary: par cur found)
  case Leaf
  then show ?case by (simp add: seek_loop.simps)
next
  case (Node l p r)
  let ?P = "\<lambda>p. \<not> zk zs p < zkey (score, name)"
  from Node.prems(1) obtain n where n: "cur = Some p" "z_tree zs p = Some n" "links (z_tree zs) (Some p) (a_left n) l"
    "links (z_tree zs) (Some p) (a_right n) r" by auto
  from Node.prems(3) obtain w where w: "z_nodes zs p = Some w" "\<not> is_nan (z_score w)" by auto
  note lt = zless_key_eq [OF w Node.prems(2), of name]
  from Node.prems(4) have so: "sorted_wrt (\<lambda>p q. zk zs p < zk zs q) (inorder l)"
    "sorted_wrt (\<lambda>p q. zk zs p < zk zs q) (inorder r)" "\<forall>x \<in> set (inorder l). zk zs x < zk zs p"
    by (auto simp: sorted_wrt_append)
  have num: "\<And>q. q \<in> set_tree l \<union> set_tree r \<Longrightarrow> \<exists>z. z_nodes zs q = Some z \<and> \<not> is_nan (z_score z)"
    using Node.prems(3) by auto
  show ?case
  proof (cases "zk zs p < zkey (score, name)")
    case True
    then have "find ?P (inorder l) = None"
      using so(3) by (auto simp: find_None_iff intro: order.strict_trans)
    then show ?thesis
      using True n lt Node.IH(2) [OF n(4) Node.prems(2) num so(2), of found]
      by (subst seek_loop.simps) (simp add: find_append)
  next
    case False
    then show ?thesis
      using n lt Node.IH(1) [OF n(3) Node.prems(2) num so(1), of "Some p"]
      by (subst seek_loop.simps) (simp add: find_append split: option.splits)
  qed
qed

lemma zset_seekge_ok:
  assumes "zset_rep zs ps" and "\<not> is_nan score"
  shows "zset_seekge zs score name = Some (vec_at ps (length (takeWhile (\<lambda>p. zk zs p < zkey (score, name)) ps)))"
proof -
  from assms(1) obtain t where t: "zset_ok zs t" "ps = inorder t" by (auto simp: zset_rep_def)
  note ok = zset_okD [OF t(1)]
  have "links (z_tree zs) None (z_root zs) t" "sorted_wrt (\<lambda>p q. zk zs p < zk zs q) (inorder t)"
    "\<And>p. p \<in> set_tree t \<Longrightarrow> \<exists>z. z_nodes zs p = Some z \<and> \<not> is_nan (z_score z)"
    using ok(1) unfolding tree_ok_def represents_def by blast+
  from seek_loop_ok [OF this(1) assms(2) this(3,2)] show ?thesis
    unfolding zset_seekge_def t(2) by (simp add: find_vec_at split: option.splits)
qed

lemma znode_offset_ok:
  assumes "zset_rep zs ps" and "i < length ps"
  shows "znode_offset zs (Some (ps ! i)) offset =
    Some (if 0 \<le> int i + offset then vec_at ps (nat (int i + offset)) else None)"
proof -
  from assms(1) obtain t where t: "zset_ok zs t" "ps = inorder t" by (auto simp: zset_rep_def)
  from avl_offset_refines [OF zset_okD(6) [OF t(1)], of i offset] assms(2) show ?thesis
    unfolding t(2) by (auto simp: znode_offset_def rank_at_def vec_at_def)
qed

subsection \<open>Disposal\<close>

definition zset_drop :: "zset \<Rightarrow> addr set \<Rightarrow> zset" where
  "zset_drop zs S = zs\<lparr>z_tree := (z_tree zs) |` (- S), z_nodes := (z_nodes zs) |` (- S)\<rparr>"

lemma zset_drop_sel [simp]:
  "z_tree (zset_drop zs S) = (z_tree zs) |` (- S)" "z_nodes (zset_drop zs S) = (z_nodes zs) |` (- S)"
  "z_root (zset_drop zs S) = z_root zs" "z_hmap (zset_drop zs S) = z_hmap zs" "z_fresh (zset_drop zs S) = z_fresh zs"
  by (simp_all add: zset_drop_def)

lemma zset_drop_drop [simp]: "zset_drop (zset_drop zs S) T = zset_drop zs (S \<union> T)"
  by (simp add: zset_drop_def restrict_map_def fun_eq_iff)

lemma znode_del_drop: "p \<in> dom (z_nodes zs) \<Longrightarrow> znode_del zs p = Some (zset_drop zs {p})"
  by (auto simp: znode_del_def zset_drop_def restrict_map_def fun_eq_iff)

lemma tree_dispose_ok:
  assumes "links (z_tree zs) par cur s" and "distinct (inorder s)" and "set_tree s \<subseteq> dom (z_nodes zs)"
  shows "tree_dispose zs cur = Some (zset_drop zs (set_tree s))"
  using assms
proof (induction s arbitrary: zs par cur)
  case Leaf
  then show ?case by (simp add: tree_dispose.simps zset_drop_def restrict_map_def)
next
  case (Node l p r)
  from Node.prems(1) obtain n where n: "cur = Some p" "z_tree zs p = Some n" "links (z_tree zs) (Some p) (a_left n) l"
    "links (z_tree zs) (Some p) (a_right n) r" by auto
  from Node.prems(2) have d: "distinct (inorder l)" "distinct (inorder r)" "p \<notin> set_tree l" "p \<notin> set_tree r"
    "set_tree l \<inter> set_tree r = {}" by auto
  from Node.prems(3) have s: "set_tree l \<subseteq> dom (z_nodes zs)" "set_tree r \<subseteq> dom (z_nodes zs)" "p \<in> dom (z_nodes zs)" by auto
  let ?zl = "zset_drop zs (set_tree l)"
  have left: "tree_dispose zs (a_left n) = Some ?zl" using Node.IH(1) [OF n(3) d(1) s(1)] .
  have "agree_on (set_tree r) (z_tree zs) (z_tree ?zl)" using d(5) by (auto simp: agree_on_def restrict_map_def)
  from n(4) have "links (z_tree ?zl) (Some p) (a_right n) r" by (simp only: links_cong [OF \<open>agree_on _ _ _\<close>])
  moreover have "set_tree r \<subseteq> dom (z_nodes ?zl)" using s(2) d(5) by auto
  ultimately have right: "tree_dispose ?zl (a_right n) = Some (zset_drop zs (set_tree l \<union> set_tree r))"
    using Node.IH(2) [OF _ d(2), of ?zl] by simp
  have "z_tree ?zl p = Some n" using n(2) d(3) by (simp add: restrict_map_def)
  moreover have "p \<in> dom (z_nodes (zset_drop zs (set_tree l \<union> set_tree r)))" using s(3) d(3,4) by auto
  moreover have "set_tree l \<union> set_tree r \<union> {p} = set_tree (Node l p r)" by auto
  ultimately show ?case
    using n(1,2) left right by (subst tree_dispose.simps) (simp add: znode_del_drop)
qed

lemma zset_clear_ok:
  assumes "zset_ok zs t"
  shows "zset_clear zs = Some (zset_empty\<lparr>z_fresh := z_fresh zs\<rparr>)"
proof -
  note ok = zset_okD [OF assms]
  let ?zs = "zs\<lparr>z_hmap := hm_clear (z_hmap zs)\<rparr>"
  have "tree_dispose ?zs (z_root zs) = Some (zset_drop ?zs (set_tree t))"
    using ok(6,7) ok(2) by (intro tree_dispose_ok) (auto simp: represents_def)
  moreover have "z_tree zs |` (- set_tree t) = Map.empty" "z_nodes zs |` (- set_tree t) = Map.empty"
    using ok(2,3) by (auto simp: restrict_map_def fun_eq_iff)
  ultimately show ?thesis by (simp add: zset_clear_def zset_drop_def zset_empty_def hm_clear_def)
qed

subsection \<open>Properties\<close>

lemma zset_view_empty [simp]: "zset_view zset_empty []"
  unfolding zset_view_def
  by (intro exI [of _ Leaf])
     (simp add: zset_ok_def tree_ok_def zset_empty_def represents_def znames_def [abs_def])

lemma zset_view_sorted:
  assumes "zset_view zs L"
  shows "sorted_wrt (\<lambda>x y. zkey x < zkey y) L" "distinct (map snd L)" "length L < 2 ^ 31"
proof -
  from assms obtain ps where ps: "zset_rep zs ps" "L = map (zpair_of zs) ps" by (auto simp: zset_view_rep)
  note f = zset_rep_facts [OF ps(1)]
  show "sorted_wrt (\<lambda>x y. zkey x < zkey y) L" "distinct (map snd L)" "length L < 2 ^ 31"
    using f(3-5) unfolding ps(2) by (simp_all add: sorted_wrt_map comp_def)
qed

lemma zset_view_demo:
  "\<exists>zs. zset_insert zset_empty ''a'' 0 = Some (zs, True) \<and> zset_view zs [(0, ''a'')]"
  using zset_insert_view [OF zset_view_empty, of 0 "''a''"]
  by (simp add: is_nan_def dbl_mag_def dbl_inf_def zscore_of_def zadd_spec_def zins_spec_def)

text \<open>C8: \<open>zset_insert\<close> on a well-formed sorted set succeeds, without an invalid pointer access and
  without a failed assertion, and keeps the tree and the name index consistent. It inserts the
  pair at its place in the order of (score, name), or moves it there when the name is already
  present, and leaves the set alone when the score compares equal to the present one. It
  answers whether the name is new. The result is strictly ordered with distinct names.\<close>

theorem zset_insert_correct:
  assumes "zset_view zs L" and "\<not> is_nan score" and "length L + 1 < 2 ^ 31"
  shows "\<exists>zs'. zset_insert zs name score = Some (zs', zscore_of L name = None) \<and>
    zset_view zs' (zadd_spec name score L) \<and>
    sorted_wrt (\<lambda>x y. zkey x < zkey y) (zadd_spec name score L) \<and> distinct (map snd (zadd_spec name score L))"
  using zset_insert_view [OF assms, of name] zset_view_sorted(1,2) by blast

theorem zset_insert_correct_witness:
  "\<exists>zs zs'. zset_insert zset_empty ''a'' 0 = Some (zs, True) \<and>
     zset_insert zs ''a'' 0x3FF0000000000000 = Some (zs', False) \<and> zset_view zs' [(0x3FF0000000000000, ''a'')]"
proof -
  from zset_view_demo obtain zs where zs: "zset_insert zset_empty ''a'' 0 = Some (zs, True)" "zset_view zs [(0, ''a'')]"
    by blast
  have num: "\<not> is_nan 0x3FF0000000000000" "\<not> is_nan 0" "\<not> dbl_eq 0 0x3FF0000000000000" by code_simp+
  from zset_insert_correct [OF zs(2) num(1), of "''a''"] num(3) zs(1) show ?thesis
    by (auto simp: zscore_of_def zadd_spec_def zins_spec_def zrem_spec_def simp del: dbl_numbers)
qed

text \<open>C29: \<open>zset_delete\<close> removes a pair from both indexes and frees its node once: afterwards the
  list lacks exactly this name and the node's address is dead.\<close>

theorem zset_delete_correct:
  assumes "zset_view zs L" and "z_nodes zs p = Some z"
  shows "\<exists>zs'. zset_delete zs p = Some zs' \<and> zset_view zs' (filter (\<lambda>x. snd x \<noteq> z_name z) L)"
  using zset_delete_view [OF assms] by (simp add: zrem_spec_def)

theorem zset_delete_correct_witness:
  "\<exists>zs zs' p. zset_insert zset_empty ''a'' 0 = Some (zs, True) \<and> zset_delete zs p = Some zs' \<and> zset_view zs' []"
proof -
  from zset_view_demo obtain zs where zs: "zset_insert zset_empty ''a'' 0 = Some (zs, True)" "zset_view zs [(0, ''a'')]"
    by blast
  then obtain ps where ps: "zset_rep zs ps" "[(0, ''a'')] = map (zpair_of zs) ps" by (auto simp: zset_view_rep)
  from zscore_of_iff [OF ps(1), of "''a''" 0] obtain p z where "z_nodes zs p = Some z" "z_name z = ''a''"
    by (auto simp: zscore_of_def simp flip: ps(2))
  with zset_delete_correct [OF zs(2), of p z] zs(1) show ?thesis by auto
qed

text \<open>C30: A range query: \<open>zset_seekge\<close> finds the first pair not below (score, name), whose rank
  is the number of pairs below it, and \<open>znode_offset\<close> then moves by rank in either direction,
  giving a null pointer outside the set.\<close>

theorem zset_range_query:
  assumes "zset_rep zs ps" and "\<not> is_nan score"
    and "r = length (takeWhile (\<lambda>p. zkey (zpair_of zs p) < zkey (score, name)) ps)"
  shows "zset_seekge zs score name = Some (if r < length ps then Some (ps ! r) else None) \<and>
    (r < length ps \<longrightarrow> znode_offset zs (Some (ps ! r)) offset =
       Some (if 0 \<le> int r + offset \<and> int r + offset < int (length ps) then Some (ps ! nat (int r + offset)) else None))"
  using zset_seekge_ok [OF assms(1,2), of name] znode_offset_ok [OF assms(1), of r offset] assms(3)
  by (auto simp: vec_at_def)

theorem zset_range_query_witness:
  "\<exists>zs ps. zset_insert zset_empty ''a'' 0 = Some (zs, True) \<and> length ps = 1 \<and>
     zset_seekge zs 0 [] = Some (Some (ps ! 0)) \<and> znode_offset zs (Some (ps ! 0)) 1 = Some None"
proof -
  from zset_view_demo obtain zs where zs: "zset_insert zset_empty ''a'' 0 = Some (zs, True)" "zset_view zs [(0, ''a'')]"
    by blast
  then obtain p where ps: "zset_rep zs [p]" "zpair_of zs p = (0, ''a'')" by (auto simp: zset_view_rep)
  have num: "\<not> is_nan 0" by code_simp
  have "takeWhile (\<lambda>p. zkey (zpair_of zs p) < zkey (0, [])) [p] = []" by (simp add: ps(2) zkey_def less_prod_def')
  with zset_range_query [OF ps(1) num, of 0 "[]" 1] zs(1) show ?thesis by (intro exI [of _ zs] exI [of _ "[p]"]) simp
qed

text \<open>C31: \<open>zset_clear\<close> visits every node exactly once (a second visit would be a use after free),
  frees them all and leaves an empty set.\<close>

theorem zset_clear_frees_all:
  assumes "zset_view zs L"
  shows "zset_clear zs = Some (zset_empty\<lparr>z_fresh := z_fresh zs\<rparr>)"
  using assms zset_clear_ok by (auto simp: zset_view_def)

theorem zset_clear_frees_all_witness:
  "\<exists>zs zs'. zset_insert zset_empty ''a'' 0 = Some (zs, True) \<and> zset_clear zs = Some zs' \<and> z_nodes zs' = Map.empty"
proof -
  from zset_view_demo obtain zs where zs: "zset_insert zset_empty ''a'' 0 = Some (zs, True)" "zset_view zs [(0, ''a'')]"
    by blast
  from zset_clear_frees_all [OF zs(2)] zs(1) show ?thesis by (simp add: zset_empty_def)
qed

end
