(* ===== verification/Timer_Heap.thy ===== *)
theory Timer_Heap
  imports Prelude "HOL-Library.Multiset"
begin

text \<open>
  The timer heap (\<open>include/ds/heap.h\<close>, \<open>src/ds/heap.cpp\<close>): an array-encoded binary min-heap
  whose items point back to the index field of their owner. The array is a list of items; the
  index fields (\<open>Entry::heap_idx\<close>) are a store from the owner's address to the number, and
  \<open>*a[pos].ref = pos\<close> is a checked write to this store.

  The properties are those the comment of the header promises: the smallest value is at index
  0, every owner knows the position of its item after each operation, and the set of timers
  changes exactly by the item that is set or removed.
\<close>

record heap_item =
  hi_val :: u64
  hi_ref :: addr

type_synonym idx_store = "addr \<rightharpoonup> nat"

definition heap_parent :: "nat \<Rightarrow> nat" where
  "heap_parent i = (i + 1) div 2 - 1"

definition heap_left :: "nat \<Rightarrow> nat" where
  "heap_left i = i * 2 + 1"

definition heap_right :: "nat \<Rightarrow> nat" where
  "heap_right i = i * 2 + 2"

subsection \<open>Operations\<close>

text \<open>\<open>*a[pos].ref = pos\<close>\<close>

definition set_ref :: "idx_store \<Rightarrow> addr \<Rightarrow> nat \<Rightarrow> idx_store option" where
  "set_ref ix p pos = (case ix p of None \<Rightarrow> None | Some _ \<Rightarrow> Some (ix(p \<mapsto> pos)))"

text \<open>\<open>a[pos] = t; *a[pos].ref = pos\<close>\<close>

definition put_item :: "heap_item list \<Rightarrow> idx_store \<Rightarrow> nat \<Rightarrow> heap_item \<Rightarrow> (heap_item list \<times> idx_store) option" where
  "put_item a ix pos t = do {
     a \<leftarrow> vec_set a pos t;
     ix \<leftarrow> set_ref ix (hi_ref t) pos;
     Some (a, ix)
   }"

function heap_up_loop :: "heap_item \<Rightarrow> heap_item list \<Rightarrow> idx_store \<Rightarrow> nat \<Rightarrow> (heap_item list \<times> idx_store) option" where
  "heap_up_loop t a ix pos =
     (if pos > 0 then do {
        par \<leftarrow> vec_at a (heap_parent pos);
        if hi_val par > hi_val t then do {
          (a, ix) \<leftarrow> put_item a ix pos par;
          heap_up_loop t a ix (heap_parent pos) }
        else put_item a ix pos t }
      else put_item a ix pos t)"
  by pat_completeness auto
termination
  by (relation "measure (\<lambda>(t, a, ix, pos). pos)") (auto simp: heap_parent_def)

declare heap_up_loop.simps [simp del]

definition heap_up :: "heap_item list \<Rightarrow> idx_store \<Rightarrow> nat \<Rightarrow> (heap_item list \<times> idx_store) option" where
  "heap_up a ix pos = do { t \<leftarrow> vec_at a pos; heap_up_loop t a ix pos }"

text \<open>The child the loop of \<open>heap_down\<close> descends to, or the position itself.\<close>

definition min_child :: "heap_item list \<Rightarrow> nat \<Rightarrow> nat \<Rightarrow> u64 \<Rightarrow> nat option" where
  "min_child a pos len val = do {
     let l = heap_left pos;
     let r = heap_right pos;
     (min_pos, min_val) \<leftarrow>
       (if l < len then do { x \<leftarrow> vec_at a l; Some (if hi_val x < val then (l, hi_val x) else (pos, val)) }
        else Some (pos, val));
     (if r < len then do { x \<leftarrow> vec_at a r; Some (if hi_val x < min_val then r else min_pos) }
      else Some min_pos)
   }"

lemma min_child_cases:
  "min_child a pos len val = Some m \<Longrightarrow> m = pos \<or> (m = heap_left pos \<and> m < len) \<or> (m = heap_right pos \<and> m < len)"
  by (auto simp: min_child_def Let_def split: if_splits bind_splits)

function heap_down_loop ::
  "heap_item \<Rightarrow> heap_item list \<Rightarrow> idx_store \<Rightarrow> nat \<Rightarrow> nat \<Rightarrow> (heap_item list \<times> idx_store) option" where
  "heap_down_loop t a ix pos len = do {
     min_pos \<leftarrow> min_child a pos len (hi_val t);
     if min_pos = pos then put_item a ix pos t
     else do {
       x \<leftarrow> vec_at a min_pos;
       (a, ix) \<leftarrow> put_item a ix pos x;
       heap_down_loop t a ix min_pos len }
   }"
  by pat_completeness auto
termination
  by (relation "measure (\<lambda>(t, a, ix, pos, len). len - pos)")
     (auto dest!: min_child_cases simp: heap_left_def heap_right_def)

declare heap_down_loop.simps [simp del]

definition heap_down :: "heap_item list \<Rightarrow> idx_store \<Rightarrow> nat \<Rightarrow> nat \<Rightarrow> (heap_item list \<times> idx_store) option" where
  "heap_down a ix pos len = do { t \<leftarrow> vec_at a pos; heap_down_loop t a ix pos len }"

definition heap_update :: "heap_item list \<Rightarrow> idx_store \<Rightarrow> nat \<Rightarrow> nat \<Rightarrow> (heap_item list \<times> idx_store) option" where
  "heap_update a ix pos len = do {
     up \<leftarrow> (if pos > 0 then do {
              par \<leftarrow> vec_at a (heap_parent pos);
              x \<leftarrow> vec_at a pos;
              Some (hi_val par > hi_val x) }
            else Some False);
     if up then heap_up a ix pos else heap_down a ix pos len
   }"

definition heap_upsert ::
  "heap_item list \<Rightarrow> idx_store \<Rightarrow> nat \<Rightarrow> heap_item \<Rightarrow> (heap_item list \<times> idx_store) option" where
  "heap_upsert a ix pos t =
     (if pos < length a then heap_update (a[pos := t]) ix pos (length a)
      else heap_update (a @ [t]) ix (length a) (length a + 1))"

definition heap_delete :: "heap_item list \<Rightarrow> idx_store \<Rightarrow> nat \<Rightarrow> (heap_item list \<times> idx_store) option" where
  "heap_delete a ix pos =
     (if a = [] then None
      else do {
        a \<leftarrow> vec_set a pos (last a);
        let a = butlast a;
        if pos < length a then heap_update a ix pos (length a) else Some (a, ix) })"

subsection \<open>The shape of the array\<close>

lemma heap_parent_less: "0 < i \<Longrightarrow> heap_parent i < i"
  by (auto simp: heap_parent_def)

lemma heap_parent_child: "0 < i \<Longrightarrow> heap_parent i = pos \<longleftrightarrow> i = heap_left pos \<or> i = heap_right pos"
  by (auto simp: heap_parent_def heap_left_def heap_right_def)

lemma heap_children_greater [simp]: "pos < heap_left pos" "pos < heap_right pos" "heap_left pos \<noteq> heap_right pos"
  by (auto simp: heap_left_def heap_right_def)

text \<open>The item at \<open>i\<close> is not smaller than its parent.\<close>

definition above :: "heap_item list \<Rightarrow> nat \<Rightarrow> bool" where
  "above v i \<longleftrightarrow> hi_val (v ! heap_parent i) \<le> hi_val (v ! i)"

definition heap_ok :: "heap_item list \<Rightarrow> bool" where
  "heap_ok v \<longleftrightarrow> (\<forall>i. 0 < i \<and> i < length v \<longrightarrow> above v i)"

text \<open>A heap up to the item at \<open>pos\<close>: the links to its parent (\<open>up_ok\<close>), to its children
  (\<open>down_ok\<close>) or both (\<open>almost_ok\<close>) may be out of order.\<close>

definition bridges :: "heap_item list \<Rightarrow> nat \<Rightarrow> bool" where
  "bridges v pos \<longleftrightarrow> (\<forall>i. 0 < i \<and> i < length v \<and> heap_parent i = pos \<and> 0 < pos \<longrightarrow>
     hi_val (v ! heap_parent pos) \<le> hi_val (v ! i))"

definition up_ok :: "heap_item list \<Rightarrow> nat \<Rightarrow> bool" where
  "up_ok v pos \<longleftrightarrow> (\<forall>i. 0 < i \<and> i < length v \<and> i \<noteq> pos \<longrightarrow> above v i) \<and> bridges v pos"

definition down_ok :: "heap_item list \<Rightarrow> nat \<Rightarrow> bool" where
  "down_ok v pos \<longleftrightarrow> (\<forall>i. 0 < i \<and> i < length v \<and> heap_parent i \<noteq> pos \<longrightarrow> above v i) \<and> bridges v pos"

definition almost_ok :: "heap_item list \<Rightarrow> nat \<Rightarrow> bool" where
  "almost_ok v pos \<longleftrightarrow>
     (\<forall>i. 0 < i \<and> i < length v \<and> i \<noteq> pos \<and> heap_parent i \<noteq> pos \<longrightarrow> above v i) \<and> bridges v pos"

definition swap :: "heap_item list \<Rightarrow> nat \<Rightarrow> nat \<Rightarrow> heap_item list" where
  "swap v i j = v[i := v ! j, j := v ! i]"

lemma length_swap [simp]: "length (swap v i j) = length v"
  by (simp add: swap_def)

lemma nth_swap:
  "i < length v \<Longrightarrow> j < length v \<Longrightarrow> swap v i j ! k = (if k = j then v ! i else if k = i then v ! j else v ! k)"
  by (simp add: swap_def nth_list_update)

lemma mset_swap_eq [simp]: "i < length v \<Longrightarrow> j < length v \<Longrightarrow> mset (swap v i j) = mset v"
  by (simp add: swap_def mset_swap)

lemma up_okD:
  assumes "up_ok v pos" and "pos < length v" and "0 < i" and "i < length v"
  shows "i \<noteq> pos \<Longrightarrow> hi_val (v ! heap_parent i) \<le> hi_val (v ! i)"
    and "heap_parent i = pos \<Longrightarrow> 0 < pos \<Longrightarrow> hi_val (v ! heap_parent pos) \<le> hi_val (v ! i)"
  using assms by (auto simp: up_ok_def above_def bridges_def)

lemma up_step:
  assumes ok: "up_ok v pos" and pos: "0 < pos" "pos < length v"
    and gt: "hi_val (v ! heap_parent pos) > hi_val (v ! pos)"
  shows "up_ok (swap v pos (heap_parent pos)) (heap_parent pos)"
proof -
  let ?q = "heap_parent pos"
  let ?v = "swap v pos ?q"
  have q: "?q < pos" "?q < length v" using heap_parent_less [OF pos(1)] pos by auto
  note nth = nth_swap [OF pos(2) q(2)]
  have "above ?v i" if i: "0 < i" "i < length v" "i \<noteq> ?q" for i
  proof -
    have "heap_parent i \<noteq> i" using heap_parent_less [OF i(1)] by simp
    moreover consider "i = pos" | "i \<noteq> pos" "heap_parent i = pos" | "i \<noteq> pos" "heap_parent i = ?q"
      | "i \<noteq> pos" "heap_parent i \<noteq> pos" "heap_parent i \<noteq> ?q" by blast
    then show ?thesis
    proof cases
      case 1
      then show ?thesis using gt q by (simp add: above_def nth)
    next
      case 2
      then show ?thesis using up_okD(2) [OF ok pos(2) i(1,2)] i pos q by (simp add: above_def nth)
    next
      case 3
      then show ?thesis using up_okD(1) [OF ok pos(2) i(1,2)] i gt by (simp add: above_def nth)
    next
      case 4
      then show ?thesis using up_okD(1) [OF ok pos(2) i(1,2)] i by (simp add: above_def nth)
    qed
  qed
  moreover have "hi_val (?v ! heap_parent ?q) \<le> hi_val (?v ! i)"
    if i: "0 < i" "i < length v" "heap_parent i = ?q" "0 < ?q" for i
  proof -
    have "heap_parent ?q < ?q" using heap_parent_less [OF i(4)] .
    moreover have "hi_val (v ! heap_parent ?q) \<le> hi_val (v ! ?q)" using up_okD(1) [OF ok pos(2) i(4) q(2)] q by simp
    moreover have "hi_val (v ! ?q) \<le> hi_val (v ! i)" if "i \<noteq> pos"
      using up_okD(1) [OF ok pos(2) i(1,2)] i that by simp
    moreover have "i \<noteq> ?q" using heap_parent_less [OF i(1)] i(3) by simp
    ultimately show ?thesis using q by (auto simp: nth)
  qed
  ultimately show ?thesis by (simp add: up_ok_def bridges_def)
qed

lemma up_done:
  "up_ok v pos \<Longrightarrow> pos = 0 \<or> above v pos \<Longrightarrow> heap_ok v"
  by (auto simp: up_ok_def heap_ok_def)

lemma down_okD:
  assumes "down_ok v pos" and "0 < i" and "i < length v"
  shows "heap_parent i \<noteq> pos \<Longrightarrow> hi_val (v ! heap_parent i) \<le> hi_val (v ! i)"
    and "heap_parent i = pos \<Longrightarrow> 0 < pos \<Longrightarrow> hi_val (v ! heap_parent pos) \<le> hi_val (v ! i)"
  using assms by (auto simp: down_ok_def above_def bridges_def)

lemma down_step:
  assumes ok: "down_ok v pos" and m: "0 < m" "heap_parent m = pos" "m < length v"
    and lt: "hi_val (v ! m) < hi_val (v ! pos)"
    and least: "\<And>c. 0 < c \<Longrightarrow> c < length v \<Longrightarrow> heap_parent c = pos \<Longrightarrow> hi_val (v ! m) \<le> hi_val (v ! c)"
  shows "down_ok (swap v pos m) m"
proof -
  let ?v = "swap v pos m"
  have pos: "pos < m" "pos < length v" using heap_parent_less [OF m(1)] m by auto
  note nth = nth_swap [OF pos(2) m(3)]
  have "above ?v i" if i: "0 < i" "i < length v" "heap_parent i \<noteq> m" for i
  proof -
    have "heap_parent i < i" using heap_parent_less [OF i(1)] .
    moreover consider "i = pos" | "i \<noteq> pos" "heap_parent i = pos" | "i \<noteq> pos" "heap_parent i \<noteq> pos" by blast
    then show ?thesis
    proof cases
      case 1
      then show ?thesis using down_okD(2) [OF ok m(1,3)] m i pos by (simp add: above_def nth)
    next
      case 2
      then show ?thesis using least [OF i(1,2)] lt pos by (auto simp: above_def nth)
    next
      case 3
      then show ?thesis using down_okD(1) [OF ok i(1,2)] i m by (auto simp: above_def nth)
    qed
  qed
  moreover have "hi_val (?v ! heap_parent m) \<le> hi_val (?v ! i)" if i: "0 < i" "i < length v" "heap_parent i = m" for i
    using down_okD(1) [OF ok i(1,2)] i m pos heap_parent_less [OF i(1)] by (simp add: nth)
  ultimately show ?thesis by (simp add: down_ok_def bridges_def)
qed

lemma down_done:
  assumes "down_ok v pos"
    and "\<And>c. 0 < c \<Longrightarrow> c < length v \<Longrightarrow> heap_parent c = pos \<Longrightarrow> hi_val (v ! pos) \<le> hi_val (v ! c)"
  shows "heap_ok v"
  using assms by (auto simp: down_ok_def heap_ok_def above_def)

lemma almost_up:
  assumes "almost_ok v pos" and "0 < pos" and "pos < length v" and "hi_val (v ! heap_parent pos) > hi_val (v ! pos)"
  shows "up_ok v pos"
proof -
  have "above v i" if i: "0 < i" "i < length v" "i \<noteq> pos" for i
  proof (cases "heap_parent i = pos")
    case True
    with assms i have "hi_val (v ! heap_parent pos) \<le> hi_val (v ! i)" by (auto simp: almost_ok_def bridges_def)
    with assms(4) True show ?thesis by (simp add: above_def)
  qed (use assms(1) i in \<open>simp add: almost_ok_def\<close>)
  with assms(1) show ?thesis by (simp add: up_ok_def almost_ok_def)
qed

lemma almost_down: "almost_ok v pos \<Longrightarrow> pos = 0 \<or> above v pos \<Longrightarrow> down_ok v pos"
  by (auto simp: almost_ok_def down_ok_def)

subsection \<open>Moving items\<close>

text \<open>Every owner's index field holds the position of its item; \<open>P\<close> marks exempt positions.\<close>

definition synced :: "(nat \<Rightarrow> bool) \<Rightarrow> heap_item list \<Rightarrow> idx_store \<Rightarrow> bool" where
  "synced P v ix \<longleftrightarrow> (\<forall>i < length v. \<not> P i \<longrightarrow> ix (hi_ref (v ! i)) = Some i)"

definition same_off :: "heap_item list \<Rightarrow> idx_store \<Rightarrow> idx_store \<Rightarrow> bool" where
  "same_off v ix ix' \<longleftrightarrow> (\<forall>p. p \<notin> hi_ref ` set v \<longrightarrow> ix' p = ix p) \<and> dom ix' = dom ix"

text \<open>
  The state of the sifting loops: the item \<open>t\<close> belongs at \<open>pos\<close>, where the array holds a stale
  copy of another; \<open>v\<close> is the array with \<open>t\<close> put there.
\<close>

definition hole :: "heap_item \<Rightarrow> heap_item list \<Rightarrow> idx_store \<Rightarrow> nat \<Rightarrow> heap_item list \<Rightarrow> bool" where
  "hole t a ix pos v \<longleftrightarrow> pos < length a \<and> v = a[pos := t] \<and> distinct (map hi_ref v) \<and>
     hi_ref ` set v \<subseteq> dom ix \<and> synced ((=) pos) v ix"

lemma same_off_refl [simp]: "same_off v ix ix"
  by (simp add: same_off_def)

lemma same_off_trans:
  "same_off v ix ix' \<Longrightarrow> same_off w ix' ix'' \<Longrightarrow> mset w = mset v \<Longrightarrow> same_off v ix ix''"
  by (auto simp: same_off_def dest!: mset_eq_setD)

lemma set_ref_Some: "p \<in> dom ix \<Longrightarrow> set_ref ix p pos = Some (ix(p \<mapsto> pos))"
  by (auto simp: set_ref_def)

lemma distinct_refs_nth:
  "distinct (map hi_ref v) \<Longrightarrow> i < length v \<Longrightarrow> j < length v \<Longrightarrow> hi_ref (v ! i) = hi_ref (v ! j) \<longleftrightarrow> i = j"
  using nth_eq_iff_index_eq [of "map hi_ref v" i j] by simp

lemma live_nth: "hi_ref ` set v \<subseteq> dom ix \<Longrightarrow> i < length v \<Longrightarrow> hi_ref (v ! i) \<in> dom ix"
  using nth_mem [of i v] by blast

lemma hole_move:
  assumes h: "hole t a ix pos v" and q: "q < length a" "q \<noteq> pos"
  shows "\<exists>a' ix'. put_item a ix pos (a ! q) = Some (a', ix') \<and> hole t a' ix' q (swap v pos q) \<and>
    length a' = length a \<and> same_off v ix ix'"
proof -
  from h have pos: "pos < length a" and v: "v = a[pos := t]" and d: "distinct (map hi_ref v)"
    and live: "hi_ref ` set v \<subseteq> dom ix" and sy: "synced ((=) pos) v ix" by (auto simp: hole_def)
  let ?x = "v ! q"
  have len: "length v = length a" and x: "a ! q = ?x" "t = v ! pos" using v q pos by simp_all
  have xl: "hi_ref ?x \<in> dom ix" using live_nth [OF live] q len by simp
  let ?a = "a[pos := ?x]" and ?ix = "ix(hi_ref ?x \<mapsto> pos)"
  have "put_item a ix pos (a ! q) = Some (?a, ?ix)"
    using pos x set_ref_Some [OF xl] by (simp add: put_item_def)
  moreover have sw: "swap v pos q = ?a[q := t]" using v x by (metis list_update_overwrite swap_def)
  have ms: "mset (swap v pos q) = mset v" using pos q len by simp
  have "distinct (map hi_ref (swap v pos q))"
    using d by (metis ms mset_eq_imp_distinct_iff mset_map)
  moreover have "hi_ref ` set (swap v pos q) \<subseteq> dom ?ix"
    using live xl mset_eq_setD [OF ms] by auto
  moreover have "synced ((=) q) (swap v pos q) ?ix"
    using sy q pos len distinct_refs_nth [OF d, of _ q]
    by (auto simp: synced_def nth_swap)
  moreover have "same_off v ix ?ix" using xl q len by (auto simp: same_off_def)
  ultimately show ?thesis using q sw by (intro exI [of _ ?a] exI [of _ ?ix]) (simp add: hole_def)
qed

lemma hole_fill:
  assumes h: "hole t a ix pos v"
  shows "\<exists>ix'. put_item a ix pos t = Some (v, ix') \<and> synced (\<lambda>_. False) v ix' \<and> same_off v ix ix'"
proof -
  from h have pos: "pos < length a" and v: "v = a[pos := t]" and d: "distinct (map hi_ref v)"
    and live: "hi_ref ` set v \<subseteq> dom ix" and sy: "synced ((=) pos) v ix" by (auto simp: hole_def)
  have t: "t = v ! pos" "pos < length v" using v pos by simp_all
  then have tl: "hi_ref t \<in> dom ix" using live_nth [OF live] by simp
  have "put_item a ix pos t = Some (v, ix(hi_ref t \<mapsto> pos))"
    using pos v set_ref_Some [OF tl] by (simp add: put_item_def)
  moreover have "synced (\<lambda>_. False) v (ix(hi_ref t \<mapsto> pos))"
    using sy t distinct_refs_nth [OF d, of _ pos] by (auto simp: synced_def)
  moreover have "same_off v ix (ix(hi_ref t \<mapsto> pos))" using tl t by (auto simp: same_off_def)
  ultimately show ?thesis by blast
qed

text \<open>What sifting promises: a heap of the same items, with every owner up to date.\<close>

definition sifted :: "heap_item list \<Rightarrow> idx_store \<Rightarrow> heap_item list \<Rightarrow> idx_store \<Rightarrow> bool" where
  "sifted v ix a' ix' \<longleftrightarrow> heap_ok a' \<and> mset a' = mset v \<and> synced (\<lambda>_. False) a' ix' \<and> same_off v ix ix'"

lemma sifted_trans:
  "same_off v ix ix1 \<Longrightarrow> mset w = mset v \<Longrightarrow> sifted w ix1 a' ix' \<Longrightarrow> sifted v ix a' ix'"
  by (auto simp: sifted_def intro: same_off_trans)

lemma heap_up_loop_ok:
  "hole t a ix pos v \<Longrightarrow> up_ok v pos \<Longrightarrow> \<exists>a' ix'. heap_up_loop t a ix pos = Some (a', ix') \<and> sifted v ix a' ix'"
proof (induction t a ix pos arbitrary: v rule: heap_up_loop.induct)
  case (1 t a ix pos)
  from "1.prems"(1) have pos: "pos < length a" and v: "v = a[pos := t]" by (auto simp: hole_def)
  show ?case
  proof (cases "pos > 0 \<and> hi_val (a ! heap_parent pos) > hi_val t")
    case True
    let ?q = "heap_parent pos"
    have q: "?q < pos" "?q < length a" using True heap_parent_less [of pos] pos by auto
    from hole_move [OF "1.prems"(1) q(2)] q obtain a1 ix1 where m: "put_item a ix pos (a ! ?q) = Some (a1, ix1)"
      "hole t a1 ix1 ?q (swap v pos ?q)" "same_off v ix ix1" by auto
    have "up_ok (swap v pos ?q) ?q" using True q pos v by (intro up_step [OF "1.prems"(2)]) auto
    from "1.IH" [OF _ _ _ m(1) refl m(2) this] True q obtain a' ix' where
      "heap_up_loop t a1 ix1 ?q = Some (a', ix')" "sifted (swap v pos ?q) ix1 a' ix'" by auto
    moreover have "mset (swap v pos ?q) = mset v" using pos q v by simp
    ultimately show ?thesis
      using True m(1,3) q sifted_trans by (subst heap_up_loop.simps) auto
  next
    case False
    then have "pos = 0 \<or> above v pos"
      using pos v heap_parent_less [of pos] by (cases pos) (auto simp: above_def)
    then have "heap_ok v" by (rule up_done [OF "1.prems"(2)])
    moreover have "heap_up_loop t a ix pos = put_item a ix pos t"
      using False pos heap_parent_less [of pos] by (subst heap_up_loop.simps) auto
    ultimately show ?thesis using hole_fill [OF "1.prems"(1)] by (auto simp: sifted_def)
  qed
qed

lemma min_child_ok:
  assumes "hole t a ix pos v"
  shows "\<exists>m. min_child a pos (length a) (hi_val t) = Some m \<and>
    (if m = pos then (\<forall>c. 0 < c \<longrightarrow> c < length v \<longrightarrow> heap_parent c = pos \<longrightarrow> hi_val (v ! pos) \<le> hi_val (v ! c))
     else 0 < m \<and> heap_parent m = pos \<and> m < length a \<and> hi_val (v ! m) < hi_val (v ! pos) \<and>
       (\<forall>c. 0 < c \<longrightarrow> c < length v \<longrightarrow> heap_parent c = pos \<longrightarrow> hi_val (v ! m) \<le> hi_val (v ! c)))"
proof -
  let ?l = "heap_left pos" and ?r = "heap_right pos"
  from assms have v: "v = a[pos := t]" "pos < length a" by (auto simp: hole_def)
  have lr: "v ! ?l = a ! ?l" "v ! ?r = a ! ?r" "v ! pos = t"
    using v heap_children_greater [of pos] by (metis nth_list_update_neq nat_neq_iff, metis nth_list_update_neq nat_neq_iff, simp)
  have par: "heap_parent ?l = pos" "heap_parent ?r = pos" "0 < ?l" "0 < ?r"
    using heap_children_greater [of pos] heap_parent_child [of ?l pos] heap_parent_child [of ?r pos] by linarith+
  have kids: "(\<forall>c. 0 < c \<longrightarrow> c < length v \<longrightarrow> heap_parent c = pos \<longrightarrow> x \<le> hi_val (v ! c)) \<longleftrightarrow>
      (?l < length a \<longrightarrow> x \<le> hi_val (a ! ?l)) \<and> (?r < length a \<longrightarrow> x \<le> hi_val (a ! ?r))" for x
    using heap_parent_child [of _ pos] par v(1) lr(1,2) by (metis length_list_update)
  have ne: "?l \<noteq> pos" "?r \<noteq> pos" using heap_children_greater [of pos] by linarith+
  show ?thesis
    unfolding kids lr(3)
    using lr(1,2) par ne
    by (cases "?l < length a"; cases "?r < length a";
        cases "hi_val (a ! ?l) < hi_val t"; cases "hi_val (a ! ?r) < hi_val t"; cases "hi_val (a ! ?r) < hi_val (a ! ?l)")
       (simp_all add: min_child_def Let_def linorder_not_less, (meson leD less_imp_le order_less_le_trans)+)
qed

lemma heap_down_loop_ok:
  "hole t a ix pos v \<Longrightarrow> down_ok v pos \<Longrightarrow> len = length a \<Longrightarrow>
     \<exists>a' ix'. heap_down_loop t a ix pos len = Some (a', ix') \<and> sifted v ix a' ix'"
proof (induction t a ix pos len arbitrary: v rule: heap_down_loop.induct)
  case (1 t a ix pos len)
  from "1.prems"(1) have pos: "pos < length a" and v: "v = a[pos := t]" by (auto simp: hole_def)
  from min_child_ok [OF "1.prems"(1)] obtain m where m: "min_child a pos len (hi_val t) = Some m"
    "if m = pos then (\<forall>c. 0 < c \<longrightarrow> c < length v \<longrightarrow> heap_parent c = pos \<longrightarrow> hi_val (v ! pos) \<le> hi_val (v ! c))
     else 0 < m \<and> heap_parent m = pos \<and> m < length a \<and> hi_val (v ! m) < hi_val (v ! pos) \<and>
       (\<forall>c. 0 < c \<longrightarrow> c < length v \<longrightarrow> heap_parent c = pos \<longrightarrow> hi_val (v ! m) \<le> hi_val (v ! c))"
    using "1.prems"(3) by auto
  show ?case
  proof (cases "m = pos")
    case True
    then have "heap_ok v" using m by (intro down_done [OF "1.prems"(2)]) auto
    with True m(1) hole_fill [OF "1.prems"(1)] show ?thesis
      by (subst heap_down_loop.simps) (auto simp: sifted_def)
  next
    case False
    with m(2) have c: "0 < m" "heap_parent m = pos" "m < length a" "hi_val (v ! m) < hi_val (v ! pos)"
      "\<And>c. 0 < c \<Longrightarrow> c < length v \<Longrightarrow> heap_parent c = pos \<Longrightarrow> hi_val (v ! m) \<le> hi_val (v ! c)" by auto
    from hole_move [OF "1.prems"(1) c(3) False] obtain a1 ix1 where mv: "put_item a ix pos (a ! m) = Some (a1, ix1)"
      "hole t a1 ix1 m (swap v pos m)" "same_off v ix ix1" "length a1 = length a" by auto
    have "down_ok (swap v pos m) m" using c v by (intro down_step [OF "1.prems"(2)]) auto
    from "1.IH" [OF m(1) False _ mv(1) refl mv(2) this] c(3) mv(4) "1.prems"(3) obtain a' ix' where
      "heap_down_loop t a1 ix1 m len = Some (a', ix')" "sifted (swap v pos m) ix1 a' ix'" by auto
    moreover have "mset (swap v pos m) = mset v" using pos c(3) v by simp
    ultimately show ?thesis
      using False m(1) mv(1,3) c(3) sifted_trans by (subst heap_down_loop.simps) auto
  qed
qed

lemma heap_update_ok:
  assumes pos: "pos < length v" and ok: "almost_ok v pos" and d: "distinct (map hi_ref v)"
    and live: "hi_ref ` set v \<subseteq> dom ix" and sy: "synced ((=) pos) v ix"
  shows "\<exists>a' ix'. heap_update v ix pos (length v) = Some (a', ix') \<and> sifted v ix a' ix'"
proof -
  have h: "hole (v ! pos) v ix pos v" using assms by (simp add: hole_def)
  show ?thesis
  proof (cases "0 < pos \<and> hi_val (v ! heap_parent pos) > hi_val (v ! pos)")
    case True
    then have "heap_update v ix pos (length v) = heap_up_loop (v ! pos) v ix pos"
      using pos heap_parent_less [of pos] by (simp add: heap_update_def heap_up_def)
    with True pos heap_up_loop_ok [OF h almost_up [OF ok]] show ?thesis by auto
  next
    case False
    then have "heap_update v ix pos (length v) = heap_down_loop (v ! pos) v ix pos (length v)"
      using pos heap_parent_less [of pos] by (auto simp: heap_update_def heap_down_def)
    moreover have "down_ok v pos" using False by (intro almost_down [OF ok]) (auto simp: above_def)
    ultimately show ?thesis using heap_down_loop_ok [OF h _ refl] by auto
  qed
qed

subsection \<open>Setting and removing a timer\<close>

text \<open>\<open>(size_t)-1\<close>, which marks an entry without a timer\<close>

definition npos :: nat where
  "npos = 2 ^ 64 - 1"

definition heap_inv :: "heap_item list \<Rightarrow> idx_store \<Rightarrow> bool" where
  "heap_inv a ix \<longleftrightarrow> heap_ok a \<and> distinct (map hi_ref a) \<and> synced (\<lambda>_. False) a ix"

text \<open>The deadline of every owner that has a timer.\<close>

definition timers :: "heap_item list \<Rightarrow> addr \<rightharpoonup> u64" where
  "timers a = map_of (map (\<lambda>x. (hi_ref x, hi_val x)) a)"

lemma item_eta [simp]: "\<lparr>hi_val = hi_val x, hi_ref = hi_ref x\<rparr> = (x :: heap_item)"
  by simp

lemma timers_iff:
  assumes "distinct (map hi_ref a)"
  shows "timers a p = Some v \<longleftrightarrow> \<lparr>hi_val = v, hi_ref = p\<rparr> \<in> set a"
proof -
  have "distinct (map fst (map (\<lambda>x. (hi_ref x, hi_val x)) a))" using assms by (simp add: comp_def)
  then have "timers a p = Some v \<longleftrightarrow> (p, v) \<in> (\<lambda>x. (hi_ref x, hi_val x)) ` set a"
    by (simp add: timers_def map_of_eq_Some_iff)
  also have "\<dots> \<longleftrightarrow> \<lparr>hi_val = v, hi_ref = p\<rparr> \<in> set a"
  proof
    assume "(p, v) \<in> (\<lambda>x. (hi_ref x, hi_val x)) ` set a"
    then obtain x where "x \<in> set a" "hi_ref x = p" "hi_val x = v" by auto
    moreover from this have "x = \<lparr>hi_val = v, hi_ref = p\<rparr>" by simp
    ultimately show "\<lparr>hi_val = v, hi_ref = p\<rparr> \<in> set a" by simp
  qed force
  finally show ?thesis .
qed

lemma dom_timers: "dom (timers a) = hi_ref ` set a"
  by (simp add: timers_def dom_map_of_conv_image_fst image_image)

lemma timers_nth: "distinct (map hi_ref a) \<Longrightarrow> i < length a \<Longrightarrow> timers a (hi_ref (a ! i)) = Some (hi_val (a ! i))"
  by (simp add: timers_iff)

lemma timers_cong:
  assumes "distinct (map hi_ref a)" and "mset b = mset a"
  shows "timers b = timers a" "distinct (map hi_ref b)"
proof -
  show d: "distinct (map hi_ref b)" using assms by (metis mset_eq_imp_distinct_iff mset_map)
  show "timers b = timers a"
    using mset_eq_setD [OF assms(2)]
    by (intro ext option_eqI) (simp add: timers_iff [OF d] timers_iff [OF assms(1)])
qed

lemma sifted_inv:
  assumes "sifted v ix a ix'" and "distinct (map hi_ref v)"
  shows "heap_inv a ix'" "timers a = timers v" "length a = length v" "hi_ref ` set a = hi_ref ` set v"
  using assms timers_cong [OF assms(2), of a] mset_eq_setD [of a v] mset_eq_length [of a v]
  by (auto simp: sifted_def heap_inv_def)

lemma heap_ok_update:
  assumes "heap_ok a" and pos: "pos < length a"
  shows "almost_ok (a[pos := t]) pos"
proof -
  have "above (a[pos := t]) i" if "0 < i" "i < length a" "i \<noteq> pos" "heap_parent i \<noteq> pos" for i
    using assms that by (auto simp: heap_ok_def above_def)
  moreover have "hi_val (a[pos := t] ! heap_parent pos) \<le> hi_val (a[pos := t] ! i)"
    if i: "0 < i" "i < length a" "heap_parent i = pos" "0 < pos" for i
  proof -
    have "above a pos" "above a i" using assms i by (auto simp: heap_ok_def)
    moreover have "heap_parent pos \<noteq> pos" "i \<noteq> pos"
      using heap_parent_less [OF i(4)] heap_parent_less [OF i(1)] i(3) by auto
    ultimately show ?thesis using i by (auto simp: above_def)
  qed
  ultimately show ?thesis by (simp add: almost_ok_def bridges_def)
qed

lemma heap_ok_take: "heap_ok a \<Longrightarrow> heap_ok (take n a)"
  unfolding heap_ok_def above_def using heap_parent_less by (metis length_take min_less_iff_conj less_trans nth_take)

lemma heap_ok_append:
  assumes "heap_ok a"
  shows "almost_ok (a @ [t]) (length a)"
proof -
  have "above (a @ [t]) i" if i: "0 < i" "i < length a" for i
    using assms i heap_parent_less [OF i(1)] by (auto simp: heap_ok_def above_def nth_append)
  moreover have "heap_parent i \<noteq> length a" if "0 < i" "i < Suc (length a)" for i
    using heap_parent_less [OF that(1)] that(2) by simp
  ultimately show ?thesis by (auto simp: almost_ok_def bridges_def less_Suc_eq)
qed

lemma heap_upsert_set:
  assumes inv: "heap_inv a ix" and pos: "pos < length a" and t: "hi_ref t = hi_ref (a ! pos)"
  shows "\<exists>a' ix'. heap_upsert a ix pos t = Some (a', ix') \<and> sifted (a[pos := t]) ix a' ix' \<and>
    distinct (map hi_ref (a[pos := t])) \<and> timers (a[pos := t]) = (timers a)(hi_ref t \<mapsto> hi_val t)"
proof -
  let ?v = "a[pos := t]"
  from inv have ok: "heap_ok a" and d: "distinct (map hi_ref a)" and sy: "synced (\<lambda>_. False) a ix"
    by (auto simp: heap_inv_def)
  have refs: "map hi_ref ?v = map hi_ref a" using t pos by (simp add: map_update list_update_same_conv)
  then have d': "distinct (map hi_ref ?v)" using d by simp
  have sy': "synced ((=) pos) ?v ix" using sy by (auto simp: synced_def)
  have "hi_ref ` set ?v = hi_ref ` set a" using arg_cong [OF refs, of set] by simp
  also have "\<dots> \<subseteq> dom ix" using sy by (auto simp: synced_def in_set_conv_nth)
  finally have live: "hi_ref ` set ?v \<subseteq> dom ix" .
  from heap_update_ok [OF _ heap_ok_update [OF ok pos, of t] d' live sy'] pos obtain a' ix' where
    "heap_upsert a ix pos t = Some (a', ix')" "sifted ?v ix a' ix'" by (auto simp: heap_upsert_def)
  moreover have "timers ?v p = ((timers a)(hi_ref t \<mapsto> hi_val t)) p" for p
  proof (cases "p = hi_ref t")
    case True
    then show ?thesis using timers_nth [OF d', of pos] pos by simp
  next
    case False
    have "x \<in> set ?v \<longleftrightarrow> x \<in> set a" if "hi_ref x = p" for x
      using that False t pos by (auto simp: in_set_conv_nth nth_list_update)
    then have "timers ?v p = timers a p"
      by (intro option_eqI) (simp add: timers_iff [OF d'] timers_iff [OF d])
    then show ?thesis using False by simp
  qed
  ultimately show ?thesis using d' by blast
qed

lemma heap_upsert_new:
  assumes inv: "heap_inv a ix" and pos: "\<not> pos < length a" and t: "hi_ref t \<notin> hi_ref ` set a" "hi_ref t \<in> dom ix"
  shows "\<exists>a' ix'. heap_upsert a ix pos t = Some (a', ix') \<and> sifted (a @ [t]) ix a' ix' \<and>
    distinct (map hi_ref (a @ [t])) \<and> timers (a @ [t]) = (timers a)(hi_ref t \<mapsto> hi_val t)"
proof -
  let ?v = "a @ [t]"
  from inv have ok: "heap_ok a" and d: "distinct (map hi_ref a)" and sy: "synced (\<lambda>_. False) a ix"
    by (auto simp: heap_inv_def)
  have d': "distinct (map hi_ref ?v)" using d t by simp
  have sy': "synced ((=) (length a)) ?v ix" using sy by (auto simp: synced_def nth_append)
  have live: "hi_ref ` set ?v \<subseteq> dom ix" using sy t(2) by (auto simp: synced_def in_set_conv_nth)
  from heap_update_ok [OF _ heap_ok_append [OF ok] d' live sy'] pos obtain a' ix' where
    "heap_upsert a ix pos t = Some (a', ix')" "sifted ?v ix a' ix'" by (auto simp: heap_upsert_def)
  moreover have "timers ?v = (timers a)(hi_ref t \<mapsto> hi_val t)"
  proof -
    have "timers a (hi_ref t) = None" using t(1) dom_timers [of a] by blast
    then show ?thesis by (intro ext) (auto simp: timers_def map_add_def split: option.splits)
  qed
  ultimately show ?thesis using d' by blast
qed

lemma heap_delete_ok:
  assumes inv: "heap_inv a ix" and pos: "pos < length a"
  shows "\<exists>v a' ix'. heap_delete a ix pos = Some (a', ix') \<and> heap_inv a' ix' \<and> same_off v ix ix' \<and>
    hi_ref ` set v = hi_ref ` set a - {hi_ref (a ! pos)} \<and> hi_ref ` set a' = hi_ref ` set v \<and>
    Suc (length a') = length a \<and> timers a' = (timers a)(hi_ref (a ! pos) := None)"
proof -
  let ?p = "hi_ref (a ! pos)" and ?n = "length a - 1"
  from inv have ok: "heap_ok a" and d: "distinct (map hi_ref a)" and sy: "synced (\<lambda>_. False) a ix"
    by (auto simp: heap_inv_def)
  let ?v = "butlast (a[pos := last a])"
  have len: "length ?v = ?n" and n: "?n < length a" using pos by auto
  have ms: "add_mset (a ! pos) (mset ?v) = mset a"
  proof -
    let ?w = "a[pos := last a]"
    have "?w \<noteq> []" using pos by auto
    moreover have l: "last ?w = last a" using pos by (subst last_list_update) auto
    ultimately have "?v @ [last ?w] = ?w" by (intro append_butlast_last_id)
    then have "mset ?w = mset (?v @ [last a])" by (simp only: l)
    then have "mset ?w = add_mset (last a) (mset ?v)" by simp
    then have "mset a - {#a ! pos#} = mset ?v" using pos by (simp add: mset_update)
    then show ?thesis using pos by (metis insert_DiffM nth_mem_mset)
  qed
  have d': "distinct (map hi_ref ?v)" "?p \<notin> hi_ref ` set ?v"
  proof -
    have "mset (map hi_ref a) = mset (?p # map hi_ref ?v)" using arg_cong [OF ms, of "image_mset hi_ref"] by simp
    then have "distinct (?p # map hi_ref ?v)" using d mset_eq_imp_distinct_iff by blast
    then show "distinct (map hi_ref ?v)" "?p \<notin> hi_ref ` set ?v" by auto
  qed
  have set: "set a = insert (a ! pos) (set ?v)" using mset_eq_setD [of a "a ! pos # ?v"] ms by simp
  have mem: "x \<in> set ?v \<longleftrightarrow> x \<in> set a \<and> hi_ref x \<noteq> ?p" for x
    using set d'(2) by (metis image_eqI insertE insert_iff)
  have "timers ?v q = ((timers a)(?p := None)) q" for q
    by (rule option_eqI) (auto simp: timers_iff [OF d'(1)] timers_iff [OF d] mem)
  then have t: "timers ?v = (timers a)(?p := None)" by blast
  have refs: "hi_ref ` set ?v = hi_ref ` set a - {?p}" using set d'(2) by auto
  show ?thesis
  proof (cases "pos < ?n")
    case True
    have v: "?v = (take ?n a)[pos := a ! ?n]"
      using pos last_conv_nth [of a] by (cases "a = []") (simp_all add: butlast_conv_take take_update_swap)
    have al: "almost_ok ?v pos"
      unfolding v using True pos by (intro heap_ok_update heap_ok_take ok) simp
    have sy': "synced ((=) pos) ?v ix" unfolding v using sy by (auto simp: synced_def)
    have live: "hi_ref ` set ?v \<subseteq> dom ix" using refs sy by (auto simp: synced_def in_set_conv_nth)
    from heap_update_ok [OF _ al d'(1) live sy'] len True obtain a' ix' where r:
      "heap_update ?v ix pos ?n = Some (a', ix')" "sifted ?v ix a' ix'" by auto
    then have "heap_delete a ix pos = Some (a', ix')" using pos True len by (auto simp: heap_delete_def Let_def)
    moreover have "same_off ?v ix ix'" using r(2) by (simp add: sifted_def)
    ultimately show ?thesis
      using sifted_inv [OF r(2) d'(1)] refs t len n by (intro exI [of _ ?v] exI [of _ a'] exI [of _ ix']) auto
  next
    case False
    then have "pos = ?n" using pos by simp
    then have v: "?v = take ?n a" by (simp add: butlast_conv_take take_update_cancel)
    have "heap_inv ?v ix" unfolding heap_inv_def
      using heap_ok_take [OF ok, of ?n] d'(1) sy by (auto simp: v synced_def)
    moreover have "heap_delete a ix pos = Some (?v, ix)" using pos False len by (auto simp: heap_delete_def Let_def)
    ultimately show ?thesis using refs t len n by (intro exI [of _ ?v] exI [of _ ix]) auto
  qed
qed

lemma heap_min:
  assumes "heap_ok a" and "i < length a"
  shows "hi_val (a ! 0) \<le> hi_val (a ! i)"
  using assms(2)
proof (induction i rule: less_induct)
  case (less i)
  show ?case
  proof (cases "i = 0")
    case False
    then have "hi_val (a ! 0) \<le> hi_val (a ! heap_parent i)"
      using less heap_parent_less [of i] by simp
    also have "\<dots> \<le> hi_val (a ! i)" using assms(1) less.prems False by (simp add: heap_ok_def above_def)
    finally show ?thesis .
  qed simp
qed

subsection \<open>The timer queue of the key space\<close>

text \<open>
  The two calls \<open>entry_set_ttl\<close> makes: \<open>heap_upsert(db.ttl, ent->heap_idx, item)\<close>, and the
  removal of a timer, which resets the entry's index.
\<close>

type_synonym timer_queue = "heap_item list \<times> idx_store"

definition ttl_arm :: "timer_queue \<Rightarrow> addr \<Rightarrow> u64 \<Rightarrow> timer_queue option" where
  "ttl_arm q p expire_at = do {
     idx \<leftarrow> snd q p;
     heap_upsert (fst q) (snd q) idx \<lparr>hi_val = expire_at, hi_ref = p\<rparr>
   }"

definition ttl_disarm :: "timer_queue \<Rightarrow> addr \<Rightarrow> timer_queue option" where
  "ttl_disarm q p = do {
     idx \<leftarrow> snd q p;
     if idx \<noteq> npos then do {
       (a, ix) \<leftarrow> heap_delete (fst q) (snd q) idx;
       ix \<leftarrow> set_ref ix p npos;
       Some (a, ix) }
     else Some q
   }"

definition ttl_inv :: "timer_queue \<Rightarrow> bool" where
  "ttl_inv q \<longleftrightarrow> heap_inv (fst q) (snd q) \<and> length (fst q) \<le> npos \<and>
     (\<forall>p \<in> dom (snd q). p \<notin> dom (timers (fst q)) \<longrightarrow> snd q p = Some npos)"

definition ttl_top :: "timer_queue \<Rightarrow> (addr \<times> u64) option" where
  "ttl_top q = (case fst q of [] \<Rightarrow> None | x # _ \<Rightarrow> Some (hi_ref x, hi_val x))"

lemma ttl_inv_idx:
  assumes "ttl_inv q" and "p \<in> dom (snd q)"
  shows "case timers (fst q) p of None \<Rightarrow> snd q p = Some npos
    | Some v \<Rightarrow> \<exists>i < length (fst q). snd q p = Some i \<and> i < npos \<and> fst q ! i = \<lparr>hi_val = v, hi_ref = p\<rparr>"
proof (cases "timers (fst q) p")
  case None
  then show ?thesis using assms by (auto simp: ttl_inv_def)
next
  case (Some v)
  have d: "distinct (map hi_ref (fst q))" using assms by (auto simp: ttl_inv_def heap_inv_def)
  from Some have "\<lparr>hi_val = v, hi_ref = p\<rparr> \<in> set (fst q)" by (simp add: timers_iff [OF d])
  then obtain i where "i < length (fst q)" "fst q ! i = \<lparr>hi_val = v, hi_ref = p\<rparr>" by (metis in_set_conv_nth)
  moreover from this have "snd q p = Some i" using assms(1) by (force simp: ttl_inv_def heap_inv_def synced_def)
  ultimately show ?thesis using Some assms(1) by (auto simp: ttl_inv_def)
qed

lemma timers_live: "ttl_inv q \<Longrightarrow> dom (timers (fst q)) \<subseteq> dom (snd q)"
  unfolding ttl_inv_def heap_inv_def synced_def dom_timers by (auto simp: in_set_conv_nth)

lemma ttl_arm_ok:
  assumes inv: "ttl_inv q" and p: "p \<in> dom (snd q)" and len: "length (fst q) < npos"
  shows "\<exists>q'. ttl_arm q p v = Some q' \<and> ttl_inv q' \<and> timers (fst q') = (timers (fst q))(p \<mapsto> v) \<and>
    dom (snd q') = dom (snd q) \<and> length (fst q') \<le> Suc (length (fst q))"
proof -
  obtain a ix where q: "q = (a, ix)" by (cases q)
  from inv have hi: "heap_inv a ix" by (simp add: ttl_inv_def q)
  let ?t = "\<lparr>hi_val = v, hi_ref = p\<rparr>"
  have fin: ?thesis if r: "ttl_arm q p v = Some (a', ix')" "sifted w ix a' ix'" "distinct (map hi_ref w)"
    "timers w = (timers a)(p \<mapsto> v)" "length w \<le> Suc (length a)" for w a' ix'
  proof -
    note s = sifted_inv [OF r(2,3)]
    have so: "same_off w ix ix'" using r(2) by (simp add: sifted_def)
    have "ix' x = Some npos" if "x \<in> dom ix'" "x \<notin> dom (timers a')" for x
      using that so s(2,4) r(4) inv by (auto simp: same_off_def ttl_inv_def q dom_timers [of w, symmetric])
    moreover have "dom ix' = dom ix" using so by (simp add: same_off_def)
    ultimately show ?thesis using r s len by (auto simp: ttl_inv_def q)
  qed
  show ?thesis
  proof (cases "timers a p")
    case None
    then have idx: "ix p = Some npos" "\<not> npos < length a" using ttl_inv_idx [OF inv p] len by (auto simp: q)
    have "p \<notin> hi_ref ` set a" using None dom_timers [of a] by blast
    with heap_upsert_new [OF hi idx(2), of ?t] p obtain a' ix' where "heap_upsert a ix npos ?t = Some (a', ix')"
      "sifted (a @ [?t]) ix a' ix'" "distinct (map hi_ref (a @ [?t]))" "timers (a @ [?t]) = (timers a)(p \<mapsto> v)"
      by (auto simp: q)
    then show ?thesis using idx(1) by (intro fin [of a' ix' "a @ [?t]"]) (simp_all add: ttl_arm_def q)
  next
    case (Some w)
    then obtain i where i: "i < length a" "ix p = Some i" "a ! i = \<lparr>hi_val = w, hi_ref = p\<rparr>"
      using ttl_inv_idx [OF inv p] by (auto simp: q)
    from heap_upsert_set [OF hi i(1), of ?t] i(3) obtain a' ix' where "heap_upsert a ix i ?t = Some (a', ix')"
      "sifted (a[i := ?t]) ix a' ix'" "distinct (map hi_ref (a[i := ?t]))" "timers (a[i := ?t]) = (timers a)(p \<mapsto> v)"
      by auto
    then show ?thesis using i(2) by (intro fin [of a' ix' "a[i := ?t]"]) (simp_all add: ttl_arm_def q)
  qed
qed

lemma ttl_disarm_ok:
  assumes inv: "ttl_inv q" and p: "p \<in> dom (snd q)"
  shows "\<exists>q'. ttl_disarm q p = Some q' \<and> ttl_inv q' \<and> timers (fst q') = (timers (fst q))(p := None) \<and>
    dom (snd q') = dom (snd q) \<and> length (fst q') \<le> length (fst q) \<and> snd q' p = Some npos"
proof -
  obtain a ix where q: "q = (a, ix)" by (cases q)
  from inv have hi: "heap_inv a ix" by (simp add: ttl_inv_def q)
  show ?thesis
  proof (cases "timers a p")
    case None
    then show ?thesis using ttl_inv_idx [OF inv p] inv by (auto simp: ttl_disarm_def q fun_upd_idem)
  next
    case (Some w)
    then obtain i where i: "i < length a" "ix p = Some i" "a ! i = \<lparr>hi_val = w, hi_ref = p\<rparr>" "i \<noteq> npos"
      using ttl_inv_idx [OF inv p] by (auto simp: q)
    from heap_delete_ok [OF hi i(1)] i(3) obtain v a' ix' where del: "heap_delete a ix i = Some (a', ix')"
      "heap_inv a' ix'" "same_off v ix ix'" "hi_ref ` set v = hi_ref ` set a - {p}" "hi_ref ` set a' = hi_ref ` set v"
      "Suc (length a') = length a" "timers a' = (timers a)(p := None)" by auto
    let ?ix = "ix'(p \<mapsto> npos)"
    have dom: "dom ix' = dom ix" using del(3) by (simp add: same_off_def)
    have "ttl_disarm q p = Some (a', ?ix)"
      using i del(1) p dom by (auto simp: ttl_disarm_def q set_ref_Some)
    moreover have "heap_inv a' ?ix"
      using del(2,4,5) by (auto simp: heap_inv_def synced_def)
    moreover have "?ix x = Some npos" if "x \<in> dom ix" "x \<notin> dom (timers a')" for x
      using that del inv by (auto simp: ttl_inv_def q same_off_def dom_timers)
    ultimately show ?thesis using del dom inv p by (auto simp: ttl_inv_def q)
  qed
qed

lemma ttl_top_ok:
  assumes "ttl_inv q"
  shows "case ttl_top q of None \<Rightarrow> timers (fst q) = Map.empty
    | Some (p, v) \<Rightarrow> timers (fst q) p = Some v \<and> (\<forall>p' v'. timers (fst q) p' = Some v' \<longrightarrow> v \<le> v')"
proof (cases "fst q")
  case Nil
  then show ?thesis by (simp add: ttl_top_def timers_def)
next
  case (Cons x xs)
  have d: "distinct (map hi_ref (fst q))" and ok: "heap_ok (fst q)" using assms by (auto simp: ttl_inv_def heap_inv_def)
  have "hi_val x \<le> v'" if "timers (fst q) p' = Some v'" for p' v'
  proof -
    from that have "\<lparr>hi_val = v', hi_ref = p'\<rparr> \<in> set (fst q)" by (simp add: timers_iff [OF d])
    then obtain i where "i < length (fst q)" "fst q ! i = \<lparr>hi_val = v', hi_ref = p'\<rparr>" by (metis in_set_conv_nth)
    with heap_min [OF ok, of i] Cons show ?thesis by simp
  qed
  moreover have "timers (fst q) (hi_ref x) = Some (hi_val x)" using timers_nth [OF d, of 0] Cons by simp
  ultimately show ?thesis using Cons by (simp add: ttl_top_def)
qed

subsection \<open>The queue as its clients see it\<close>

text \<open>
  The contract the key space relies on: a map of deadlines, of which the top is the least. The
  lemmas derived from it are what the reaping loop of the server needs.
\<close>

definition due :: "(addr \<rightharpoonup> u64) \<Rightarrow> u64 \<Rightarrow> addr set" where
  "due d now = {p. \<exists>v. d p = Some v \<and> v \<le> now}"

locale deadline_queue =
  fixes inv :: "'q \<Rightarrow> bool"
    and live :: "'q \<Rightarrow> addr set"
    and room :: "'q \<Rightarrow> nat"
    and deadlines :: "'q \<Rightarrow> addr \<rightharpoonup> u64"
    and arm :: "'q \<Rightarrow> addr \<Rightarrow> u64 \<Rightarrow> 'q option"
    and disarm :: "'q \<Rightarrow> addr \<Rightarrow> 'q option"
    and top :: "'q \<Rightarrow> (addr \<times> u64) option"
  assumes arm_law: "inv q \<Longrightarrow> p \<in> live q \<Longrightarrow> 0 < room q \<Longrightarrow>
      \<exists>q'. arm q p v = Some q' \<and> inv q' \<and> deadlines q' = (deadlines q)(p \<mapsto> v) \<and> live q' = live q"
    and disarm_law: "inv q \<Longrightarrow> p \<in> live q \<Longrightarrow>
      \<exists>q'. disarm q p = Some q' \<and> inv q' \<and> deadlines q' = (deadlines q)(p := None) \<and> live q' = live q"
    and top_law: "inv q \<Longrightarrow>
      (case top q of None \<Rightarrow> deadlines q = Map.empty
       | Some (p, v) \<Rightarrow> deadlines q p = Some v \<and> (\<forall>p' v'. deadlines q p' = Some v' \<longrightarrow> v \<le> v'))"
    and deadlines_finite: "inv q \<Longrightarrow> finite (dom (deadlines q))"
    and deadlines_live: "inv q \<Longrightarrow> dom (deadlines q) \<subseteq> live q"
begin

lemma none_due: "inv q \<Longrightarrow> (case top q of None \<Rightarrow> True | Some (p, v) \<Rightarrow> now < v) \<longleftrightarrow> due (deadlines q) now = {}"
  using top_law [of q] by (force simp: due_def split: option.splits)

lemma top_due: "inv q \<Longrightarrow> top q = Some (p, v) \<Longrightarrow> v \<le> now \<Longrightarrow> p \<in> due (deadlines q) now"
  using top_law [of q] by (auto simp: due_def)

lemma disarm_due:
  assumes "inv q" and "p \<in> due (deadlines q) now"
  shows "\<exists>q'. disarm q p = Some q' \<and> inv q' \<and> live q' = live q \<and> deadlines q' = (deadlines q)(p := None) \<and>
    due (deadlines q') now = due (deadlines q) now - {p} \<and>
    card (due (deadlines q') now) < card (due (deadlines q) now)"
proof -
  from assms deadlines_live have "p \<in> live q" by (fastforce simp: due_def)
  from disarm_law [OF assms(1) this] obtain q' where q': "disarm q p = Some q'" "inv q'"
    "deadlines q' = (deadlines q)(p := None)" "live q' = live q" by blast
  have "due (deadlines q') now = due (deadlines q) now - {p}" using q'(3) by (auto simp: due_def)
  moreover have "finite (due (deadlines q) now)"
    using deadlines_finite [OF assms(1)] by (rule finite_subset [rotated]) (auto simp: due_def)
  ultimately have "due (deadlines q') now = due (deadlines q) now - {p}"
    "card (due (deadlines q') now) < card (due (deadlines q) now)"
    using card_Diff1_less [OF _ assms(2)] by simp_all
  with q' show ?thesis by blast
qed

end

definition ttl_live :: "timer_queue \<Rightarrow> addr set" where
  "ttl_live q = dom (snd q)"

definition ttl_room :: "timer_queue \<Rightarrow> nat" where
  "ttl_room q = npos - length (fst q)"

definition ttl_deadlines :: "timer_queue \<Rightarrow> addr \<rightharpoonup> u64" where
  "ttl_deadlines q = timers (fst q)"

lemmas ttl_view_defs = ttl_live_def ttl_room_def ttl_deadlines_def

interpretation tq: deadline_queue ttl_inv ttl_live ttl_room ttl_deadlines ttl_arm ttl_disarm ttl_top
proof
  fix q p v
  assume "ttl_inv q" "p \<in> ttl_live q" "0 < ttl_room q"
  then show "\<exists>q'. ttl_arm q p v = Some q' \<and> ttl_inv q' \<and> ttl_deadlines q' = (ttl_deadlines q)(p \<mapsto> v) \<and> ttl_live q' = ttl_live q"
    using ttl_arm_ok [of q p v] unfolding ttl_view_defs by auto
next
  fix q p
  assume "ttl_inv q" "p \<in> ttl_live q"
  then show "\<exists>q'. ttl_disarm q p = Some q' \<and> ttl_inv q' \<and> ttl_deadlines q' = (ttl_deadlines q)(p := None) \<and> ttl_live q' = ttl_live q"
    using ttl_disarm_ok [of q p] unfolding ttl_view_defs by auto
next
  fix q assume "ttl_inv q"
  then show "case ttl_top q of None \<Rightarrow> ttl_deadlines q = Map.empty
       | Some (p, v) \<Rightarrow> ttl_deadlines q p = Some v \<and> (\<forall>p' v'. ttl_deadlines q p' = Some v' \<longrightarrow> v \<le> v')"
    using ttl_top_ok [of q] unfolding ttl_view_defs by simp
next
  fix q assume "ttl_inv q"
  then show "finite (dom (ttl_deadlines q))" "dom (ttl_deadlines q) \<subseteq> ttl_live q"
    using timers_live [of q] unfolding ttl_view_defs by (simp_all add: dom_timers)
qed

subsection \<open>Properties\<close>

text \<open>C12: Setting a timer (\<open>heap_upsert\<close> at the entry's own index) succeeds for every live entry,
  whether it has a timer or not, and changes the map of deadlines at this entry only; the heap order and the
  back indexes of all entries hold again afterwards.\<close>

theorem ttl_arm_correct:
  assumes "ttl_inv q" and "p \<in> dom (snd q)" and "length (fst q) < 2 ^ 64 - 1"
  shows "\<exists>q'. ttl_arm q p v = Some q' \<and> ttl_inv q' \<and> timers (fst q') = (timers (fst q))(p \<mapsto> v) \<and>
    dom (snd q') = dom (snd q)"
  using ttl_arm_ok [of q p v] assms by (auto simp: npos_def)

lemma ttl_demo: "ttl_inv ([], [1 \<mapsto> npos, 2 \<mapsto> npos])"
  by (simp add: ttl_inv_def heap_inv_def heap_ok_def synced_def timers_def)

lemma ttl_demo_armed:
  "\<exists>q. ttl_arm ([], [1 \<mapsto> npos, 2 \<mapsto> npos]) 1 50 = Some q \<and> ttl_inv q \<and> timers (fst q) = [1 \<mapsto> 50] \<and> dom (snd q) = {1, 2}"
  using ttl_arm_ok [OF ttl_demo, of 1 50] by (auto simp: npos_def timers_def)

theorem ttl_arm_correct_witness:
  "\<exists>q. ttl_arm ([], [1 \<mapsto> npos, 2 \<mapsto> npos]) 1 50 = Some q \<and> timers (fst q) = [1 \<mapsto> 50]"
  using ttl_arm_correct [OF ttl_demo, of 1 50] by (auto simp: timers_def)

text \<open>Removing a timer deletes exactly this entry's item, resets its index to \<open>(size_t)-1\<close>
  and keeps the heap order and all other back indexes.\<close>

theorem ttl_disarm_correct:
  assumes "ttl_inv q" and "p \<in> dom (snd q)"
  shows "\<exists>q'. ttl_disarm q p = Some q' \<and> ttl_inv q' \<and> timers (fst q') = (timers (fst q))(p := None) \<and>
    dom (snd q') = dom (snd q) \<and> snd q' p = Some (2 ^ 64 - 1)"
  using ttl_disarm_ok [OF assms] by (auto simp: npos_def)

theorem ttl_disarm_correct_witness:
  "\<exists>q q'. ttl_arm ([], [1 \<mapsto> npos, 2 \<mapsto> npos]) 1 50 = Some q \<and> ttl_disarm q 1 = Some q' \<and>
     timers (fst q') = Map.empty \<and> snd q' 1 = Some (2 ^ 64 - 1)"
proof -
  from ttl_demo_armed obtain q where q: "ttl_arm ([], [1 \<mapsto> npos, 2 \<mapsto> npos]) 1 50 = Some q" "ttl_inv q"
    "timers (fst q) = [1 \<mapsto> 50]" "dom (snd q) = {1, 2}" by blast
  from ttl_disarm_correct [OF q(2), of 1] q(1,3,4) show ?thesis by auto
qed

end
