(* ===== verification/Database.thy ===== *)
theory Database
  imports ZSet_Refine Timer_Heap
begin

text \<open>
  The key space (\<open>include/store/entry.h\<close>, \<open>include/store/database.h\<close>, \<open>src/store/database.cpp\<close>)
  and the clock (\<open>include/common/clock.h\<close>).

  An \<open>Entry\<close> is one allocation; its members are kept in \<open>d_entries\<close>, except for \<open>heap_idx\<close>,
  which the timer heap writes through its back pointers and which therefore has a store of its
  own (\<open>d_idx\<close>) with the same addresses. \<open>new Entry\<close> takes a fresh address, \<open>delete\<close> removes
  it from both stores. The worker pool is the list of the tasks that were queued and not
  executed yet, of which the database only uses one kind, \<open>entry_del_task\<close> on an entry.

  \<open>clock_gettime\<close> belongs to the operating system: its successive results are a sequence, and the
  state records how many were read.
\<close>

subsection \<open>The clock\<close>

record timespec =
  tv_sec :: i64
  tv_nsec :: i64

record clock =
  readings :: "nat \<Rightarrow> timespec"
  n_read :: nat

definition msec :: "timespec \<Rightarrow> u64" where
  "msec tv = tv_sec tv * 1000 + tv_nsec tv div 1000 div 1000"

definition get_monotonic_msec :: "clock \<Rightarrow> u64 \<times> clock" where
  "get_monotonic_msec c = (msec (readings c (n_read c)), c\<lparr>n_read := n_read c + 1\<rparr>)"

subsection \<open>Entries and the database\<close>

datatype etype = T_STR | T_ZSET

record entry =
  e_hcode :: u64
  e_key :: string
  e_type :: etype
  e_str :: string
  e_zset :: zset

record db =
  d_map :: hmap
  d_ttl :: "heap_item list"
  d_pool :: "addr list option"
  d_entries :: "addr \<rightharpoonup> entry"
  d_idx :: idx_store
  d_fresh :: addr
  d_clock :: clock

definition db_init :: "clock \<Rightarrow> db" where
  "db_init c = \<lparr>d_map = hmap_empty, d_ttl = [], d_pool = None, d_entries = Map.empty, d_idx = Map.empty,
     d_fresh = 0, d_clock = c\<rparr>"

definition db_now :: "db \<Rightarrow> u64 \<times> db" where
  "db_now db = (let (now, c) = get_monotonic_msec (d_clock db) in (now, db\<lparr>d_clock := c\<rparr>))"

text \<open>\<open>new Entry()\<close> followed by the assignments to its members\<close>

definition entry_new :: "db \<Rightarrow> entry \<Rightarrow> db \<times> addr" where
  "entry_new db e =
     (let p = d_fresh db in
      (db\<lparr>d_fresh := p + 1, d_entries := (d_entries db)(p \<mapsto> e), d_idx := (d_idx db)(p \<mapsto> npos)\<rparr>, p))"

definition entry_free :: "db \<Rightarrow> addr \<Rightarrow> db option" where
  "entry_free db p =
     (if p \<in> dom (d_entries db)
      then Some (db\<lparr>d_entries := (d_entries db)(p := None), d_idx := (d_idx db)(p := None)\<rparr>)
      else None)"

text \<open>The comparison callback of the key space, with the probe's key.\<close>

definition entry_eq :: "db \<Rightarrow> string \<Rightarrow> addr \<Rightarrow> bool option" where
  "entry_eq db key p = map_option (\<lambda>e. e_key e = key) (d_entries db p)"

subsection \<open>Operations\<close>

definition entry_set_ttl :: "db \<Rightarrow> addr \<Rightarrow> int \<Rightarrow> db option" where
  "entry_set_ttl db ent ttl_ms =
     (if ttl_ms < 0 then do {
        (a, ix) \<leftarrow> ttl_disarm (d_ttl db, d_idx db) ent;
        Some (db\<lparr>d_ttl := a, d_idx := ix\<rparr>) }
      else do {
        let (now, db) = db_now db;
        let expire_at = now + word_of_int ttl_ms;
        (a, ix) \<leftarrow> ttl_arm (d_ttl db, d_idx db) ent expire_at;
        Some (db\<lparr>d_ttl := a, d_idx := ix\<rparr>) })"

definition entry_del_sync :: "db \<Rightarrow> addr \<Rightarrow> db option" where
  "entry_del_sync db ent = do {
     e \<leftarrow> d_entries db ent;
     db \<leftarrow> (if e_type e = T_ZSET then do {
              zs \<leftarrow> zset_clear (e_zset e);
              Some (db\<lparr>d_entries := (d_entries db)(ent \<mapsto> e\<lparr>e_zset := zs\<rparr>)\<rparr>) }
            else Some db);
     entry_free db ent
   }"

definition k_large_container_size :: nat where
  "k_large_container_size = 1000"

definition entry_del :: "db \<Rightarrow> addr \<Rightarrow> db option" where
  "entry_del db ent = do {
     db \<leftarrow> entry_set_ttl db ent (- 1);
     e \<leftarrow> d_entries db ent;
     let set_size = (if e_type e = T_ZSET then hm_size (z_hmap (e_zset e)) else 0);
     (case d_pool db of
        Some q \<Rightarrow>
          if set_size > k_large_container_size then Some (db\<lparr>d_pool := Some (q @ [ent])\<rparr>)
          else entry_del_sync db ent
      | None \<Rightarrow> entry_del_sync db ent)
   }"

text \<open>A worker takes a queued task (at any later time) and runs it.\<close>

definition worker_step :: "db \<Rightarrow> addr \<Rightarrow> db option" where
  "worker_step db ent =
     (case d_pool db of
        Some q \<Rightarrow> if ent \<in> set q then entry_del_sync (db\<lparr>d_pool := Some (remove1 ent q)\<rparr>) ent else None
      | None \<Rightarrow> None)"

end
