(* ===== verification/Number_Parse.thy ===== *)
theory Number_Parse
  imports Double "HOL-Library.Log_Nat"
begin

text \<open>
  The character and number functions of the C library that the command handlers use, and the
  parsers \<open>str2int\<close>, \<open>str2dbl\<close> and \<open>to_upper\<close> built on them (\<open>src/server/command.cpp\<close>).

  The locale is \<open>"C"\<close> (the server never calls \<open>setlocale\<close>). \<open>strtoll\<close> and \<open>strtod\<close> return the
  value and the unread rest of the string, which is what \<open>*end\<close> points to. A C string ends at
  its first NUL; the parsers see a \<open>std::string\<close> through \<open>c_str\<close>, so only up to that character.
  \<open>strtod\<close> rounds the exact rational value to the nearest double, ties to even. The payload of a
  NaN is left to the implementation by the C standard; the parser rejects every NaN.
\<close>

subsection \<open>Characters\<close>

definition code :: "char \<Rightarrow> nat" where
  "code c = of_char c"

definition isspace :: "char \<Rightarrow> bool" where
  "isspace c \<longleftrightarrow> code c = 32 \<or> 9 \<le> code c \<and> code c \<le> 13"

definition isdigit :: "char \<Rightarrow> bool" where
  "isdigit c \<longleftrightarrow> 48 \<le> code c \<and> code c \<le> 57"

definition toupper :: "char \<Rightarrow> char" where
  "toupper c = (if 97 \<le> code c \<and> code c \<le> 122 then char_of (code c - 32) else c)"

definition isxdigit :: "char \<Rightarrow> bool" where
  "isxdigit c \<longleftrightarrow> isdigit c \<or> 65 \<le> code (toupper c) \<and> code (toupper c) \<le> 70"

definition digit_val :: "char \<Rightarrow> nat" where
  "digit_val c = (if isdigit c then code c - 48 else code (toupper c) - 55)"

definition digits_val :: "nat \<Rightarrow> string \<Rightarrow> nat" where
  "digits_val base = foldl (\<lambda>n c. n * base + digit_val c) 0"

definition to_upper :: "string \<Rightarrow> string" where
  "to_upper s = map toupper s"

definition c_str :: "string \<Rightarrow> string" where
  "c_str s = takeWhile (\<lambda>c. code c \<noteq> 0) s"

fun sign :: "string \<Rightarrow> bool \<times> string" where
  "sign [] = (False, [])"
| "sign (c # u) = (if c = CHR ''-'' then (True, u) else if c = CHR ''+'' then (False, u) else (False, c # u))"

definition has_prefix :: "string \<Rightarrow> string \<Rightarrow> bool" where
  "has_prefix pat u \<longleftrightarrow> map toupper (take (length pat) u) = pat"

subsection \<open>Integers\<close>

definition clamp_i64 :: "int \<Rightarrow> int" where
  "clamp_i64 z = max (- (2 ^ 63)) (min (2 ^ 63 - 1) z)"

definition strtoll :: "string \<Rightarrow> int \<times> string" where
  "strtoll s =
     (let (neg, u) = sign (dropWhile isspace s);
          ds = takeWhile isdigit u;
          n = int (digits_val 10 ds)
      in if ds = [] then (0, s) else (clamp_i64 (if neg then - n else n), dropWhile isdigit u))"

definition str2int :: "string \<Rightarrow> int option" where
  "str2int s =
     (if s = [] then None
      else let (out, end) = strtoll (c_str s) in if end = [] then Some out else None)"

subsection \<open>Floating-point numbers\<close>

text \<open>The largest \<open>k\<close> with \<open>2^k \<le> n/d\<close>, from the bit lengths of \<open>n\<close> and \<open>d\<close>.\<close>

definition ratio_log :: "nat \<Rightarrow> nat \<Rightarrow> int" where
  "ratio_log n d =
     (let k = int (floorlog 2 n) - int (floorlog 2 d)
      in if n * 2 ^ nat (- k) < d * 2 ^ nat k then k - 1 else k)"

definition div_half_even :: "nat \<Rightarrow> nat \<Rightarrow> nat" where
  "div_half_even n d =
     (let q = n div d; r = n mod d in if 2 * r > d \<or> 2 * r = d \<and> odd q then q + 1 else q)"

text \<open>With \<open>e\<close> the exponent of the last place, the pattern of \<open>q * 2^e\<close> is \<open>(e + 1074) * 2^52 + q\<close>,
  for normal and subnormal numbers alike and also when rounding carries into the next binade.\<close>

definition round_dbl :: "nat \<Rightarrow> nat \<Rightarrow> nat" where
  "round_dbl n d =
     (if n = 0 then 0
      else let e = max (- 1074) (ratio_log n d - 52);
               q = div_half_even (n * 2 ^ nat (- e)) (d * 2 ^ nat e)
           in min (nat (e + 1074) * 2 ^ 52 + q) (2047 * 2 ^ 52))"

definition scaled :: "nat \<Rightarrow> nat \<Rightarrow> int \<Rightarrow> nat" where
  "scaled base n ex = round_dbl (n * base ^ nat ex) (base ^ nat (- ex))"

definition mantissa :: "(char \<Rightarrow> bool) \<Rightarrow> string \<Rightarrow> string \<times> string \<times> string" where
  "mantissa isd u =
     (let ip = takeWhile isd u; u1 = dropWhile isd u
      in if u1 \<noteq> [] \<and> hd u1 = CHR ''.'' then (ip, takeWhile isd (tl u1), dropWhile isd (tl u1))
         else (ip, [], u1))"

definition exponent :: "char \<Rightarrow> string \<Rightarrow> int \<times> string" where
  "exponent ec u =
     (if u \<noteq> [] \<and> toupper (hd u) = ec
      then let (neg, v) = sign (tl u); ds = takeWhile isdigit v; n = int (digits_val 10 ds)
           in if ds = [] then (0, u) else (if neg then - n else n, dropWhile isdigit v)
      else (0, u))"

definition strtod_hex :: "string \<Rightarrow> (nat \<times> string) option" where
  "strtod_hex u =
     (let (ip, fp, v) = mantissa isxdigit u
      in if ip @ fp = [] then None
         else let (ex, w) = exponent (CHR ''P'') v
              in Some (scaled 2 (digits_val 16 (ip @ fp)) (ex - 4 * int (length fp)), w))"

definition strtod_dec :: "string \<Rightarrow> (nat \<times> string) option" where
  "strtod_dec u =
     (let (ip, fp, v) = mantissa isdigit u
      in if ip @ fp = [] then None
         else let (ex, w) = exponent (CHR ''E'') v
              in Some (scaled 10 (digits_val 10 (ip @ fp)) (ex - int (length fp)), w))"

text \<open>After \<open>nan\<close>, an optional sequence in parentheses is read, if it is well formed.\<close>

definition isnchar :: "char \<Rightarrow> bool" where
  "isnchar c \<longleftrightarrow> isdigit c \<or> 65 \<le> code (toupper c) \<and> code (toupper c) \<le> 90 \<or> c = CHR ''_''"

definition strtod_nan :: "string \<Rightarrow> string" where
  "strtod_nan u =
     (if u \<noteq> [] \<and> hd u = CHR ''('' then
        let v = dropWhile isnchar (tl u) in if v \<noteq> [] \<and> hd v = CHR '')'' then tl v else u
      else u)"

definition strtod_mag :: "string \<Rightarrow> (nat \<times> string) option" where
  "strtod_mag u =
     (if has_prefix ''INFINITY'' u then Some (2047 * 2 ^ 52, drop 8 u)
      else if has_prefix ''INF'' u then Some (2047 * 2 ^ 52, drop 3 u)
      else if has_prefix ''NAN'' u then Some (2047 * 2 ^ 52 + 2 ^ 51, strtod_nan (drop 3 u))
      else if has_prefix ''0X'' u then
        (case strtod_hex (drop 2 u) of Some r \<Rightarrow> Some r | None \<Rightarrow> strtod_dec u)
      else strtod_dec u)"

definition strtod :: "string \<Rightarrow> dbl \<times> string" where
  "strtod s =
     (let (neg, u) = sign (dropWhile isspace s)
      in case strtod_mag u of
           None \<Rightarrow> (0, s)
         | Some (m, r) \<Rightarrow> (if neg then word_of_nat m OR push_bit 63 1 else word_of_nat m, r))"

definition str2dbl :: "string \<Rightarrow> dbl option" where
  "str2dbl s =
     (if s = [] then None
      else let (out, end) = strtod (c_str s) in if end = [] \<and> \<not> is_nan out then Some out else None)"

subsection \<open>What the integer parser accepts\<close>

lemma digit_not_space: "isdigit c \<Longrightarrow> \<not> isspace c" "isdigit c \<Longrightarrow> c \<noteq> CHR ''-'' \<and> c \<noteq> CHR ''+''" "isdigit c \<Longrightarrow> code c \<noteq> 0"
  by (auto simp: isdigit_def isspace_def code_def)

lemma sign_digits:
  assumes "sg \<in> {[], ''+'', ''-''}" and "ds \<noteq> []" and "\<forall>c \<in> set ds. isdigit c"
  shows "sign (sg @ ds) = (sg = ''-'', ds)" and "\<not> isspace (hd (sg @ ds))"
proof -
  obtain d ds' where "ds = d # ds'" using assms(2) by (cases ds) auto
  then show "sign (sg @ ds) = (sg = ''-'', ds)" "\<not> isspace (hd (sg @ ds))"
    using assms(1,3) digit_not_space [of d] by (auto simp: isspace_def code_def)
qed

lemma sign_split: "sign u = (neg, v) \<Longrightarrow> \<exists>sg \<in> {[], ''+'', ''-''}. u = sg @ v \<and> neg = (sg = ''-'')"
  by (cases u) (auto split: if_splits)

lemma strtoll_all:
  "strtoll t = (z, []) \<longleftrightarrow> t = [] \<and> z = 0 \<or>
     (\<exists>ws sg ds. t = ws @ sg @ ds \<and> (\<forall>c \<in> set ws. isspace c) \<and> sg \<in> {[], ''+'', ''-''} \<and>
        ds \<noteq> [] \<and> (\<forall>c \<in> set ds. isdigit c) \<and>
        z = clamp_i64 (if sg = ''-'' then - int (digits_val 10 ds) else int (digits_val 10 ds)))"
  (is "?L \<longleftrightarrow> ?E \<or> (\<exists>ws sg ds. ?R ws sg ds)")
proof
  assume L: ?L
  obtain neg u where u: "sign (dropWhile isspace t) = (neg, u)" by (metis surj_pair)
  from sign_split [OF u] obtain sg where sg: "sg \<in> {[], ''+'', ''-''}" "dropWhile isspace t = sg @ u" "neg = (sg = ''-'')" by blast
  show "?E \<or> (\<exists>ws sg ds. ?R ws sg ds)"
  proof (cases "takeWhile isdigit u = []")
    case True
    with L u show ?thesis by (auto simp: strtoll_def)
  next
    case False
    with L u have e: "dropWhile isdigit u = []"
      and z: "z = clamp_i64 (if neg then - int (digits_val 10 (takeWhile isdigit u)) else int (digits_val 10 (takeWhile isdigit u)))"
      by (simp_all add: strtoll_def Let_def)
    from e have d: "takeWhile isdigit u = u" "\<forall>c \<in> set u. isdigit c"
      using takeWhile_dropWhile_id [of isdigit u] by (simp_all add: dropWhile_eq_Nil_conv)
    obtain ws where "t = ws @ sg @ u" "\<forall>c \<in> set ws. isspace c"
      using sg(2) takeWhile_dropWhile_id [of isspace t] by (metis set_takeWhileD)
    then have "?R ws sg u" using sg(1,3) d(2) z [unfolded d(1)] False [unfolded d(1)] by blast
    then show ?thesis by blast
  qed
next
  assume "?E \<or> (\<exists>ws sg ds. ?R ws sg ds)"
  then show ?L
  proof
    assume ?E
    then show ?L by (simp add: strtoll_def)
  next
    assume "\<exists>ws sg ds. ?R ws sg ds"
    then obtain ws sg ds where R: "?R ws sg ds" by blast
    then have s: "sign (sg @ ds) = (sg = ''-'', ds)" "\<not> isspace (hd (sg @ ds))" "sg @ ds \<noteq> []" by (auto simp: sign_digits)
    from s(2,3) have "dropWhile isspace (sg @ ds) = sg @ ds" by (cases "sg @ ds") auto
    then have dw: "dropWhile isspace t = sg @ ds" using R by (simp add: dropWhile_append2)
    have td: "takeWhile isdigit ds = ds" and dd: "dropWhile isdigit ds = []" using R by (simp_all add: takeWhile_eq_all_conv)
    show ?L unfolding strtoll_def Let_def dw s(1) case_prod_conv td dd using R by simp
  qed
qed

lemma clamp_i64_id [simp]: "- (2 ^ 63) \<le> z \<Longrightarrow> z < 2 ^ 63 \<Longrightarrow> clamp_i64 z = z"
  by (simp add: clamp_i64_def)

lemma clamp_i64_range: "- (2 ^ 63) \<le> clamp_i64 z" "clamp_i64 z < 2 ^ 63"
  by (simp_all add: clamp_i64_def)

lemma str2int_range:
  assumes "str2int s = Some z"
  shows "- (2 ^ 63) \<le> z" and "z < 2 ^ 63"
  using assms clamp_i64_range by (auto simp: str2int_def strtoll_def Let_def split: if_splits prod.splits)

lemma str2dbl_not_nan: "str2dbl s = Some x \<Longrightarrow> \<not> is_nan x"
  by (auto simp: str2dbl_def split: if_splits prod.splits)

text \<open>The decimal notation of an integer.\<close>

fun dec_nat :: "nat \<Rightarrow> string" where
  "dec_nat n = (if n < 10 then [char_of (48 + n)] else dec_nat (n div 10) @ [char_of (48 + n mod 10)])"

declare dec_nat.simps [simp del]

definition dec_int :: "int \<Rightarrow> string" where
  "dec_int z = (if z < 0 then CHR ''-'' # dec_nat (nat (- z)) else dec_nat (nat z))"

lemma isdigit_char_of [simp]: "n < 10 \<Longrightarrow> isdigit (char_of (48 + n))" "n < 10 \<Longrightarrow> digit_val (char_of (48 + n)) = n"
  by (simp_all add: isdigit_def digit_val_def code_def of_char_of)

lemma dec_nat_digits: "dec_nat n \<noteq> []" "c \<in> set (dec_nat n) \<Longrightarrow> isdigit c"
proof -
  show "dec_nat n \<noteq> []" by (subst dec_nat.simps) simp
  show "c \<in> set (dec_nat n) \<Longrightarrow> isdigit c"
  proof (induction n rule: dec_nat.induct)
    case (1 n)
    then show ?case using dec_nat.simps [of n] by (cases "n < 10") auto
  qed
qed

lemma dec_nat_val: "digits_val 10 (dec_nat n) = n"
proof (induction n rule: dec_nat.induct)
  case (1 n)
  show ?case
  proof (cases "n < 10")
    case True
    then show ?thesis by (subst dec_nat.simps) (simp add: digits_val_def)
  next
    case False
    have "digits_val 10 (dec_nat n) = digits_val 10 (dec_nat (n div 10)) * 10 + n mod 10"
      by (subst dec_nat.simps) (simp add: digits_val_def False)
    with 1 False show ?thesis by simp
  qed
qed

lemma c_str_id: "\<forall>c \<in> set s. code c \<noteq> 0 \<Longrightarrow> c_str s = s"
  by (simp add: c_str_def takeWhile_eq_all_conv)

subsection \<open>Properties\<close>

text \<open>C39: \<open>str2int\<close> accepts exactly the strings whose part before the first NUL is white space, an
  optional sign and at least one decimal digit, or is empty (a string that starts with NUL, read
  as 0); the value is the number written there, saturated to the range of \<open>int64_t\<close>.\<close>

theorem str2int_exact:
  "str2int s = Some z \<longleftrightarrow> s \<noteq> [] \<and>
     (c_str s = [] \<and> z = 0 \<or>
      (\<exists>ws sg ds. c_str s = ws @ sg @ ds \<and> (\<forall>c \<in> set ws. isspace c) \<and> sg \<in> {[], ''+'', ''-''} \<and>
        ds \<noteq> [] \<and> (\<forall>c \<in> set ds. isdigit c) \<and>
        z = clamp_i64 (if sg = ''-'' then - int (digits_val 10 ds) else int (digits_val 10 ds))))"
proof -
  have "str2int s = Some z \<longleftrightarrow> s \<noteq> [] \<and> strtoll (c_str s) = (z, [])"
    by (auto simp: str2int_def split: prod.splits)
  then show ?thesis by (simp only: strtoll_all)
qed

theorem str2int_exact_witness:
  "str2int '' -12'' = Some (- 12) \<and> str2int (''7'' @ [char_of (0 :: nat)] @ ''x'') = Some 7"
proof
  have a: "c_str '' -12'' = '' '' @ ''-'' @ ''12''" by (simp add: c_str_def code_def)
  have "digits_val 10 ''12'' = 12" by (simp add: digits_val_def digit_val_def isdigit_def code_def)
  then have "\<exists>ws sg ds. c_str '' -12'' = ws @ sg @ ds \<and> (\<forall>c \<in> set ws. isspace c) \<and> sg \<in> {[], ''+'', ''-''} \<and>
      ds \<noteq> [] \<and> (\<forall>c \<in> set ds. isdigit c) \<and>
      - 12 = clamp_i64 (if sg = ''-'' then - int (digits_val 10 ds) else int (digits_val 10 ds))"
    by (intro exI [of _ "'' ''"] exI [of _ "''-''"] exI [of _ "''12''"]) (unfold a, simp add: isspace_def isdigit_def code_def)
  then show "str2int '' -12'' = Some (- 12)" using str2int_exact [of "'' -12''" "- 12"] by blast
  have a: "c_str (''7'' @ [char_of (0 :: nat)] @ ''x'') = [] @ [] @ ''7''" by (simp add: c_str_def code_def)
  have "digits_val 10 ''7'' = 7" by (simp add: digits_val_def digit_val_def isdigit_def code_def)
  then have "\<exists>ws sg ds. c_str (''7'' @ [char_of (0 :: nat)] @ ''x'') = ws @ sg @ ds \<and> (\<forall>c \<in> set ws. isspace c) \<and> sg \<in> {[], ''+'', ''-''} \<and>
      ds \<noteq> [] \<and> (\<forall>c \<in> set ds. isdigit c) \<and>
      7 = clamp_i64 (if sg = ''-'' then - int (digits_val 10 ds) else int (digits_val 10 ds))"
    by (intro exI [of _ "[]"] exI [of _ "[]"] exI [of _ "''7''"]) (unfold a, simp add: isdigit_def code_def)
  then show "str2int (''7'' @ [char_of (0 :: nat)] @ ''x'') = Some 7"
    using str2int_exact [of "''7'' @ [char_of (0 :: nat)] @ ''x''" 7] by blast
qed

text \<open>Every \<open>int64_t\<close> is read back exactly from its decimal notation.\<close>

lemma str2int_dec_int:
  assumes "- (2 ^ 63) \<le> z" and "z < 2 ^ 63"
  shows "str2int (dec_int z) = Some z"
proof -
  let ?sg = "if z < 0 then ''-'' else []" and ?ds = "dec_nat (nat \<bar>z\<bar>)"
  have eq: "dec_int z = ?sg @ ?ds" by (simp add: dec_int_def)
  have "\<forall>c \<in> set (dec_int z). code c \<noteq> 0"
    unfolding eq using dec_nat_digits(2) digit_not_space(3) by (auto simp: code_def)
  then have c: "c_str (dec_int z) = [] @ ?sg @ ?ds" using eq c_str_id by simp
  have "strtoll (c_str (dec_int z)) = (z, [])"
    unfolding strtoll_all
    by (rule disjI2, intro exI [of _ "[]"] exI [of _ ?sg] exI [of _ ?ds])
      (use c assms dec_nat_digits in \<open>auto simp: dec_nat_val\<close>)
  moreover have "dec_int z \<noteq> []" using dec_nat_digits(1) by (simp add: dec_int_def)
  ultimately show ?thesis by (simp add: str2int_def)
qed

end
