(* ===== verification/Wire.thy ===== *)
theory Wire
  imports Prelude
begin

text \<open>
  The request side of the wire protocol (\<open>include/protocol/wire.h\<close>,
  \<open>src/protocol/wire.cpp\<close>): little-endian 32-bit integers, the frame size limit and
  the bounds-checked request parser \<open>parse_req\<close>. A read position \<open>data\<close> with its end
  pointer \<open>end\<close> is the list of the bytes between them, so \<open>data + k > end\<close> is
  \<open>length data < k\<close> and advancing the pointer is \<open>drop\<close>. Reads are checked: a read
  past \<open>end\<close> is \<open>None\<close>.
\<close>

definition MAX_MSG :: nat where
  "MAX_MSG = 32 * 1024"

definition k_max_args :: nat where
  "k_max_args = 200 * 1000"

subsection \<open>Operations\<close>

definition write_u32 :: "u32 \<Rightarrow> byte list" where
  "write_u32 v = le_bytes 4 v"

definition read_u32 :: "byte list \<Rightarrow> u32 option" where
  "read_u32 p = (if 4 \<le> length p then Some (le_word (take 4 p)) else None)"

definition read_chars :: "byte list \<Rightarrow> nat \<Rightarrow> string option" where
  "read_chars p len = (if len \<le> length p then Some (map char_of_byte (take len p)) else None)"

text \<open>The loop of \<open>parse_req\<close> and the check for trailing bytes after it.\<close>

function parse_args :: "nat \<Rightarrow> byte list \<Rightarrow> string list \<Rightarrow> (int \<times> string list) option" where
  "parse_args nstr data out =
     (if length out < nstr then
        if length data < 4 then Some (-1, out)
        else do {
          len \<leftarrow> read_u32 data;
          let data = drop 4 data;
          if length data < unat len then Some (-1, out)
          else do {
            s \<leftarrow> read_chars data (unat len);
            parse_args nstr (drop (unat len) data) (out @ [s])
          }
        }
      else if data \<noteq> [] then Some (-1, out)
      else Some (0, out))"
  by pat_completeness auto
termination
  by (relation "measure (\<lambda>(nstr, data, out). nstr - length out)") auto

declare parse_args.simps [simp del]

definition parse_req :: "byte list \<Rightarrow> string list \<Rightarrow> (int \<times> string list) option" where
  "parse_req data out =
     (if length data < 4 then Some (-1, out)
      else do {
        nstr \<leftarrow> read_u32 data;
        let data = drop 4 data;
        if unat nstr > k_max_args then Some (-1, out)
        else parse_args (unat nstr) data out
      })"

subsection \<open>Codecs of the protocol's integers and strings\<close>

definition dec_u32 :: "byte list \<Rightarrow> (u32 \<times> byte list) option" where
  "dec_u32 bs = map_option (\<lambda>v. (v, drop 4 bs)) (read_u32 bs)"

definition enc_str :: "string \<Rightarrow> byte list" where
  "enc_str s = write_u32 (of_nat (length s)) @ map byte_of_char s"

definition dec_str :: "byte list \<Rightarrow> (string \<times> byte list) option" where
  "dec_str bs = do {
     (len, bs') \<leftarrow> dec_u32 bs;
     s \<leftarrow> read_chars bs' (unat len);
     Some (s, drop (unat len) bs')
   }"

definition u32_sized :: "'a list \<Rightarrow> bool" where
  "u32_sized xs \<longleftrightarrow> length xs < 2 ^ 32"

lemma length_write_u32 [simp]: "length (write_u32 v) = 4"
  by (simp add: write_u32_def)

lemma read_write_u32 [simp]: "read_u32 (write_u32 v @ rest) = Some v"
  by (simp add: read_u32_def write_u32_def le_word_bytes)

lemma read_write_u32' [simp]: "read_u32 (write_u32 v) = Some v"
  using read_write_u32 [of v "[]"] by simp

lemma read_u32_eq_Some_iff: "read_u32 p = Some v \<longleftrightarrow> (\<exists>rest. p = write_u32 v @ rest)"
proof
  assume "read_u32 p = Some v"
  then have "4 \<le> length p" and "v = le_word (take 4 p)"
    by (auto simp: read_u32_def split: if_splits)
  then have "p = write_u32 v @ drop 4 p"
    by (simp add: write_u32_def le_bytes_word_take)
  then show "\<exists>rest. p = write_u32 v @ rest" ..
qed auto

lemma unat_of_nat_u32: "n < 2 ^ 32 \<Longrightarrow> unat (of_nat n :: u32) = n"
  by (simp add: unat_of_nat)

interpretation u32: codec write_u32 dec_u32 "\<lambda>_. True"
  by unfold_locales (auto simp: dec_u32_def read_u32_eq_Some_iff)

lemma read_chars_map [simp]:
  "read_chars (map byte_of_char s @ rest) (length s) = Some s"
  by (simp add: read_chars_def)

interpretation str: codec enc_str dec_str u32_sized
proof
  fix x :: string and rest
  assume "u32_sized x"
  then show "dec_str (enc_str x @ rest) = Some (x, rest)"
    by (simp add: dec_str_def enc_str_def u32.dec_enc u32_sized_def unat_of_nat_u32)
next
  fix bs x rest
  assume "dec_str bs = Some (x, rest)"
  then obtain len bs' where bs: "bs = write_u32 len @ bs'" and len: "unat len \<le> length bs'"
    and x: "x = map char_of_byte (take (unat len) bs')" and rest: "rest = drop (unat len) bs'"
    by (auto simp: dec_str_def u32.dec_iff read_chars_def split: if_splits bind_splits)
  have "length x = unat len" using x len by simp
  moreover have "map byte_of_char x = take (unat len) bs'" using x by (simp add: comp_def)
  moreover have "unat len < 2 ^ 32" using unsigned_less [of len] by simp
  ultimately show "u32_sized x \<and> bs = enc_str x @ rest"
    using bs rest by (simp add: enc_str_def u32_sized_def)
qed

subsection \<open>The request parser\<close>

lemma parse_args_step:
  "length out < nstr \<Longrightarrow>
     parse_args nstr data out =
       (case dec_str data of None \<Rightarrow> Some (-1, out)
        | Some (s, data') \<Rightarrow> parse_args nstr data' (out @ [s]))"
  by (subst parse_args.simps)
     (auto simp: dec_str_def dec_u32_def read_u32_def read_chars_def Let_def)

lemma parse_args_stop:
  "\<not> length out < nstr \<Longrightarrow> parse_args nstr data out = Some (if data = [] then 0 else -1, out)"
  by (subst parse_args.simps) simp

lemma parse_args_total:
  "\<exists>rc res. parse_args nstr data out = Some (rc, res) \<and> (rc = 0 \<or> rc = -1)"
proof (induction "nstr - length out" arbitrary: data out)
  case 0
  then show ?case by (simp add: parse_args_stop)
next
  case (Suc n)
  then have "length out < nstr" by simp
  then show ?case
    using Suc by (auto simp: parse_args_step split: option.splits)
qed

lemma parse_args_ok_iff:
  "parse_args nstr data out = Some (0, res) \<longleftrightarrow>
     (\<exists>xs. res = out @ xs \<and> dec_n dec_str (nstr - length out) data = Some (xs, []))"
proof (induction "nstr - length out" arbitrary: data out)
  case 0
  then show ?case by (auto simp: parse_args_stop)
next
  case (Suc n)
  then have lt: "length out < nstr" and n: "n = nstr - length (out @ [s])" for s by auto
  from lt obtain m where m: "nstr - length out = Suc m" and m': "nstr - Suc (length out) = m"
    by (metis Suc_diff_Suc)
  show ?case
  proof (cases "dec_str data")
    case None
    then show ?thesis using lt m by (simp add: parse_args_step)
  next
    case (Some sd)
    then obtain s d where sd: "dec_str data = Some (s, d)" by (cases sd) auto
    have IH: "parse_args nstr d (out @ [s]) = Some (0, res) \<longleftrightarrow>
        (\<exists>xs. res = (out @ [s]) @ xs \<and> dec_n dec_str (nstr - length (out @ [s])) d = Some (xs, []))"
      using Suc.hyps(1) [OF n [of s]] by simp
    then show ?thesis
      using lt m m' sd by (auto simp: parse_args_step split: option.splits)
  qed
qed

lemma parse_req_total:
  "\<exists>rc res. parse_req data out = Some (rc, res) \<and> (rc = 0 \<or> rc = -1)"
  using parse_args_total by (auto simp: parse_req_def read_u32_def Let_def)

lemma parse_req_ok_iff:
  "parse_req data [] = Some (0, args) \<longleftrightarrow>
     length args \<le> k_max_args \<and> (\<forall>a \<in> set args. u32_sized a) \<and>
     data = write_u32 (of_nat (length args)) @ concat (map enc_str args)"
proof
  assume "parse_req data [] = Some (0, args)"
  then obtain n rest where data: "data = write_u32 n @ rest" and n: "unat n \<le> k_max_args"
    and "dec_n dec_str (unat n) rest = Some (args, [])"
    by (auto simp: parse_req_def read_u32_eq_Some_iff parse_args_ok_iff Let_def
        split: if_splits bind_splits)
  with str.dec_n_sound [of "unat n" rest args "[]"] show
    "length args \<le> k_max_args \<and> (\<forall>a \<in> set args. u32_sized a) \<and>
     data = write_u32 (of_nat (length args)) @ concat (map enc_str args)"
    by auto
next
  assume a: "length args \<le> k_max_args \<and> (\<forall>a \<in> set args. u32_sized a) \<and>
     data = write_u32 (of_nat (length args)) @ concat (map enc_str args)"
  then have len: "unat (of_nat (length args) :: u32) = length args"
    by (intro unat_of_nat_u32) (simp add: k_max_args_def)
  from a str.dec_n_enc [of args "[]"] show "parse_req data [] = Some (0, args)"
    by (simp add: parse_req_def parse_args_ok_iff len)
qed

subsection \<open>Properties\<close>

text \<open>C26: Parsing any byte sequence returns 0 or -1: no read of the parser goes past the end of
  the request body, whatever lengths the frame claims, and the loop ends. The parser accepts
  exactly the well-formed request bodies: it returns 0 with the arguments \<open>args\<close> if and only
  if the body is the argument count followed by the length-prefixed arguments, with nothing
  after them and no more than the permitted number of arguments.\<close>

theorem parse_req_exact:
  "(\<exists>rc res. parse_req data [] = Some (rc, res) \<and> (rc = 0 \<or> rc = -1)) \<and>
   (parse_req data [] = Some (0, args) \<longleftrightarrow>
     length args \<le> k_max_args \<and> (\<forall>a \<in> set args. u32_sized a) \<and>
     data = write_u32 (of_nat (length args)) @ concat (map enc_str args))"
  by (intro conjI parse_req_total parse_req_ok_iff)

theorem parse_req_exact_witness:
  "parse_req ([2, 0, 0, 0, 1, 0, 0, 0, 65, 0, 0, 0, 0] :: byte list) [] = Some (0, [''A'', []])"
proof -
  have "[2, 0, 0, 0, 1, 0, 0, 0, 65, 0, 0, 0, 0 :: byte] =
      write_u32 (of_nat (length [''A'', []])) @ concat (map enc_str [''A'', []])"
    by code_simp
  moreover have "\<forall>a \<in> set [''A'', []]. u32_sized a"
    by (simp add: u32_sized_def)
  ultimately show ?thesis
    using parse_req_exact [of "[2, 0, 0, 0, 1, 0, 0, 0, 65, 0, 0, 0, 0]" "[''A'', []]"]
    by (simp add: k_max_args_def)
qed

end
