(* ===== verification/Serialize.thy ===== *)
theory Serialize
  imports Wire
begin

text \<open>
  The reply side of the wire protocol (\<open>include/protocol/serialize.h\<close>,
  \<open>src/protocol/serialize.cpp\<close>): typed values appended to a response buffer. The
  buffer argument \<open>std::vector<uint8_t>& out\<close> is passed and returned. A \<open>double\<close> is its
  64-bit pattern, which is all that \<open>memcpy\<close> sees of it.

  Each appender is shown to append the encoding of one abstract reply value, and the
  encoding is shown to be a codec: every reply can be read back uniquely.
\<close>

definition SER_NIL :: u8 where "SER_NIL = 0"
definition SER_ERR :: u8 where "SER_ERR = 1"
definition SER_STR :: u8 where "SER_STR = 2"
definition SER_INT :: u8 where "SER_INT = 3"
definition SER_DBL :: u8 where "SER_DBL = 4"
definition SER_ARR :: u8 where "SER_ARR = 5"

lemmas ser_tags = SER_NIL_def SER_ERR_def SER_STR_def SER_INT_def SER_DBL_def SER_ARR_def

definition ERR_UNKNOWN :: u32 where "ERR_UNKNOWN = 1"
definition ERR_ARG :: u32 where "ERR_ARG = 2"
definition ERR_TYPE :: u32 where "ERR_TYPE = 3"

subsection \<open>Appenders\<close>

definition put_u8 :: "byte list \<Rightarrow> u8 \<Rightarrow> byte list" where
  "put_u8 out v = out @ [v]"

definition put_u32 :: "byte list \<Rightarrow> u32 \<Rightarrow> byte list" where
  "put_u32 out v = out @ le_bytes 4 v"

definition put_i64 :: "byte list \<Rightarrow> i64 \<Rightarrow> byte list" where
  "put_i64 out v = out @ le_bytes 8 v"

definition put_f64 :: "byte list \<Rightarrow> u64 \<Rightarrow> byte list" where
  "put_f64 out v = out @ le_bytes 8 v"

definition out_nil :: "byte list \<Rightarrow> byte list" where
  "out_nil out = put_u8 out SER_NIL"

definition out_str :: "byte list \<Rightarrow> string \<Rightarrow> byte list" where
  "out_str out s = put_u32 (put_u8 out SER_STR) (of_nat (length s)) @ map byte_of_char s"

definition out_int :: "byte list \<Rightarrow> i64 \<Rightarrow> byte list" where
  "out_int out x = put_i64 (put_u8 out SER_INT) x"

definition out_dbl :: "byte list \<Rightarrow> u64 \<Rightarrow> byte list" where
  "out_dbl out x = put_f64 (put_u8 out SER_DBL) x"

definition out_err :: "byte list \<Rightarrow> u32 \<Rightarrow> string \<Rightarrow> byte list" where
  "out_err out code msg =
     put_u32 (put_u32 (put_u8 out SER_ERR) code) (of_nat (length msg)) @ map byte_of_char msg"

definition out_arr :: "byte list \<Rightarrow> u32 \<Rightarrow> byte list" where
  "out_arr out n = put_u32 (put_u8 out SER_ARR) n"

definition out_begin_arr :: "byte list \<Rightarrow> byte list \<times> nat" where
  "out_begin_arr out = (let out = put_u32 (put_u8 out SER_ARR) 0 in (out, length out - 4))"

text \<open>
  \<open>memcpy(&out[ctx], &n, 4)\<close> overwrites four bytes that must exist; the \<open>assert\<close> reads
  \<open>out[ctx - 1]\<close>.
\<close>

definition out_end_arr :: "byte list \<Rightarrow> nat \<Rightarrow> u32 \<Rightarrow> byte list option" where
  "out_end_arr out ctx n = do {
     _ \<leftarrow> (if 0 < ctx then Some () else None);
     tag \<leftarrow> vec_at out (ctx - 1);
     _ \<leftarrow> (if tag = SER_ARR then Some () else None);
     (if ctx + 4 \<le> length out then Some (take ctx out @ le_bytes 4 n @ drop (ctx + 4) out) else None)
   }"

subsection \<open>Reply values and their encoding\<close>

datatype reply =
    RNil
  | RErr u32 string
  | RStr string
  | RInt i64
  | RDbl u64
  | RArr "reply list"

fun enc_reply :: "reply \<Rightarrow> byte list" where
  "enc_reply RNil = [SER_NIL]"
| "enc_reply (RErr code msg) = SER_ERR # write_u32 code @ enc_str msg"
| "enc_reply (RStr s) = SER_STR # enc_str s"
| "enc_reply (RInt x) = SER_INT # le_bytes 8 x"
| "enc_reply (RDbl x) = SER_DBL # le_bytes 8 x"
| "enc_reply (RArr rs) = SER_ARR # write_u32 (of_nat (length rs)) @ concat (map enc_reply rs)"

fun reply_ok :: "reply \<Rightarrow> bool" where
  "reply_ok (RErr code msg) = u32_sized msg"
| "reply_ok (RStr s) = u32_sized s"
| "reply_ok (RArr rs) = (u32_sized rs \<and> (\<forall>r \<in> set rs. reply_ok r))"
| "reply_ok _ = True"

definition dec_u64 :: "byte list \<Rightarrow> (u64 \<times> byte list) option" where
  "dec_u64 bs = (if 8 \<le> length bs then Some (le_word (take 8 bs), drop 8 bs) else None)"

function (sequential) dec_reply :: "byte list \<Rightarrow> (reply \<times> byte list) option"
  and dec_replies :: "nat \<Rightarrow> byte list \<Rightarrow> (reply list \<times> byte list) option" where
  "dec_reply [] = None"
| "dec_reply (tag # bs) =
     (if tag = SER_NIL then Some (RNil, bs)
      else if tag = SER_ERR then do {
        (code, bs) \<leftarrow> dec_u32 bs; (msg, bs) \<leftarrow> dec_str bs; Some (RErr code msg, bs) }
      else if tag = SER_STR then do { (s, bs) \<leftarrow> dec_str bs; Some (RStr s, bs) }
      else if tag = SER_INT then do { (x, bs) \<leftarrow> dec_u64 bs; Some (RInt x, bs) }
      else if tag = SER_DBL then do { (x, bs) \<leftarrow> dec_u64 bs; Some (RDbl x, bs) }
      else if tag = SER_ARR then do {
        (n, bs') \<leftarrow> dec_u32 bs; (rs, bs) \<leftarrow> dec_replies (unat n) (drop 4 bs); Some (RArr rs, bs) }
      else None)"
| "dec_replies 0 bs = Some ([], bs)"
| "dec_replies (Suc n) bs =
     (case dec_reply bs of None \<Rightarrow> None
      | Some (r, bs') \<Rightarrow>
          (if length bs' < length bs
           then (case dec_replies n bs' of None \<Rightarrow> None | Some (rs, bs'') \<Rightarrow> Some (r # rs, bs''))
           else None))"
  by pat_completeness auto
termination
  by (relation "measures [case_sum length (\<lambda>(n, bs). length bs),
        case_sum (\<lambda>_. 0) (\<lambda>(n, bs). Suc n)]") (auto split: sum.splits)

subsection \<open>The encoding is a codec\<close>

lemma put_u32_write: "put_u32 out v = out @ write_u32 v"
  by (simp add: put_u32_def write_u32_def)

lemmas out_defs = put_u8_def put_u32_write put_i64_def put_f64_def out_nil_def out_str_def
  out_int_def out_dbl_def out_err_def out_arr_def

lemma dec_u64_le_bytes [simp]: "dec_u64 (le_bytes 8 (x :: u64) @ rest) = Some (x, rest)"
  by (simp add: dec_u64_def le_word_bytes)

lemma dec_u64_sound: "dec_u64 bs = Some (x, rest) \<Longrightarrow> bs = le_bytes 8 x @ rest"
  by (auto simp: dec_u64_def le_bytes_word_take split: if_splits)

lemma length_enc_reply_pos: "0 < length (enc_reply r)"
  by (cases r) auto

lemma dec_u32_drop: "dec_u32 bs = Some (n, bs') \<Longrightarrow> bs' = drop 4 bs"
  by (auto simp: dec_u32_def)

lemma dec_replies_enc:
  assumes "\<And>r rest. r \<in> set rs \<Longrightarrow> dec_reply (enc_reply r @ rest) = Some (r, rest)"
  shows "dec_replies (length rs) (concat (map enc_reply rs) @ rest) = Some (rs, rest)"
  using assms length_enc_reply_pos by (induction rs) simp_all

lemma dec_reply_enc: "reply_ok r \<Longrightarrow> dec_reply (enc_reply r @ rest) = Some (r, rest)"
proof (induction r arbitrary: rest)
  case (RArr rs)
  then have "dec_replies (length rs) (concat (map enc_reply rs) @ rest) = Some (rs, rest)"
    by (intro dec_replies_enc) auto
  moreover have "unat (of_nat (length rs) :: u32) = length rs"
    using RArr.prems by (simp add: u32_sized_def unat_of_nat_u32)
  ultimately show ?case by (simp add: ser_tags u32.dec_enc)
qed (simp_all add: ser_tags u32.dec_enc str.dec_enc)

lemma dec_reply_sound_aux:
  "dec_reply bs = Some (r, rest) \<Longrightarrow> reply_ok r \<and> bs = enc_reply r @ rest"
  "dec_replies n bs = Some (rs, rest) \<Longrightarrow>
     length rs = n \<and> (\<forall>r \<in> set rs. reply_ok r) \<and> bs = concat (map enc_reply rs) @ rest"
proof (induction bs and n bs arbitrary: r rest and rs rest rule: dec_reply_dec_replies.induct)
  case (2 tag bs)
  note sound = u32.dec_sound str.dec_sound dec_u64_sound
  show ?case
  proof (cases "tag = SER_ARR")
    case True
    with "2.prems" obtain m bs' rs where m: "dec_u32 bs = Some (m, bs')"
      and rs: "dec_replies (unat m) (drop 4 bs) = Some (rs, rest)" and r: "r = RArr rs"
      by (auto simp: ser_tags split: bind_splits)
    have "bs = write_u32 m @ drop 4 bs"
      using u32.dec_sound [OF m] dec_u32_drop [OF m] by simp
    moreover have "length rs = unat m \<and> (\<forall>r \<in> set rs. reply_ok r) \<and>
        drop 4 bs = concat (map enc_reply rs) @ rest"
      using "2.IH" [OF _ _ _ _ _ True m] rs True by (simp add: ser_tags)
    moreover have "unat m < 2 ^ 32" using unsigned_less [of m] by simp
    ultimately show ?thesis using True r by (simp add: u32_sized_def)
  next
    case False
    with "2.prems" show ?thesis
      by (auto split: if_splits bind_splits dest!: sound)
  qed
next
  case (4 n bs)
  then show ?case by (fastforce split: option.splits if_splits)
qed auto

interpretation reply: codec enc_reply dec_reply reply_ok
  by unfold_locales (use dec_reply_enc dec_reply_sound_aux(1) in blast)+

subsection \<open>Every appender appends one encoded value\<close>

lemma out_nil_enc: "out_nil out = out @ enc_reply RNil"
  by (simp add: out_defs)

lemma out_str_enc: "out_str out s = out @ enc_reply (RStr s)"
  by (simp add: out_defs enc_str_def)

lemma out_int_enc: "out_int out x = out @ enc_reply (RInt x)"
  by (simp add: out_defs)

lemma out_dbl_enc: "out_dbl out x = out @ enc_reply (RDbl x)"
  by (simp add: out_defs)

lemma out_err_enc: "out_err out code msg = out @ enc_reply (RErr code msg)"
  by (simp add: out_defs enc_str_def)

lemma out_arr_enc:
  "out_arr out (of_nat (length rs)) @ concat (map enc_reply rs) = out @ enc_reply (RArr rs)"
  by (simp add: out_defs)

lemmas out_enc = out_nil_enc out_str_enc out_int_enc out_dbl_enc out_err_enc

text \<open>
  Writing a placeholder count, the elements and then patching the count is the same as
  writing the array with its count known.
\<close>

lemma out_begin_end_arr:
  assumes "out_begin_arr out = (out', ctx)"
  shows "out_end_arr (out' @ concat (map enc_reply rs)) ctx (of_nat (length rs)) =
     Some (out @ enc_reply (RArr rs))"
proof -
  have out': "out' = out @ SER_ARR # write_u32 0" and ctx: "ctx = length out + 1"
    using assms by (auto simp: out_begin_arr_def Let_def out_defs)
  show ?thesis
    by (simp add: out' ctx out_end_arr_def nth_append write_u32_def vec_at_def)
qed

text \<open>C40: an array whose count is patched in after its elements were written is byte for byte the array
  written with its count first, whatever was in the buffer and whatever the elements are; the
  assertion and the four overwritten bytes are always in range.\<close>

theorem patched_array_same:
  "(let (out', ctx) = out_begin_arr out in out_end_arr (out' @ elements) ctx n) = Some (out_arr out n @ elements)"
proof -
  have "out_begin_arr out = (out @ SER_ARR # write_u32 0, length out + 1)"
    by (simp add: out_begin_arr_def Let_def out_defs)
  then show ?thesis
    by (simp add: out_end_arr_def nth_append write_u32_def vec_at_def out_defs)
qed

end
