(* ===== verification/Command.thy ===== *)
theory Command
  imports Database Number_Parse Serialize
begin

text \<open>
  Command execution (\<open>src/server/command.cpp\<close>): one definition per handler and the dispatcher.

  A handler gets the argument vector, the database and the reply buffer and returns the database
  and the buffer. \<open>cmd[i]\<close> is a checked access. The parsed \<open>int64_t\<close> values are integers within
  their range.
\<close>

definition WRONGTYPE_MSG :: string where
  "WRONGTYPE_MSG = ''WRONGTYPE Operation against a key holding the wrong kind of value''"

definition INT64_MAX :: int where
  "INT64_MAX = 2 ^ 63 - 1"

subsection \<open>Looking up and removing keys\<close>

text \<open>\<open>hm_delete(&db.map, &ent->node, &entry_eq); entry_del(db, ent);\<close>\<close>

definition remove_entry :: "db \<Rightarrow> addr \<Rightarrow> db option" where
  "remove_entry db ent = do {
     e \<leftarrow> d_entries db ent;
     (m, _) \<leftarrow> hm_delete (d_map db) (e_hcode e) (entry_eq db (e_key e));
     entry_del (db\<lparr>d_map := m\<rparr>) ent
   }"

definition make_probe :: "string \<Rightarrow> u64 \<times> string" where
  "make_probe key = (str_hash key, key)"

definition lookup_entry :: "db \<Rightarrow> string \<Rightarrow> (db \<times> addr option) option" where
  "lookup_entry db key = do {
     let (hcode, k) = make_probe key;
     (m, found) \<leftarrow> hm_lookup (d_map db) hcode (entry_eq db k);
     let db = db\<lparr>d_map := m\<rparr>;
     (case found of
        None \<Rightarrow> Some (db, None)
      | Some ent \<Rightarrow> do {
          heap_idx \<leftarrow> d_idx db ent;
          if heap_idx \<noteq> npos then do {
            item \<leftarrow> vec_at (d_ttl db) heap_idx;
            let (now, db) = db_now db;
            if hi_val item \<le> now then do { db \<leftarrow> remove_entry db ent; Some (db, None) }
            else Some (db, Some ent) }
          else Some (db, Some ent) })
   }"

text \<open>\<open>new Entry()\<close> with its key, hash and type, linked into the index\<close>

definition add_entry :: "db \<Rightarrow> string \<Rightarrow> etype \<Rightarrow> string \<Rightarrow> (db \<times> addr) option" where
  "add_entry db key ty str = do {
     let (db, ent) = entry_new db \<lparr>e_hcode = str_hash key, e_key = key, e_type = ty, e_str = str, e_zset = zset_empty\<rparr>;
     m \<leftarrow> hm_insert (d_map db) \<lparr>hcode = str_hash key, owner = ent\<rparr>;
     Some (db\<lparr>d_map := m\<rparr>, ent)
   }"

subsection \<open>String commands\<close>

type_synonym handler = "string list \<Rightarrow> db \<Rightarrow> byte list \<Rightarrow> (db \<times> byte list) option"

definition do_get :: handler where
  "do_get cmd db out = do {
     key \<leftarrow> vec_at cmd 1;
     (db, ent) \<leftarrow> lookup_entry db key;
     (case ent of
        None \<Rightarrow> Some (db, out_nil out)
      | Some ent \<Rightarrow> do {
          e \<leftarrow> d_entries db ent;
          if e_type e \<noteq> T_STR then Some (db, out_err out ERR_TYPE WRONGTYPE_MSG)
          else Some (db, out_str out (e_str e)) })
   }"

definition do_set :: handler where
  "do_set cmd db out = do {
     key \<leftarrow> vec_at cmd 1;
     value \<leftarrow> vec_at cmd 2;
     (db, ent) \<leftarrow> lookup_entry db key;
     (case ent of
        Some ent \<Rightarrow> do {
          e \<leftarrow> d_entries db ent;
          if e_type e \<noteq> T_STR then Some (db, out_err out ERR_TYPE WRONGTYPE_MSG)
          else do {
            let db = db\<lparr>d_entries := (d_entries db)(ent \<mapsto> e\<lparr>e_str := value\<rparr>)\<rparr>;
            db \<leftarrow> entry_set_ttl db ent (- 1);
            Some (db, out_nil out) } }
      | None \<Rightarrow> do {
          (db, ent) \<leftarrow> add_entry db key T_STR value;
          Some (db, out_nil out) })
   }"

definition do_del :: handler where
  "do_del cmd db out = do {
     key \<leftarrow> vec_at cmd 1;
     (db, ent) \<leftarrow> lookup_entry db key;
     (case ent of
        Some ent \<Rightarrow> do { db \<leftarrow> remove_entry db ent; Some (db, out_int out 1) }
      | None \<Rightarrow> Some (db, out_int out 0))
   }"

definition keys_cb :: "db \<Rightarrow> addr \<Rightarrow> byte list option \<Rightarrow> bool \<times> byte list option" where
  "keys_cb db node out = (True, do { out \<leftarrow> out; e \<leftarrow> d_entries db node; Some (out_str out (e_key e)) })"

definition do_keys :: "db \<Rightarrow> byte list \<Rightarrow> (db \<times> byte list) option" where
  "do_keys db out = do {
     let out = out_arr out (of_nat (hm_size (d_map db)));
     out \<leftarrow> hm_foreach (keys_cb db) (d_map db) (Some out);
     out \<leftarrow> out;
     Some (db, out)
   }"

subsection \<open>TTL commands\<close>

definition do_expire :: "string list \<Rightarrow> db \<Rightarrow> byte list \<Rightarrow> int \<Rightarrow> (db \<times> byte list) option" where
  "do_expire cmd db out unit_ms = do {
     key \<leftarrow> vec_at cmd 1;
     arg \<leftarrow> vec_at cmd 2;
     (case str2int arg of
        None \<Rightarrow> Some (db, out_err out ERR_ARG ''value is not an integer'')
      | Some n \<Rightarrow> do {
          (db, ent) \<leftarrow> lookup_entry db key;
          (case ent of
             None \<Rightarrow> Some (db, out_int out 0)
           | Some ent \<Rightarrow>
               if n \<le> 0 then do { db \<leftarrow> remove_entry db ent; Some (db, out_int out 1) }
               else do {
                 let n = (if n > INT64_MAX div unit_ms then INT64_MAX div unit_ms else n);
                 db \<leftarrow> entry_set_ttl db ent (n * unit_ms);
                 Some (db, out_int out 1) }) })
   }"

definition do_ttl :: "string list \<Rightarrow> db \<Rightarrow> byte list \<Rightarrow> bool \<Rightarrow> (db \<times> byte list) option" where
  "do_ttl cmd db out in_ms = do {
     key \<leftarrow> vec_at cmd 1;
     (db, ent) \<leftarrow> lookup_entry db key;
     (case ent of
        None \<Rightarrow> Some (db, out_int out (- 2))
      | Some ent \<Rightarrow> do {
          heap_idx \<leftarrow> d_idx db ent;
          if heap_idx = npos then Some (db, out_int out (- 1))
          else do {
            let (now, db) = db_now db;
            item \<leftarrow> vec_at (d_ttl db) heap_idx;
            let due = hi_val item;
            let rem = (if due > now then due - now else 0);
            Some (db, out_int out (if in_ms then rem else (rem + 999) div 1000)) } })
   }"

definition do_persist :: handler where
  "do_persist cmd db out = do {
     key \<leftarrow> vec_at cmd 1;
     (db, ent) \<leftarrow> lookup_entry db key;
     (case ent of
        None \<Rightarrow> Some (db, out_int out 0)
      | Some ent \<Rightarrow> do {
          heap_idx \<leftarrow> d_idx db ent;
          if heap_idx = npos then Some (db, out_int out 0)
          else do {
            db \<leftarrow> entry_set_ttl db ent (- 1);
            Some (db, out_int out 1) } })
   }"

subsection \<open>Sorted-set commands\<close>

text \<open>The result carries \<open>*missing\<close> beside the entry.\<close>

definition expect_zset :: "db \<Rightarrow> string \<Rightarrow> byte list \<Rightarrow> (db \<times> byte list \<times> addr option \<times> bool) option" where
  "expect_zset db key out = do {
     (db, ent) \<leftarrow> lookup_entry db key;
     (case ent of
        None \<Rightarrow> Some (db, out, None, True)
      | Some p \<Rightarrow> do {
          e \<leftarrow> d_entries db p;
          if e_type e \<noteq> T_ZSET then Some (db, out_err out ERR_TYPE WRONGTYPE_MSG, None, False)
          else Some (db, out, Some p, False) })
   }"

text \<open>Writing back the sorted set of an entry.\<close>

definition put_zset :: "db \<Rightarrow> addr \<Rightarrow> entry \<Rightarrow> zset \<Rightarrow> db" where
  "put_zset db ent e zs = db\<lparr>d_entries := (d_entries db)(ent \<mapsto> e\<lparr>e_zset := zs\<rparr>)\<rparr>"

definition do_zadd :: handler where
  "do_zadd cmd db out = do {
     key \<leftarrow> vec_at cmd 1;
     arg \<leftarrow> vec_at cmd 2;
     name \<leftarrow> vec_at cmd 3;
     (case str2dbl arg of
        None \<Rightarrow> Some (db, out_err out ERR_ARG ''value is not a valid float'')
      | Some score \<Rightarrow> do {
          (db, out, ent, missing) \<leftarrow> expect_zset db key out;
          if ent = None \<and> \<not> missing then Some (db, out)
          else do {
            (db, ent) \<leftarrow> (case ent of Some p \<Rightarrow> Some (db, p) | None \<Rightarrow> add_entry db key T_ZSET []);
            e \<leftarrow> d_entries db ent;
            (zs, added) \<leftarrow> zset_insert (e_zset e) name score;
            Some (put_zset db ent e zs, out_int out (if added then 1 else 0)) } })
   }"

definition do_zrem :: handler where
  "do_zrem cmd db out = do {
     key \<leftarrow> vec_at cmd 1;
     name \<leftarrow> vec_at cmd 2;
     (db, out, ent, missing) \<leftarrow> expect_zset db key out;
     (case ent of
        None \<Rightarrow> if \<not> missing then Some (db, out) else Some (db, out_int out 0)
      | Some ent \<Rightarrow> do {
          e \<leftarrow> d_entries db ent;
          (zs, znode) \<leftarrow> zset_lookup (e_zset e) name;
          zs \<leftarrow> (case znode of None \<Rightarrow> Some zs | Some p \<Rightarrow> zset_delete zs p);
          Some (put_zset db ent e zs, out_int out (if znode \<noteq> None then 1 else 0)) })
   }"

definition do_zscore :: handler where
  "do_zscore cmd db out = do {
     key \<leftarrow> vec_at cmd 1;
     name \<leftarrow> vec_at cmd 2;
     (db, out, ent, missing) \<leftarrow> expect_zset db key out;
     (case ent of
        None \<Rightarrow> if \<not> missing then Some (db, out) else Some (db, out_nil out)
      | Some ent \<Rightarrow> do {
          e \<leftarrow> d_entries db ent;
          (zs, znode) \<leftarrow> zset_lookup (e_zset e) name;
          let db = put_zset db ent e zs;
          (case znode of
             Some p \<Rightarrow> do { z \<leftarrow> z_nodes zs p; Some (db, out_dbl out (z_score z)) }
           | None \<Rightarrow> Some (db, out_nil out)) })
   }"

text \<open>The loop of \<open>do_zquery\<close>; the result is the number of elements written and the buffer.\<close>

function zquery_walk :: "zset \<Rightarrow> addr option \<Rightarrow> int \<Rightarrow> int \<Rightarrow> byte list \<Rightarrow> (int \<times> byte list) option" where
  "zquery_walk zs znode n limit out =
     (case znode of
        None \<Rightarrow> Some (n, out)
      | Some p \<Rightarrow>
          if n < limit then do {
            z \<leftarrow> z_nodes zs p;
            let out = out_str out (z_name z);
            let out = out_dbl out (z_score z);
            znode \<leftarrow> znode_offset zs (Some p) 1;
            zquery_walk zs znode (n + 2) limit out }
          else Some (n, out))"
  by pat_completeness auto
termination
  by (relation "measure (\<lambda>(zs, znode, n, limit, out). nat (limit - n))") auto

declare zquery_walk.simps [simp del]

definition do_zquery :: handler where
  "do_zquery cmd db out = do {
     key \<leftarrow> vec_at cmd 1;
     arg_score \<leftarrow> vec_at cmd 2;
     name \<leftarrow> vec_at cmd 3;
     arg_offset \<leftarrow> vec_at cmd 4;
     arg_limit \<leftarrow> vec_at cmd 5;
     (case str2dbl arg_score of
        None \<Rightarrow> Some (db, out_err out ERR_ARG ''value is not a valid float'')
      | Some score \<Rightarrow>
          (case (str2int arg_offset, str2int arg_limit) of
             (Some offset, Some limit) \<Rightarrow> do {
               (db, out, ent, missing) \<leftarrow> expect_zset db key out;
               if ent = None \<and> \<not> missing then Some (db, out)
               else (case ent of
                 None \<Rightarrow> Some (db, out_arr out 0)
               | Some ent \<Rightarrow>
                   if limit \<le> 0 then Some (db, out_arr out 0)
                   else do {
                     e \<leftarrow> d_entries db ent;
                     let zs = e_zset e;
                     znode \<leftarrow> zset_seekge zs score name;
                     znode \<leftarrow> znode_offset zs znode offset;
                     let (out, ctx) = out_begin_arr out;
                     (n, out) \<leftarrow> zquery_walk zs znode 0 limit out;
                     out \<leftarrow> out_end_arr out ctx (word_of_int n);
                     Some (db, out) }) }
           | _ \<Rightarrow> Some (db, out_err out ERR_ARG ''value is not an integer'')))
   }"

subsection \<open>Dispatch\<close>

definition do_request :: handler where
  "do_request cmd db out =
     (if cmd = [] then Some (db, out_err out ERR_ARG ''empty command'')
      else do {
        verb \<leftarrow> vec_at cmd 0;
        let oper = to_upper verb;
        if oper = ''GET'' \<and> length cmd = 2 then do_get cmd db out
        else if oper = ''SET'' \<and> length cmd = 3 then do_set cmd db out
        else if oper = ''DEL'' \<and> length cmd = 2 then do_del cmd db out
        else if oper = ''KEYS'' \<and> length cmd = 1 then do_keys db out
        else if oper = ''EXPIRE'' \<and> length cmd = 3 then do_expire cmd db out 1000
        else if oper = ''PEXPIRE'' \<and> length cmd = 3 then do_expire cmd db out 1
        else if oper = ''TTL'' \<and> length cmd = 2 then do_ttl cmd db out False
        else if oper = ''PTTL'' \<and> length cmd = 2 then do_ttl cmd db out True
        else if oper = ''PERSIST'' \<and> length cmd = 2 then do_persist cmd db out
        else if oper = ''ZADD'' \<and> length cmd = 4 then do_zadd cmd db out
        else if oper = ''ZREM'' \<and> length cmd = 3 then do_zrem cmd db out
        else if oper = ''ZSCORE'' \<and> length cmd = 3 then do_zscore cmd db out
        else if oper = ''ZQUERY'' \<and> length cmd = 6 then do_zquery cmd db out
        else Some (db, out_err out ERR_UNKNOWN ''unknown command'') })"

end
