(* ===== verification/DList.thy ===== *)
theory DList
  imports Prelude
begin

text \<open>
  The intrusive circular doubly-linked list (\<open>include/ds/dlist.h\<close>). Nodes live in a store; the
  operations follow and assign the two pointers in the order of the code, so that they also
  are right when the nodes involved coincide (an empty list, a node linked to itself).
  \<open>ring h l xs\<close> says that the list with dummy head \<open>l\<close> holds the nodes \<open>xs\<close> from front to back.
\<close>

record dlist =
  dl_prev :: "addr option"
  dl_next :: "addr option"

type_synonym dl_store = "addr \<rightharpoonup> dlist"

definition dl_set_prev :: "dl_store \<Rightarrow> addr \<Rightarrow> addr \<Rightarrow> dl_store option" where
  "dl_set_prev h p q = do { x \<leftarrow> h p; Some (h(p \<mapsto> x\<lparr>dl_prev := Some q\<rparr>)) }"

definition dl_set_next :: "dl_store \<Rightarrow> addr \<Rightarrow> addr \<Rightarrow> dl_store option" where
  "dl_set_next h p q = do { x \<leftarrow> h p; Some (h(p \<mapsto> x\<lparr>dl_next := Some q\<rparr>)) }"

definition dlist_init :: "dl_store \<Rightarrow> addr \<Rightarrow> dl_store option" where
  "dlist_init h node = do { h \<leftarrow> dl_set_next h node node; dl_set_prev h node node }"

definition dlist_empty :: "dl_store \<Rightarrow> addr \<Rightarrow> bool option" where
  "dlist_empty h node = do { x \<leftarrow> h node; Some (dl_next x = Some node) }"

definition dlist_detach :: "dl_store \<Rightarrow> addr \<Rightarrow> dl_store option" where
  "dlist_detach h node = do {
     x \<leftarrow> h node;
     prev \<leftarrow> dl_prev x;
     next \<leftarrow> dl_next x;
     h \<leftarrow> dl_set_next h prev next;
     h \<leftarrow> dl_set_prev h next prev;
     dlist_init h node
   }"

definition dlist_insert_before :: "dl_store \<Rightarrow> addr \<Rightarrow> addr \<Rightarrow> dl_store option" where
  "dlist_insert_before h target rookie = do {
     x \<leftarrow> h target;
     prev \<leftarrow> dl_prev x;
     h \<leftarrow> dl_set_next h prev rookie;
     h \<leftarrow> dl_set_prev h rookie prev;
     h \<leftarrow> dl_set_next h rookie target;
     dl_set_prev h target rookie
   }"

subsection \<open>Rings\<close>

definition nx :: "dl_store \<Rightarrow> addr \<Rightarrow> addr option" where
  "nx h p = h p \<bind> dl_next"

definition pv :: "dl_store \<Rightarrow> addr \<Rightarrow> addr option" where
  "pv h p = h p \<bind> dl_prev"

definition edge :: "dl_store \<Rightarrow> addr \<Rightarrow> addr \<Rightarrow> bool" where
  "edge h p q \<longleftrightarrow> nx h p = Some q \<and> pv h q = Some p"

fun linked :: "dl_store \<Rightarrow> addr \<Rightarrow> addr list \<Rightarrow> addr \<Rightarrow> bool" where
  "linked h a [] b = edge h a b"
| "linked h a (x # xs) b = (edge h a x \<and> linked h x xs b)"

definition ring :: "dl_store \<Rightarrow> addr \<Rightarrow> addr list \<Rightarrow> bool" where
  "ring h l xs \<longleftrightarrow> distinct (l # xs) \<and> linked h l xs l"

lemma linked_append: "linked h a (xs @ y # ys) b \<longleftrightarrow> linked h a xs y \<and> linked h y ys b"
  by (induction xs arbitrary: a) auto

lemma linked_cong:
  assumes "linked h a xs b"
    and "\<And>p. p \<in> set (a # xs) \<Longrightarrow> nx h' p = nx h p" and "\<And>q. q \<in> set (xs @ [b]) \<Longrightarrow> pv h' q = pv h q"
  shows "linked h' a xs b"
  using assms by (induction xs arbitrary: a) (auto simp: edge_def)

lemma nx_dom: "nx h p = Some q \<Longrightarrow> p \<in> dom h" "pv h p = Some q \<Longrightarrow> p \<in> dom h"
  by (auto simp: nx_def pv_def bind_eq_Some_conv)

lemma linked_dom: "linked h a xs b \<Longrightarrow> set (a # xs @ [b]) \<subseteq> dom h"
  using nx_dom by (induction xs arbitrary: a) (auto simp: edge_def)

lemma ring_dom: "ring h l xs \<Longrightarrow> set (l # xs) \<subseteq> dom h"
  using linked_dom by (fastforce simp: ring_def)

text \<open>The effect of the two assignments.\<close>

lemma dl_set_next_eff:
  assumes "dl_set_next h r s = Some h'"
  shows "nx h' p = (if p = r then Some s else nx h p)" "pv h' p = pv h p" "dom h' = dom h" "p \<noteq> r \<Longrightarrow> h' p = h p"
  using assms by (auto simp: dl_set_next_def nx_def pv_def bind_eq_Some_conv split: if_splits)

lemma dl_set_prev_eff:
  assumes "dl_set_prev h r s = Some h'"
  shows "pv h' p = (if p = r then Some s else pv h p)" "nx h' p = nx h p" "dom h' = dom h" "p \<noteq> r \<Longrightarrow> h' p = h p"
  using assms by (auto simp: dl_set_prev_def nx_def pv_def bind_eq_Some_conv split: if_splits)

lemmas dl_eff = dl_set_next_eff dl_set_prev_eff

lemma dl_set_ex:
  "r \<in> dom h \<Longrightarrow> \<exists>h'. dl_set_next h r s = Some h'"
  "r \<in> dom h \<Longrightarrow> \<exists>h'. dl_set_prev h r s = Some h'"
  by (auto simp: dl_set_next_def dl_set_prev_def)

lemma dlist_empty_ok: "ring h l xs \<Longrightarrow> dlist_empty h l = Some (xs = [])"
  by (cases xs) (auto simp: ring_def dlist_empty_def edge_def nx_def pv_def bind_eq_Some_conv)

lemma ring_first: "ring h l (x # xs) \<Longrightarrow> nx h l = Some x"
  by (auto simp: ring_def edge_def)

lemma dlist_init_eff:
  assumes "k \<in> dom h"
  shows "\<exists>h'. dlist_init h k = Some h' \<and> dom h' = dom h \<and> (\<forall>p. p \<noteq> k \<longrightarrow> h' p = h p) \<and>
    nx h' = (nx h)(k \<mapsto> k) \<and> pv h' = (pv h)(k \<mapsto> k)"
proof -
  from dl_set_ex(1) [OF assms, of k] obtain h1 where 1: "dl_set_next h k k = Some h1" by blast
  from dl_set_ex(2) [of k h1 k] assms dl_eff(3) [OF 1] obtain h2 where 2: "dl_set_prev h1 k k = Some h2" by auto
  show ?thesis
    using 1 2 dl_set_next_eff [OF 1] dl_set_prev_eff [OF 2] by (auto simp: dlist_init_def fun_eq_iff)
qed

lemma insert_before_eff:
  assumes "pv h l = Some z" and "z \<in> dom h" and "k \<in> dom h" "k \<noteq> l" "k \<noteq> z"
  shows "\<exists>h'. dlist_insert_before h l k = Some h' \<and> dom h' = dom h \<and> (\<forall>p. p \<notin> {l, z, k} \<longrightarrow> h' p = h p) \<and>
    nx h' = (nx h)(z \<mapsto> k, k \<mapsto> l) \<and> pv h' = (pv h)(k \<mapsto> z, l \<mapsto> k)"
proof -
  from dl_set_ex(1) [OF assms(2), of k] obtain h1 where 1: "dl_set_next h z k = Some h1" by blast
  have d1: "dom h1 = dom h" using dl_set_next_eff(3) [OF 1] .
  from dl_set_ex(2) [of k h1 z] assms(3) d1 obtain h2 where 2: "dl_set_prev h1 k z = Some h2" by auto
  have d2: "dom h2 = dom h" using dl_set_prev_eff(3) [OF 2] d1 by simp
  from dl_set_ex(1) [of k h2 l] assms(3) d2 obtain h3 where 3: "dl_set_next h2 k l = Some h3" by auto
  have d3: "dom h3 = dom h" using dl_set_next_eff(3) [OF 3] d2 by simp
  have l: "l \<in> dom h" using assms(1) nx_dom by blast
  from dl_set_ex(2) [of l h3 k] l d3 obtain h4 where 4: "dl_set_prev h3 l k = Some h4" by auto
  from assms(1) obtain x where "h l = Some x" "dl_prev x = Some z" by (auto simp: pv_def bind_eq_Some_conv)
  then have "dlist_insert_before h l k = Some h4" using 1 2 3 4 by (simp add: dlist_insert_before_def)
  moreover have "dom h4 = dom h" using dl_set_prev_eff(3) [OF 4] d3 by simp
  moreover have "nx h4 = (nx h)(z \<mapsto> k, k \<mapsto> l)" "pv h4 = (pv h)(k \<mapsto> z, l \<mapsto> k)"
    by (simp_all add: fun_eq_iff dl_set_next_eff [OF 1] dl_set_prev_eff [OF 2] dl_set_next_eff [OF 3] dl_set_prev_eff [OF 4])
  moreover have "\<forall>p. p \<notin> {l, z, k} \<longrightarrow> h4 p = h p"
    using dl_set_next_eff(4) [OF 1] dl_set_prev_eff(4) [OF 2] dl_set_next_eff(4) [OF 3] dl_set_prev_eff(4) [OF 4] by simp
  ultimately show ?thesis by blast
qed

lemma detach_eff:
  assumes "pv h k = Some p" and "nx h k = Some q" and "p \<in> dom h" "q \<in> dom h"
  shows "\<exists>h'. dlist_detach h k = Some h' \<and> dom h' = dom h \<and> (\<forall>r. r \<notin> {p, q, k} \<longrightarrow> h' r = h r) \<and>
    nx h' = (nx h)(p \<mapsto> q, k \<mapsto> k) \<and> pv h' = (pv h)(q \<mapsto> p, k \<mapsto> k)"
proof -
  from dl_set_ex(1) [OF assms(3), of q] obtain h1 where 1: "dl_set_next h p q = Some h1" by blast
  have d1: "dom h1 = dom h" using dl_set_next_eff(3) [OF 1] .
  from dl_set_ex(2) [of q h1 p] assms(4) d1 obtain h2 where 2: "dl_set_prev h1 q p = Some h2" by auto
  have d2: "dom h2 = dom h" using dl_set_prev_eff(3) [OF 2] d1 by simp
  have "k \<in> dom h2" using d2 assms(1) nx_dom by blast
  from dlist_init_eff [OF this] obtain h3 where 3: "dlist_init h2 k = Some h3" "dom h3 = dom h2" "\<forall>p. p \<noteq> k \<longrightarrow> h3 p = h2 p"
    "nx h3 = (nx h2)(k \<mapsto> k)" "pv h3 = (pv h2)(k \<mapsto> k)" by blast
  from assms(1,2) obtain x where "h k = Some x" "dl_prev x = Some p" "dl_next x = Some q"
    by (auto simp: pv_def nx_def bind_eq_Some_conv)
  then have "dlist_detach h k = Some h3" using 1 2 3(1) by (simp add: dlist_detach_def)
  moreover have "nx h3 = (nx h)(p \<mapsto> q, k \<mapsto> k)" "pv h3 = (pv h)(q \<mapsto> p, k \<mapsto> k)"
    using 3(4,5) by (auto simp: fun_eq_iff dl_set_next_eff [OF 1] dl_set_prev_eff [OF 2])
  moreover have "\<forall>r. r \<notin> {p, q, k} \<longrightarrow> h3 r = h r"
    using dl_set_next_eff(4) [OF 1] dl_set_prev_eff(4) [OF 2] 3(3) by simp
  ultimately show ?thesis using 3(2) d2 by blast
qed

lemma insert_before_ok:
  assumes r: "ring h l xs" and k: "k \<in> dom h" "k \<notin> set (l # xs)"
  shows "\<exists>h'. dlist_insert_before h l k = Some h' \<and> ring h' l (xs @ [k]) \<and> dom h' = dom h \<and>
    (\<forall>p. p \<notin> set (l # k # xs) \<longrightarrow> h' p = h p)"
proof (cases xs rule: rev_cases)
  case Nil
  with r have "pv h l = Some l" by (simp add: ring_def edge_def)
  from insert_before_eff [OF this _ k(1)] nx_dom(2) [OF this] k(2) Nil show ?thesis
    by (auto simp: ring_def edge_def)
next
  case (snoc ys z)
  from r have d: "distinct (l # ys @ [z])" and lk: "linked h l ys z" "edge h z l"
    by (auto simp: ring_def snoc linked_append)
  from lk(2) have e: "pv h l = Some z" "z \<in> dom h" using nx_dom(1) by (auto simp: edge_def)
  from insert_before_eff [OF e k(1)] k(2) snoc obtain h' where h': "dlist_insert_before h l k = Some h'" "dom h' = dom h"
    "\<forall>p. p \<notin> {l, z, k} \<longrightarrow> h' p = h p" "nx h' = (nx h)(z \<mapsto> k, k \<mapsto> l)" "pv h' = (pv h)(k \<mapsto> z, l \<mapsto> k)" by auto
  have "linked h' l ys z" by (rule linked_cong [OF lk(1)]) (use d k(2) snoc h'(4,5) in auto)
  with h' d k(2) show ?thesis by (auto simp: snoc ring_def linked_append edge_def)
qed

lemma detach_ok:
  assumes r: "ring h l xs" and k: "k \<in> set xs"
  shows "\<exists>h'. dlist_detach h k = Some h' \<and> ring h' l (remove1 k xs) \<and> ring h' k [] \<and> dom h' = dom h \<and>
    (\<forall>p. p \<notin> set (l # xs) \<longrightarrow> h' p = h p)"
proof -
  from k obtain as bs where xs: "xs = as @ k # bs" by (meson split_list)
  define p where "p = last (l # as)"
  define q where "q = hd (bs @ [l])"
  from r have d: "distinct (l # as @ k # bs)" and lk: "linked h l as k" "linked h k bs l"
    by (auto simp: ring_def xs linked_append)
  have e: "edge h p k" using lk(1) by (cases as rule: rev_cases) (auto simp: p_def linked_append)
  have e': "edge h k q" using lk(2) by (cases bs) (auto simp: q_def)
  have dom: "p \<in> dom h" "q \<in> dom h" using e e' nx_dom by (auto simp: edge_def)
  from detach_eff [OF _ _ dom, of k] e e' obtain h' where h': "dlist_detach h k = Some h'" "dom h' = dom h"
    "\<forall>r. r \<notin> {p, q, k} \<longrightarrow> h' r = h r" "nx h' = (nx h)(p \<mapsto> q, k \<mapsto> k)" "pv h' = (pv h)(q \<mapsto> p, k \<mapsto> k)"
    by (auto simp: edge_def)
  have A: "linked h' l as q" if "as = [] \<or> as = ys @ [p]" for ys
    using that
  proof
    assume "as = []"
    with h'(4,5) d show ?thesis by (cases bs) (auto simp: edge_def p_def q_def)
  next
    assume as: "as = ys @ [p]"
    have "linked h l ys p" using lk(1) by (simp add: as linked_append)
    then have "linked h' l ys p" by (rule linked_cong) (use d as h'(4,5) in \<open>cases bs; auto simp: q_def\<close>)+
    with as h'(4,5) d show ?thesis by (cases bs) (auto simp: linked_append edge_def q_def)
  qed
  have "as = [] \<or> (\<exists>ys. as = ys @ [p])" by (cases as rule: rev_cases) (auto simp: p_def)
  with A have A: "linked h' l as q" by blast
  have "linked h' l (as @ bs) l"
  proof (cases bs)
    case Nil
    with A show ?thesis by (simp add: q_def)
  next
    case (Cons b zs)
    have "linked h b zs l" using lk(2) by (simp add: Cons)
    then have "linked h' b zs l"
      by (rule linked_cong) (use d Cons h'(4,5) in \<open>cases as rule: rev_cases; auto simp: q_def p_def\<close>)+
    with A Cons show ?thesis by (simp add: q_def linked_append)
  qed
  moreover have "remove1 k xs = as @ bs" using d by (simp add: xs remove1_append)
  moreover have "\<forall>r. r \<notin> set (l # xs) \<longrightarrow> h' r = h r"
    using h'(3) by (cases as rule: rev_cases; cases bs) (auto simp: p_def q_def xs)
  moreover have "edge h' k k" using h'(4,5) by (simp add: edge_def)
  ultimately show ?thesis using h'(1,2) d by (auto simp: ring_def)
qed

text \<open>Detaching a node that is linked to itself only is harmless.\<close>

lemma detach_single:
  assumes "ring h k []"
  shows "\<exists>h'. dlist_detach h k = Some h' \<and> ring h' k [] \<and> dom h' = dom h \<and> (\<forall>p. p \<noteq> k \<longrightarrow> h' p = h p)"
proof -
  from assms have "pv h k = Some k" "nx h k = Some k" by (simp_all add: ring_def edge_def)
  from detach_eff [OF this] nx_dom(2) [OF this(1)] show ?thesis by (auto simp: ring_def edge_def)
qed

lemma ring_frame:
  assumes "ring h l xs" and "\<And>p. p \<in> set (l # xs) \<Longrightarrow> h' p = h p"
  shows "ring h' l xs"
  using assms(1) linked_cong [of h l xs l h'] assms(2) by (auto simp: ring_def nx_def pv_def)

subsection \<open>The interface of the list\<close>

text \<open>What the event loop relies on: a sequence of nodes behind a head, from which a node can be
  detached and to the back of which a node can be appended, with all other nodes left alone.\<close>

locale node_list =
  fixes holds_list :: "'h \<Rightarrow> addr \<Rightarrow> addr list \<Rightarrow> bool"
    and node_dom :: "'h \<Rightarrow> addr set"
    and empty :: "'h \<Rightarrow> addr \<Rightarrow> bool option"
    and detach :: "'h \<Rightarrow> addr \<Rightarrow> 'h option"
    and push :: "'h \<Rightarrow> addr \<Rightarrow> addr \<Rightarrow> 'h option"
  assumes list_distinct: "holds_list h l xs \<Longrightarrow> distinct (l # xs) \<and> set (l # xs) \<subseteq> node_dom h"
    and empty_law: "holds_list h l xs \<Longrightarrow> empty h l = Some (xs = [])"
    and detach_law: "holds_list h l xs \<Longrightarrow> k \<in> set xs \<Longrightarrow>
      \<exists>h'. detach h k = Some h' \<and> holds_list h' l (remove1 k xs) \<and> node_dom h' = node_dom h"
    and push_law: "holds_list h l xs \<Longrightarrow> k \<in> node_dom h \<Longrightarrow> k \<notin> set (l # xs) \<Longrightarrow>
      \<exists>h'. push h l k = Some h' \<and> holds_list h' l (xs @ [k]) \<and> node_dom h' = node_dom h"
begin

lemma touch:
  assumes "holds_list h l xs" and "k \<in> set xs"
  shows "\<exists>h1 h2. detach h k = Some h1 \<and> push h1 l k = Some h2 \<and> holds_list h2 l (remove1 k xs @ [k]) \<and> node_dom h2 = node_dom h"
proof -
  from detach_law [OF assms] obtain h1 where h1: "detach h k = Some h1" "holds_list h1 l (remove1 k xs)" "node_dom h1 = node_dom h" by blast
  have "k \<in> node_dom h1" "k \<notin> set (l # remove1 k xs)"
    using list_distinct [OF assms(1)] assms(2) h1(3) by auto
  from push_law [OF h1(2) this] h1 show ?thesis by auto
qed

end

interpretation dl: node_list ring dom dlist_empty dlist_detach dlist_insert_before
proof unfold_locales
  show "distinct (l # xs) \<and> set (l # xs) \<subseteq> dom h" if "ring h l xs" for h l xs
    using ring_dom [OF that] that unfolding ring_def by blast
  show "dlist_empty h l = Some (xs = [])" if "ring h l xs" for h l xs
    using that by (rule dlist_empty_ok)
  show "\<exists>h'. dlist_detach h k = Some h' \<and> ring h' l (remove1 k xs) \<and> dom h' = dom h" if "ring h l xs" "k \<in> set xs" for h l xs k
    using detach_ok [OF that] by blast
  show "\<exists>h'. dlist_insert_before h l k = Some h' \<and> ring h' l (xs @ [k]) \<and> dom h' = dom h"
    if "ring h l xs" "k \<in> dom h" "k \<notin> set (l # xs)" for h l xs k
    using insert_before_ok [OF that] by blast
qed

subsection \<open>Properties\<close>

text \<open>C23: detaching a node of a list and inserting it before the dummy head moves it to the back and
  keeps the order of all others; this also holds when it is the only node, the first or the last.\<close>

theorem dlist_move_to_back:
  assumes "ring h l xs" and "k \<in> set xs"
  shows "\<exists>h1 h2. dlist_detach h k = Some h1 \<and> dlist_insert_before h1 l k = Some h2 \<and> ring h2 l (remove1 k xs @ [k])"
  using dl.touch [OF assms] by blast

theorem dlist_move_to_back_witness:
  "let h = [0 \<mapsto> \<lparr>dl_prev = Some 2, dl_next = Some 1\<rparr>, 1 \<mapsto> \<lparr>dl_prev = Some 0, dl_next = Some 2\<rparr>,
            2 \<mapsto> \<lparr>dl_prev = Some 1, dl_next = Some 0\<rparr>]
   in ring h 0 [1, 2] \<and>
     (\<exists>h1 h2. dlist_detach h 1 = Some h1 \<and> dlist_insert_before h1 0 1 = Some h2 \<and> ring h2 0 [2, 1])"
proof -
  let ?h = "[0 \<mapsto> \<lparr>dl_prev = Some 2, dl_next = Some 1\<rparr>, 1 \<mapsto> \<lparr>dl_prev = Some 0, dl_next = Some 2\<rparr>,
            2 \<mapsto> \<lparr>dl_prev = Some 1, dl_next = Some 0\<rparr>] :: dl_store"
  have "ring ?h 0 [1, 2]" by (simp add: ring_def edge_def nx_def pv_def)
  with dlist_move_to_back [OF this, of 1] show ?thesis by (simp add: Let_def)
qed

end
