(* ===== verification/Server.thy ===== *)
theory Server
  imports Command Wire DList
begin

text \<open>
  The server core (\<open>include/server/server.h\<close>, \<open>include/server/conn.h\<close>, \<open>src/server/server.cpp\<close>):
  connections with their buffers, request framing, timers and one iteration of the event loop.

  A \<open>Conn\<close> is one allocation: its \<open>idle_node\<close> is in the list store \<open>s_links\<close> and its other members in
  \<open>s_conn\<close>, under the same address; \<open>s_conns\<close> is the vector of owning pointers, indexed by descriptor.
  The results of the system calls \<open>accept\<close>, \<open>read\<close>, \<open>write\<close> and \<open>poll\<close> are arguments (for \<open>write\<close> as
  a function of the number of bytes offered). \<open>s_closed\<close>
  records the calls of \<open>close\<close>. Messages for the terminal are left out.
\<close>

subsection \<open>System calls\<close>

datatype sys_accept =
    AcceptFail
  | AcceptFcntlFail nat    \<comment> \<open>a connection, but \<open>fcntl\<close> on it fails\<close>
  | Accepted nat

datatype sys_read =
    ReadAgain
  | ReadFail
  | ReadData "byte list"   \<comment> \<open>the bytes read; none at the end of the stream\<close>

datatype sys_write =
    WriteAgain
  | WriteFail
  | Written nat

subsection \<open>State\<close>

record conn =
  c_fd :: nat
  want_read :: bool
  want_write :: bool
  want_close :: bool
  incoming :: "byte list"
  outgoing :: "byte list"
  last_active_ms :: u64

record server =
  s_conns :: "addr option list"
  s_conn :: "addr \<rightharpoonup> conn"
  s_links :: dl_store
  s_idle_list :: addr
  s_idle_timeout_ms :: u64
  s_fresh :: addr
  s_db :: db
  s_closed :: "nat list"

definition k_default_idle_timeout_ms :: u64 where
  "k_default_idle_timeout_ms = 30000"

text \<open>The constructor, once the listening socket is set up.\<close>

definition server_init :: "u64 \<Rightarrow> clock \<Rightarrow> server option" where
  "server_init idle_timeout_ms clk = do {
     links \<leftarrow> dlist_init [0 \<mapsto> \<lparr>dl_prev = None, dl_next = None\<rparr>] 0;
     Some \<lparr>s_conns = [], s_conn = Map.empty, s_links = links, s_idle_list = 0,
           s_idle_timeout_ms = idle_timeout_ms, s_fresh = 1, s_db = (db_init clk)\<lparr>d_pool := Some []\<rparr>, s_closed = []\<rparr>
   }"

definition srv_now :: "server \<Rightarrow> u64 \<times> server" where
  "srv_now srv = (let (now, db) = db_now (s_db srv) in (now, srv\<lparr>s_db := db\<rparr>))"

subsection \<open>Byte buffers\<close>

definition buf_append :: "byte list \<Rightarrow> byte list \<Rightarrow> byte list" where
  "buf_append buf data = buf @ data"

definition buf_consume :: "byte list \<Rightarrow> nat \<Rightarrow> byte list option" where
  "buf_consume buf n = (if n \<le> length buf then Some (drop n buf) else None)"

subsection \<open>Connections\<close>

definition conn_destroy :: "server \<Rightarrow> addr \<Rightarrow> server option" where
  "conn_destroy srv p = do {
     c \<leftarrow> s_conn srv p;
     links \<leftarrow> dlist_detach (s_links srv) p;
     Some (srv\<lparr>s_closed := s_closed srv @ [c_fd c], s_links := links(p := None), s_conn := (s_conn srv)(p := None)\<rparr>)
   }"

text \<open>\<open>conns_[fd].reset()\<close>\<close>

definition conn_reset :: "server \<Rightarrow> nat \<Rightarrow> server option" where
  "conn_reset srv fd = do {
     old \<leftarrow> vec_at (s_conns srv) fd;
     let srv = srv\<lparr>s_conns := (s_conns srv)[fd := None]\<rparr>;
     (case old of None \<Rightarrow> Some srv | Some p \<Rightarrow> conn_destroy srv p)
   }"

definition accept_new :: "server \<Rightarrow> sys_accept \<Rightarrow> server option" where
  "accept_new srv res =
     (case res of
        AcceptFail \<Rightarrow> Some srv
      | AcceptFcntlFail connfd \<Rightarrow> Some (srv\<lparr>s_closed := s_closed srv @ [connfd]\<rparr>)
      | Accepted connfd \<Rightarrow> do {
          let p = s_fresh srv;
          links \<leftarrow> dlist_init ((s_links srv)(p \<mapsto> \<lparr>dl_prev = None, dl_next = None\<rparr>)) p;
          let (now, srv) = srv_now srv;
          let conn = \<lparr>c_fd = connfd, want_read = True, want_write = False, want_close = False,
                      incoming = [], outgoing = [], last_active_ms = now\<rparr>;
          links \<leftarrow> dlist_insert_before links (s_idle_list srv) p;
          let conns = (if connfd \<ge> length (s_conns srv)
                       then s_conns srv @ replicate (connfd + 1 - length (s_conns srv)) None
                       else s_conns srv);
          old \<leftarrow> vec_at conns connfd;
          let srv = srv\<lparr>s_fresh := p + 1, s_links := links, s_conn := (s_conn srv)(p \<mapsto> conn),
                        s_conns := conns[connfd := Some p]\<rparr>;
          (case old of None \<Rightarrow> Some srv | Some q \<Rightarrow> conn_destroy srv q) })"

subsection \<open>Requests\<close>

definition try_one_request :: "db \<Rightarrow> conn \<Rightarrow> (db \<times> conn \<times> bool) option" where
  "try_one_request db c =
     (if length (incoming c) < 4 then Some (db, c, False)
      else do {
        len \<leftarrow> read_u32 (incoming c);
        if unat len > MAX_MSG then Some (db, c\<lparr>want_close := True\<rparr>, False)
        else if length (incoming c) < 4 + unat len then Some (db, c, False)
        else do {
          let body = take (unat len) (drop 4 (incoming c));
          (rc, cmd) \<leftarrow> parse_req body [];
          (db, resp) \<leftarrow> (if rc \<noteq> 0 then Some (db, out_err [] ERR_ARG ''bad request'')
                        else do_request cmd db []);
          let hdr = write_u32 (of_nat (length resp));
          let out = buf_append (buf_append (outgoing c) hdr) resp;
          inc \<leftarrow> buf_consume (incoming c) (4 + unat len);
          Some (db, c\<lparr>outgoing := out, incoming := inc\<rparr>, True) } })"

text \<open>\<open>while(try_one_request(c)){}\<close>\<close>

partial_function (option) drain :: "db \<Rightarrow> conn \<Rightarrow> (db \<times> conn) option" where
  "drain db c = do {
     (db, c, more) \<leftarrow> try_one_request db c;
     if more then drain db c else Some (db, c)
   }"

definition handle_read :: "db \<Rightarrow> conn \<Rightarrow> sys_read \<Rightarrow> (db \<times> conn) option" where
  "handle_read db c res =
     (case res of
        ReadAgain \<Rightarrow> Some (db, c)
      | ReadFail \<Rightarrow> Some (db, c\<lparr>want_close := True\<rparr>)
      | ReadData data \<Rightarrow>
          if data = [] then Some (db, c\<lparr>want_close := True\<rparr>)
          else do {
            (db, c) \<leftarrow> drain db (c\<lparr>incoming := buf_append (incoming c) data\<rparr>);
            Some (db, if outgoing c \<noteq> [] then c\<lparr>want_read := False, want_write := True\<rparr> else c) })"

definition handle_write :: "conn \<Rightarrow> (nat \<Rightarrow> sys_write) \<Rightarrow> conn option" where
  "handle_write c wr =
     (if outgoing c = [] then Some c
      else case wr (length (outgoing c)) of
        WriteAgain \<Rightarrow> Some c
      | WriteFail \<Rightarrow> Some (c\<lparr>want_close := True\<rparr>)
      | Written rv \<Rightarrow> do {
          out \<leftarrow> buf_consume (outgoing c) rv;
          let c = c\<lparr>outgoing := out\<rparr>;
          Some (if out = [] then c\<lparr>want_read := True, want_write := False\<rparr> else c) })"

subsection \<open>Timers\<close>

text \<open>The connection whose \<open>idle_node\<close> is \<open>idle_list_.next\<close>.\<close>

definition idle_front :: "server \<Rightarrow> conn option" where
  "idle_front srv = do {
     x \<leftarrow> s_links srv (s_idle_list srv);
     p \<leftarrow> dl_next x;
     s_conn srv p
   }"

definition next_timer_ms :: "server \<Rightarrow> (int \<times> server) option" where
  "next_timer_ms srv = do {
     e \<leftarrow> dlist_empty (s_links srv) (s_idle_list srv);
     next_ms \<leftarrow> (if \<not> e then do { conn \<leftarrow> idle_front srv; Some (last_active_ms conn + s_idle_timeout_ms srv) }
                else Some (- 1));
     let next_ms = (case d_ttl (s_db srv) of item # _ \<Rightarrow> if hi_val item < next_ms then hi_val item else next_ms
                    | [] \<Rightarrow> next_ms);
     if next_ms = - 1 then Some (- 1, srv)
     else do {
       let (now_ms, srv) = srv_now srv;
       if next_ms \<le> now_ms then Some (0, srv)
       else Some (sint (ucast (next_ms - now_ms) :: 32 word), srv) }
   }"

partial_function (option) reap_idle :: "server \<Rightarrow> u64 \<Rightarrow> server option" where
  "reap_idle srv now_ms = do {
     e \<leftarrow> dlist_empty (s_links srv) (s_idle_list srv);
     if e then Some srv
     else do {
       conn \<leftarrow> idle_front srv;
       if last_active_ms conn + s_idle_timeout_ms srv > now_ms then Some srv
       else do {
         srv \<leftarrow> conn_reset srv (c_fd conn);
         reap_idle srv now_ms } }
   }"

definition k_max_works :: nat where
  "k_max_works = 2000"

definition hnode_same :: "addr \<Rightarrow> addr \<Rightarrow> bool option" where
  "hnode_same a b = Some (b = a)"

definition expire_first :: "db \<Rightarrow> addr \<Rightarrow> db option" where
  "expire_first db ent = do {
     e \<leftarrow> d_entries db ent;
     (m, removed) \<leftarrow> hm_delete (d_map db) (e_hcode e) (hnode_same ent);
     entry_del (db\<lparr>d_map := m\<rparr>) ent
   }"

text \<open>The loop over the expired keys; the first argument counts down from \<open>k_max_works\<close>.\<close>

fun reap_keys :: "nat \<Rightarrow> db \<Rightarrow> u64 \<Rightarrow> db option" where
  "reap_keys works db now_ms =
     (case d_ttl db of
        [] \<Rightarrow> Some db
      | item # _ \<Rightarrow>
          if hi_val item \<le> now_ms then
            (case works of
               0 \<Rightarrow> Some db
             | Suc works' \<Rightarrow> do { db \<leftarrow> expire_first db (hi_ref item); reap_keys works' db now_ms })
          else Some db)"

declare reap_keys.simps [simp del]

definition process_timers :: "server \<Rightarrow> server option" where
  "process_timers srv = do {
     let (now_ms, srv) = srv_now srv;
     srv \<leftarrow> reap_idle srv now_ms;
     db \<leftarrow> reap_keys k_max_works (s_db srv) now_ms;
     Some (srv\<lparr>s_db := db\<rparr>)
   }"

subsection \<open>The event loop\<close>

record revents =
  re_in :: bool
  re_out :: bool
  re_hup :: bool      \<comment> \<open>\<open>POLLERR\<close> or \<open>POLLHUP\<close>\<close>
  re_other :: bool

text \<open>The events of a connection, and the results of the calls they lead to.\<close>

type_synonym event = "revents \<times> sys_read \<times> (nat \<Rightarrow> sys_write)"

datatype sys_poll =
    PollIntr
  | PollFail
  | PollReady bool "event list"     \<comment> \<open>whether the listener is readable; the events of each connection\<close>

definition poll_events :: "conn \<Rightarrow> bool \<times> bool" where
  "poll_events c = (want_read c, want_write c)"

fun poll_set :: "server \<Rightarrow> addr option list \<Rightarrow> (nat \<times> bool \<times> bool) list option" where
  "poll_set srv [] = Some []"
| "poll_set srv (None # ps) = poll_set srv ps"
| "poll_set srv (Some p # ps) = do {
     c \<leftarrow> s_conn srv p;
     args \<leftarrow> poll_set srv ps;
     Some ((c_fd c, poll_events c) # args) }"

text \<open>The body of the loop over the polled connections.\<close>

definition serve_conn :: "server \<Rightarrow> nat \<Rightarrow> event \<Rightarrow> server option" where
  "serve_conn srv fd ev =
     (case ev of (re, rd, wr) \<Rightarrow>
        if \<not> (re_in re \<or> re_out re \<or> re_hup re \<or> re_other re) then Some srv
        else if fd \<ge> length (s_conns srv) then Some srv
        else case s_conns srv ! fd of
          None \<Rightarrow> Some srv
        | Some p \<Rightarrow> do {
            c \<leftarrow> s_conn srv p;
            let (now, srv) = srv_now srv;
            let c = c\<lparr>last_active_ms := now\<rparr>;
            links \<leftarrow> dlist_detach (s_links srv) p;
            links \<leftarrow> dlist_insert_before links (s_idle_list srv) p;
            (db, c) \<leftarrow> (if re_in re then handle_read (s_db srv) c rd else Some (s_db srv, c));
            c \<leftarrow> (if re_out re then handle_write c wr else Some c);
            let srv = srv\<lparr>s_links := links, s_db := db, s_conn := (s_conn srv)(p \<mapsto> c)\<rparr>;
            if want_close c \<or> re_hup re then conn_reset srv fd else Some srv })"

fun serve_all :: "server \<Rightarrow> nat list \<Rightarrow> event list \<Rightarrow> server option" where
  "serve_all srv (fd # fds) (ev # evs) = do { srv \<leftarrow> serve_conn srv fd ev; serve_all srv fds evs }"
| "serve_all srv _ _ = Some srv"

text \<open>One iteration of \<open>run\<close>; \<open>die\<close> on a failed \<open>poll\<close> is \<open>None\<close>.\<close>

definition run_iteration :: "server \<Rightarrow> sys_poll \<Rightarrow> sys_accept \<Rightarrow> server option" where
  "run_iteration srv res acc = do {
     args \<leftarrow> poll_set srv (s_conns srv);
     (timeout, srv) \<leftarrow> next_timer_ms srv;
     (case res of
        PollIntr \<Rightarrow> Some srv
      | PollFail \<Rightarrow> None
      | PollReady listener evs \<Rightarrow> do {
          srv \<leftarrow> (if listener then accept_new srv acc else Some srv);
          srv \<leftarrow> serve_all srv (map fst args) evs;
          process_timers srv })
   }"

subsection \<open>Destruction\<close>

definition collect_node :: "addr \<Rightarrow> addr list \<Rightarrow> bool \<times> addr list" where
  "collect_node node all = (True, all @ [node])"

fun entry_del_all :: "db \<Rightarrow> addr list \<Rightarrow> db option" where
  "entry_del_all db [] = Some db"
| "entry_del_all db (p # ps) = do { db \<leftarrow> entry_del db p; entry_del_all db ps }"

definition server_destroy_db :: "db \<Rightarrow> db option" where
  "server_destroy_db db = do {
     all \<leftarrow> hm_foreach collect_node (d_map db) [];
     db \<leftarrow> entry_del_all db all;
     Some (db\<lparr>d_map := hm_clear (d_map db)\<rparr>)
   }"

text \<open>The destruction of the member \<open>conns_\<close>: every connection that is left, in the order of the vector.\<close>

fun conns_destroy :: "server \<Rightarrow> addr option list \<Rightarrow> server option" where
  "conns_destroy srv [] = Some srv"
| "conns_destroy srv (None # ps) = conns_destroy srv ps"
| "conns_destroy srv (Some p # ps) = do { srv \<leftarrow> conn_destroy srv p; conns_destroy srv ps }"

text \<open>The whole destructor; the worker pool, which is destroyed in between, is a component of its own.\<close>

definition server_destroy :: "server \<Rightarrow> server option" where
  "server_destroy srv = do {
     db \<leftarrow> server_destroy_db (s_db srv);
     let srv = srv\<lparr>s_db := db\<rparr>;
     srv \<leftarrow> conns_destroy srv (s_conns srv);
     Some (srv\<lparr>s_conns := []\<rparr>)
   }"

text \<open>The loops are computed by their equations.\<close>

declare drain.simps [code] reap_idle.simps [code]

end
