(* ===== verification/Database_Refine.thy ===== *)
theory Database_Refine
  imports Database
begin

text \<open>
  The database as a finite map from keys to values and deadlines.

  \<open>db_view db A\<close> relates a state of the code (hash index, entries, timer heap with its back
  indexes, queue of the workers) to an abstract key space \<open>A\<close> and includes every invariant:
  the index holds exactly the entries that are not queued for destruction, under the hash of
  their keys; every timer belongs to such an entry; every entry holds a well-formed value. The
  lemmas below show for each operation that it succeeds and what it does to the abstract key space.
\<close>

subsection \<open>The abstract key space\<close>

datatype val = VStr string | VZset "zpair list"

type_synonym keyspace = "string \<rightharpoonup> val \<times> u64 option"

definition val_of :: "entry \<Rightarrow> val \<Rightarrow> bool" where
  "val_of e v \<longleftrightarrow>
     (case e_type e of T_STR \<Rightarrow> v = VStr (e_str e) \<and> e_zset e = zset_empty
      | T_ZSET \<Rightarrow> \<exists>L. v = VZset L \<and> zset_view (e_zset e) L)"

text \<open>The entries handed to the worker pool, and the keys of the entries that are not.\<close>

definition queued :: "db \<Rightarrow> addr list" where
  "queued db = (case d_pool db of None \<Rightarrow> [] | Some q \<Rightarrow> q)"

definition lkeys :: "db \<Rightarrow> addr \<rightharpoonup> string" where
  "lkeys db p = (if p \<in> set (queued db) then None else map_option e_key (d_entries db p))"

definition entries_ok :: "db \<Rightarrow> bool" where
  "entries_ok db \<longleftrightarrow>
     finite (dom (d_entries db)) \<and> dom (d_idx db) = dom (d_entries db) \<and>
     (\<forall>p e. d_entries db p = Some e \<longrightarrow> e_hcode e = str_hash (e_key e) \<and> p < d_fresh db \<and> (\<exists>v. val_of e v)) \<and>
     distinct (queued db) \<and> set (queued db) \<subseteq> dom (d_entries db)"

definition db_inv :: "db \<Rightarrow> bool" where
  "db_inv db \<longleftrightarrow> entries_ok db \<and>
     hm_inv (d_map db) \<and> keyed_by (hm_mset (d_map db)) (lkeys db) \<and>
     ttl_inv (d_ttl db, d_idx db) \<and> dom (timers (d_ttl db)) \<subseteq> dom (lkeys db)"

definition db_abs :: "db \<Rightarrow> keyspace \<Rightarrow> bool" where
  "db_abs db A \<longleftrightarrow> dom A = ran (lkeys db) \<and>
     (\<forall>p e. d_entries db p = Some e \<longrightarrow> p \<notin> set (queued db) \<longrightarrow>
        (\<exists>v. A (e_key e) = Some (v, timers (d_ttl db) p) \<and> val_of e v))"

definition db_view :: "db \<Rightarrow> keyspace \<Rightarrow> bool" where
  "db_view db A \<longleftrightarrow> db_inv db \<and> db_abs db A"

lemma lkeys_Some: "lkeys db p = Some k \<longleftrightarrow> p \<notin> set (queued db) \<and> (\<exists>e. d_entries db p = Some e \<and> e_key e = k)"
  by (auto simp: lkeys_def)

lemma db_invD:
  assumes "db_inv db"
  shows "entries_ok db" "hm_inv (d_map db)" "keyed_by (hm_mset (d_map db)) (lkeys db)"
    "ttl_inv (d_ttl db, d_idx db)" "dom (timers (d_ttl db)) \<subseteq> dom (lkeys db)"
    "dom (d_idx db) = dom (d_entries db)" "distinct (queued db)" "set (queued db) \<subseteq> dom (d_entries db)"
    "finite (dom (d_entries db))"
  using assms unfolding db_inv_def entries_ok_def by blast+

lemma entries_okD:
  assumes "db_inv db" and "d_entries db p = Some e"
  shows "e_hcode e = str_hash (e_key e)" "p < d_fresh db" "\<exists>v. val_of e v" "p \<in> dom (d_idx db)"
  using assms unfolding db_inv_def entries_ok_def by blast+

lemma db_absD:
  assumes "db_view db A" and "lkeys db p = Some k"
  shows "\<exists>e v. d_entries db p = Some e \<and> e_key e = k \<and> A k = Some (v, timers (d_ttl db) p) \<and> val_of e v"
  using assms unfolding db_view_def db_abs_def lkeys_Some by blast

lemma lkeys_unique: "db_inv db \<Longrightarrow> lkeys db p = Some k \<Longrightarrow> lkeys db q = Some k \<Longrightarrow> p = q"
  using db_invD(3) keyed_by_unique by blast

lemma db_abs_None: "db_view db A \<Longrightarrow> A k = None \<longleftrightarrow> k \<notin> ran (lkeys db)"
  unfolding db_view_def db_abs_def by (metis domIff)

text \<open>Updates that keep the parts of the invariant they do not touch.\<close>

lemma queued_upd [simp]:
  "queued (db\<lparr>d_map := m\<rparr>) = queued db" "queued (db\<lparr>d_ttl := a\<rparr>) = queued db" "queued (db\<lparr>d_idx := ix\<rparr>) = queued db"
  "queued (db\<lparr>d_clock := c\<rparr>) = queued db" "queued (db\<lparr>d_fresh := n\<rparr>) = queued db"
  "queued (db\<lparr>d_entries := f\<rparr>) = queued db" "queued (db\<lparr>d_pool := q\<rparr>) = (case q of None \<Rightarrow> [] | Some l \<Rightarrow> l)"
  by (simp_all add: queued_def)

lemma lkeys_upd [simp]:
  "lkeys (db\<lparr>d_map := m\<rparr>) = lkeys db" "lkeys (db\<lparr>d_ttl := a\<rparr>) = lkeys db" "lkeys (db\<lparr>d_idx := ix\<rparr>) = lkeys db"
  "lkeys (db\<lparr>d_clock := c\<rparr>) = lkeys db" "lkeys (db\<lparr>d_fresh := n\<rparr>) = lkeys db"
  by (simp_all add: lkeys_def fun_eq_iff)

lemma db_view_clock [simp]: "db_view (db\<lparr>d_clock := c\<rparr>) A = db_view db A"
  by (simp add: db_view_def db_inv_def db_abs_def entries_ok_def)

lemma db_view_map:
  assumes "db_view db A" and "hm_inv m" and "hm_mset m = hm_mset (d_map db)"
  shows "db_view (db\<lparr>d_map := m\<rparr>) A"
  using assms by (simp add: db_view_def db_inv_def db_abs_def entries_ok_def)

subsection \<open>Looking up a key\<close>

lemma entry_eq_compares: "compares (lkeys db) key (entry_eq db key)"
  by (auto simp: compares_def lkeys_Some entry_eq_def)

lemma same_compares:
  assumes "db_inv db" and "lkeys db p = Some k"
  shows "compares (lkeys db) k (\<lambda>q. Some (q = p))"
  unfolding compares_def using assms(2) lkeys_unique [OF assms(1)] by (auto split: if_splits)

lemma db_find:
  assumes "db_view db A"
  shows "\<exists>m r. hm_lookup (d_map db) (str_hash key) (entry_eq db key) = Some (m, r) \<and> db_view (db\<lparr>d_map := m\<rparr>) A \<and>
    (\<forall>p. r = Some p \<longleftrightarrow> lkeys db p = Some key)"
proof -
  from assms have inv: "hm_inv (d_map db)" "keyed_by (hm_mset (d_map db)) (lkeys db)"
    using db_invD(2,3) by (auto simp: db_view_def)
  from hm.lookup_key [OF inv entry_eq_compares, of key] db_view_map [OF assms] show ?thesis by blast
qed

subsection \<open>Removing an entry\<close>

lemma ttl_inv_free:
  assumes "ttl_inv (a, ix)" and "p \<notin> dom (timers a)"
  shows "ttl_inv (a, ix(p := None))"
proof -
  have "hi_ref (a ! i) \<noteq> p" if "i < length a" for i
    using assms(2) that dom_timers [of a] by (metis image_eqI nth_mem)
  then show ?thesis using assms(1) by (simp add: ttl_inv_def heap_inv_def synced_def)
qed

lemma ran_remove: "inj_on f (dom f) \<Longrightarrow> f p = Some k \<Longrightarrow> ran (f(p := None)) = ran f - {k}"
  unfolding ran_def inj_on_def by (auto simp: domI split: if_splits) (metis option.inject)

text \<open>What remains when the entry \<open>p\<close> has left the index, the timers and the linked entries.\<close>

lemma db_view_drop:
  assumes v: "db_view db A" and p: "lkeys db p = Some k"
    and db': "entries_ok db'" "hm_inv (d_map db')" "keyed_by (hm_mset (d_map db')) (lkeys db')"
      "ttl_inv (d_ttl db', d_idx db')" "timers (d_ttl db') = (timers (d_ttl db))(p := None)"
      "lkeys db' = (lkeys db)(p := None)"
    and same: "\<And>q. q \<noteq> p \<Longrightarrow> d_entries db' q = d_entries db q"
    and qd: "\<And>q. q \<noteq> p \<Longrightarrow> q \<in> set (queued db') \<longleftrightarrow> q \<in> set (queued db)"
  shows "db_view db' (A(k := None))"
proof -
  from v have inv: "db_inv db" and abs: "db_abs db A" by (auto simp: db_view_def)
  have "dom (timers (d_ttl db')) \<subseteq> dom (lkeys db')" using db_invD(5) [OF inv] by (auto simp: db'(5,6))
  with db' have "db_inv db'" unfolding db_inv_def by blast
  moreover have "inj_on (lkeys db) (dom (lkeys db))" using db_invD(3) [OF inv] by (simp add: keyed_by_def)
  then have "ran (lkeys db') = ran (lkeys db) - {k}" unfolding db'(6) using p by (rule ran_remove)
  moreover have "dom A = ran (lkeys db)" using abs by (simp add: db_abs_def)
  moreover have "\<exists>v. (A(k := None)) (e_key e) = Some (v, timers (d_ttl db') q) \<and> val_of e v"
    if q: "d_entries db' q = Some e" "q \<notin> set (queued db')" for q e
  proof -
    have "lkeys db' q = Some (e_key e)" using q by (simp add: lkeys_Some)
    then have qp: "q \<noteq> p" and lq: "lkeys db q = Some (e_key e)" by (auto simp: db'(6) split: if_splits)
    then have "e_key e \<noteq> k" using lkeys_unique [OF inv p] by blast
    moreover have "d_entries db q = Some e" using same [OF qp] q(1) by simp
    ultimately show ?thesis using db_absD [OF v lq] qp db'(5) by auto
  qed
  ultimately show ?thesis by (auto simp: db_view_def db_abs_def)
qed

text \<open>The state in which \<open>entry_del\<close> is called: the entry is detached from the index.\<close>

lemma entry_del_sync_ok:
  assumes "d_entries db p = Some e" and "val_of e v"
  shows "entry_del_sync db p = Some (db\<lparr>d_entries := (d_entries db)(p := None), d_idx := (d_idx db)(p := None)\<rparr>)"
proof (cases "e_type e")
  case T_STR
  then show ?thesis using assms by (auto simp: entry_del_sync_def entry_free_def)
next
  case T_ZSET
  with assms(2) obtain L where "zset_view (e_zset e) L" by (auto simp: val_of_def)
  then obtain zs where "zset_clear (e_zset e) = Some zs" using zset_clear_ok by (auto simp: zset_view_def)
  with T_ZSET assms(1) show ?thesis by (simp add: entry_del_sync_def entry_free_def)
qed

lemma entries_ok_cong:
  "entries_ok db \<Longrightarrow> d_entries db' = d_entries db \<Longrightarrow> dom (d_idx db') = dom (d_idx db) \<Longrightarrow> d_fresh db' = d_fresh db \<Longrightarrow>
   queued db' = queued db \<Longrightarrow> entries_ok db'"
  by (simp add: entries_ok_def)

lemma entry_del_ok:
  assumes v: "db_view db A" and p: "lkeys db p = Some k"
    and m: "hm_inv m" "keyed_by (hm_mset m) ((lkeys db)(p := None))"
  shows "\<exists>db'. entry_del (db\<lparr>d_map := m\<rparr>) p = Some db' \<and> db_view db' (A(k := None)) \<and> d_clock db' = d_clock db \<and>
    lkeys db' = (lkeys db)(p := None) \<and> dom (d_entries db') \<subseteq> dom (d_entries db)"
proof -
  from v have inv: "db_inv db" by (simp add: db_view_def)
  note D = db_invD [OF inv]
  from p obtain e where e: "d_entries db p = Some e" "e_key e = k" "p \<notin> set (queued db)" by (auto simp: lkeys_Some)
  from entries_okD [OF inv e(1)] obtain w where w: "val_of e w" "p \<in> dom (d_idx db)" by blast
  from ttl_disarm_ok [OF D(4), of p] w(2) obtain a ix where t: "ttl_disarm (d_ttl db, d_idx db) p = Some (a, ix)"
    "ttl_inv (a, ix)" "timers a = (timers (d_ttl db))(p := None)" "dom ix = dom (d_idx db)" by auto
  let ?db2 = "db\<lparr>d_map := m, d_ttl := a, d_idx := ix\<rparr>"
  have set: "entry_set_ttl (db\<lparr>d_map := m\<rparr>) p (- 1) = Some ?db2" using t(1) by (simp add: entry_set_ttl_def)
  have ok2: "entries_ok ?db2" using t(4) by (intro entries_ok_cong [OF D(1)]) simp_all
  have drop: ?thesis if r: "entry_del (db\<lparr>d_map := m\<rparr>) p = Some db'" "entries_ok db'" "d_map db' = m" "d_ttl db' = a"
    "ttl_inv (a, d_idx db')" "lkeys db' = (lkeys db)(p := None)" "\<And>q. q \<noteq> p \<Longrightarrow> d_entries db' q = d_entries db q"
    "\<And>q. q \<noteq> p \<Longrightarrow> q \<in> set (queued db') \<longleftrightarrow> q \<in> set (queued db)" "d_clock db' = d_clock db" for db'
  proof -
    have "db_view db' (A(k := None))" using r m t(3) by (intro db_view_drop [OF v p]) simp_all
    moreover have "dom (d_entries db') \<subseteq> dom (d_entries db)" using r(7) e(1) by (metis domI domIff subsetI)
    ultimately show ?thesis using r(1,6,9) by blast
  qed
  let ?free = "?db2\<lparr>d_entries := (d_entries db)(p := None), d_idx := ix(p := None)\<rparr>"
  have sync: "entry_del_sync ?db2 p = Some ?free" using entry_del_sync_ok [of ?db2 p e w] e(1) w(1) by simp
  have free_ok: "entries_ok ?free" using ok2 e(3) by (auto simp: entries_ok_def)
  have free_ttl: "ttl_inv (a, ix(p := None))" using t(2,3) by (intro ttl_inv_free) auto
  have free_keys: "lkeys ?free = (lkeys db)(p := None)" by (auto simp: lkeys_def fun_eq_iff)
  show ?thesis
  proof (cases "\<exists>q. d_pool db = Some q \<and> (if e_type e = T_ZSET then hm_size (z_hmap (e_zset e)) else 0) > k_large_container_size")
    case True
    then obtain q where q: "d_pool db = Some q" by blast
    let ?db3 = "?db2\<lparr>d_pool := Some (q @ [p])\<rparr>"
    have qd: "queued db = q" using q by (simp add: queued_def)
    have del: "entry_del (db\<lparr>d_map := m\<rparr>) p = Some ?db3" using True q set e(1) by (auto simp: entry_del_def Let_def)
    have "entries_ok ?db3" using ok2 e(1,3) qd by (auto simp: entries_ok_def)
    moreover have "lkeys ?db3 = (lkeys db)(p := None)" using qd by (auto simp: lkeys_def fun_eq_iff)
    ultimately show ?thesis using del t(2) qd by (intro drop [of ?db3]) auto
  next
    case False
    then have "entry_del (db\<lparr>d_map := m\<rparr>) p = Some ?free"
      using set e(1) sync by (auto simp: entry_del_def Let_def split: option.splits)
    then show ?thesis using free_ok free_ttl free_keys by (intro drop [of ?free]) simp_all
  qed
qed

lemma entry_remove_ok:
  assumes v: "db_view db A" and p: "lkeys db p = Some k" and eq: "compares (lkeys db) k eq"
  shows "\<exists>m db'. hm_delete (d_map db) (str_hash k) eq = Some (m, Some p) \<and> entry_del (db\<lparr>d_map := m\<rparr>) p = Some db' \<and>
    db_view db' (A(k := None)) \<and> d_clock db' = d_clock db \<and> dom (d_entries db') \<subseteq> dom (d_entries db)"
proof -
  from v have inv: "db_inv db" by (simp add: db_view_def)
  from hm.del_key [OF db_invD(2,3) [OF inv] eq p] obtain m where m:
    "hm_delete (d_map db) (str_hash k) eq = Some (m, Some p)" "hm_inv m" "keyed_by (hm_mset m) ((lkeys db)(p := None))"
    by blast
  from entry_del_ok [OF v p m(2,3)] m(1) show ?thesis by blast
qed

subsection \<open>Timers, new entries and new values\<close>

lemma db_viewI:
  assumes "db_inv db" and "dom A = ran (lkeys db)"
    and "\<And>p e. d_entries db p = Some e \<Longrightarrow> p \<notin> set (queued db) \<Longrightarrow>
           \<exists>v. A (e_key e) = Some (v, timers (d_ttl db) p) \<and> val_of e v"
  shows "db_view db A"
  using assms unfolding db_view_def db_abs_def by blast

text \<open>The number of keys that the resource bounds below are about.\<close>

definition db_room :: "db \<Rightarrow> bool" where
  "db_room db \<longleftrightarrow> card (dom (d_entries db)) < 2 ^ 60"

lemma ttl_room:
  assumes "db_inv db" and "db_room db"
  shows "length (d_ttl db) < npos"
proof -
  note D = db_invD [OF assms(1)]
  have "distinct (map hi_ref (d_ttl db))" using D(4) by (simp add: ttl_inv_def heap_inv_def)
  then have "length (d_ttl db) = card (dom (timers (d_ttl db)))"
    using distinct_card [of "map hi_ref (d_ttl db)"] by (simp add: dom_timers)
  also have "\<dots> \<le> card (dom (d_entries db))"
  proof (rule card_mono [OF D(9)])
    have "dom (lkeys db) \<subseteq> dom (d_entries db)" by (auto simp: lkeys_Some)
    with D(5) show "dom (timers (d_ttl db)) \<subseteq> dom (d_entries db)" by blast
  qed
  also have "\<dots> < npos" using assms(2) by (simp add: db_room_def npos_def)
  finally show ?thesis .
qed

text \<open>Changing the deadline of one key.\<close>

lemma db_view_timers:
  assumes v: "db_view db A" and p: "lkeys db p = Some k" and A: "A k = Some (w, d)"
    and q: "ttl_inv (a, ix)" "dom ix = dom (d_idx db)" "timers a = (timers (d_ttl db))(p := d')"
  shows "db_view (db\<lparr>d_ttl := a, d_idx := ix\<rparr>) (A(k \<mapsto> (w, d')))"
proof (rule db_viewI)
  from v have inv: "db_inv db" and abs: "db_abs db A" by (auto simp: db_view_def)
  note D = db_invD [OF inv]
  let ?db = "db\<lparr>d_ttl := a, d_idx := ix\<rparr>"
  have "entries_ok ?db" using q(2) by (intro entries_ok_cong [OF D(1)]) simp_all
  moreover have "dom (timers a) \<subseteq> dom (lkeys db)" using D(5) p q(3) by (auto split: if_splits)
  ultimately show "db_inv ?db" using D q(1) by (simp add: db_inv_def)
  have "k \<in> ran (lkeys db)" using p by (rule ranI)
  moreover have "dom A = ran (lkeys db)" using abs by (simp add: db_abs_def)
  ultimately show "dom (A(k \<mapsto> (w, d'))) = ran (lkeys ?db)" by auto
  fix r e assume r: "d_entries ?db r = Some e" "r \<notin> set (queued ?db)"
  then have l: "lkeys db r = Some (e_key e)" by (simp add: lkeys_Some)
  from db_absD [OF v this] r(1) obtain u where u: "A (e_key e) = Some (u, timers (d_ttl db) r)" "val_of e u" by auto
  show "\<exists>v. (A(k \<mapsto> (w, d'))) (e_key e) = Some (v, timers (d_ttl ?db) r) \<and> val_of e v"
  proof (cases "r = p")
    case True
    with l p have "e_key e = k" by simp
    with u A True q(3) show ?thesis by simp
  next
    case False
    then have "e_key e \<noteq> k" using lkeys_unique [OF inv l] p by blast
    with u False q(3) show ?thesis by simp
  qed
qed

lemma entry_set_ttl_neg:
  assumes v: "db_view db A" and p: "lkeys db p = Some k" and A: "A k = Some (w, d)" and neg: "ttl < 0"
  shows "\<exists>db'. entry_set_ttl db p ttl = Some db' \<and> db_view db' (A(k \<mapsto> (w, None))) \<and> d_clock db' = d_clock db \<and>
    d_entries db' = d_entries db \<and> lkeys db' = lkeys db"
proof -
  from v have inv: "db_inv db" by (simp add: db_view_def)
  from p obtain e where "d_entries db p = Some e" by (auto simp: lkeys_Some)
  then have live: "p \<in> dom (d_idx db)" using entries_okD(4) [OF inv] by blast
  from ttl_disarm_ok [OF db_invD(4) [OF inv], of p] live obtain a ix where t:
    "ttl_disarm (d_ttl db, d_idx db) p = Some (a, ix)" "ttl_inv (a, ix)"
    "timers a = (timers (d_ttl db))(p := None)" "dom ix = dom (d_idx db)" by auto
  from db_view_timers [OF v p A t(2,4,3)] t(1) neg show ?thesis by (auto simp: entry_set_ttl_def)
qed

lemma entry_set_ttl_pos:
  assumes v: "db_view db A" and p: "lkeys db p = Some k" and A: "A k = Some (w, d)" and pos: "0 \<le> ttl"
    and room: "db_room db" and now: "get_monotonic_msec (d_clock db) = (now, c)"
  shows "\<exists>db'. entry_set_ttl db p ttl = Some db' \<and> db_view db' (A(k \<mapsto> (w, Some (now + word_of_int ttl)))) \<and>
    d_clock db' = c \<and> d_entries db' = d_entries db"
proof -
  from v have inv: "db_inv db" by (simp add: db_view_def)
  from p obtain e where "d_entries db p = Some e" by (auto simp: lkeys_Some)
  then have live: "p \<in> dom (d_idx db)" using entries_okD(4) [OF inv] by blast
  from ttl_arm_ok [OF db_invD(4) [OF inv], of p "now + word_of_int ttl"] live ttl_room [OF inv room] obtain a ix where t:
    "ttl_arm (d_ttl db, d_idx db) p (now + word_of_int ttl) = Some (a, ix)" "ttl_inv (a, ix)"
    "timers a = (timers (d_ttl db))(p \<mapsto> now + word_of_int ttl)" "dom ix = dom (d_idx db)" by auto
  have "db_view ((db\<lparr>d_clock := c\<rparr>)\<lparr>d_ttl := a, d_idx := ix\<rparr>) (A(k \<mapsto> (w, Some (now + word_of_int ttl))))"
    using v p A t by (intro db_view_timers) simp_all
  with t(1) pos now show ?thesis by (auto simp: entry_set_ttl_def db_now_def)
qed

text \<open>A new entry: allocation and insertion into the index.\<close>

lemma entry_add_ok:
  assumes v: "db_view db A" and new: "A k = None" and e: "e_key e = k" "e_hcode e = str_hash k" "val_of e w"
    and room: "db_room db"
  shows "\<exists>m. hm_insert (d_map db) \<lparr>hcode = str_hash k, owner = d_fresh db\<rparr> = Some m \<and>
    db_view ((fst (entry_new db e))\<lparr>d_map := m\<rparr>) (A(k \<mapsto> (w, None))) \<and>
    lkeys ((fst (entry_new db e))\<lparr>d_map := m\<rparr>) = (lkeys db)(d_fresh db \<mapsto> k)"
proof -
  from v have inv: "db_inv db" and abs: "db_abs db A" by (auto simp: db_view_def)
  note D = db_invD [OF inv]
  let ?p = "d_fresh db"
  have p: "d_entries db ?p = None" using entries_okD(2) [OF inv, of ?p] by (cases "d_entries db ?p") auto
  then have pq: "?p \<notin> set (queued db)" and pi: "?p \<notin> dom (d_idx db)" using D(6,8) by auto
  have lp: "lkeys db ?p = None" using p by (simp add: lkeys_def)
  have kn: "k \<notin> ran (lkeys db)" using new db_abs_None [OF v] by blast
  have "dom (lkeys db) \<subseteq> dom (d_entries db)" by (auto simp: lkeys_Some)
  then have "card (dom (lkeys db)) < 2 ^ 60"
    using room D(9) card_mono unfolding db_room_def by (metis le_less_trans)
  from hm.ins_key [OF D(2,3) lp kn this] obtain m where m:
    "hm_insert (d_map db) \<lparr>hcode = str_hash k, owner = ?p\<rparr> = Some m" "hm_inv m"
    "keyed_by (hm_mset m) ((lkeys db)(?p \<mapsto> k))" by blast
  let ?db = "(fst (entry_new db e))\<lparr>d_map := m\<rparr>"
  have sel: "d_entries ?db = (d_entries db)(?p \<mapsto> e)" "d_idx ?db = (d_idx db)(?p \<mapsto> npos)" "d_ttl ?db = d_ttl db"
    "queued ?db = queued db" "d_map ?db = m" "d_fresh ?db = ?p + 1"
    by (simp_all add: entry_new_def Let_def)
  have keys: "lkeys ?db = (lkeys db)(?p \<mapsto> k)" using e(1) pq unfolding lkeys_def [abs_def] sel by auto
  have tp: "?p \<notin> dom (timers (d_ttl db))" using D(5) lp by auto
  have ttl: "ttl_inv (d_ttl db, (d_idx db)(?p \<mapsto> npos))"
  proof -
    have "hi_ref (d_ttl db ! i) \<noteq> ?p" if "i < length (d_ttl db)" for i
      using tp that dom_timers [of "d_ttl db"] by (metis image_eqI nth_mem)
    then show ?thesis using D(4) by (simp add: ttl_inv_def heap_inv_def synced_def)
  qed
  have ok: "entries_ok ?db"
    unfolding entries_ok_def sel using D entries_okD(1-3) [OF inv] e by (auto simp: less_Suc_eq)
  have "db_view ?db (A(k \<mapsto> (w, None)))"
  proof (rule db_viewI)
    show "db_inv ?db" unfolding db_inv_def keys unfolding sel using ok m D(5) ttl by auto
    have "dom A = ran (lkeys db)" using abs by (simp add: db_abs_def)
    then show "dom (A(k \<mapsto> (w, None))) = ran (lkeys ?db)" using lp unfolding keys by simp
    fix r e' assume r: "d_entries ?db r = Some e'" "r \<notin> set (queued ?db)"
    show "\<exists>v. (A(k \<mapsto> (w, None))) (e_key e') = Some (v, timers (d_ttl ?db) r) \<and> val_of e' v"
    proof (cases "r = ?p")
      case True
      then show ?thesis using r e tp unfolding sel by (auto simp: domIff)
    next
      case False
      then have re: "d_entries db r = Some e'" "r \<notin> set (queued db)" using r unfolding sel by simp_all
      then have l: "lkeys db r = Some (e_key e')" by (simp add: lkeys_Some)
      then have "e_key e' \<noteq> k" using kn by (metis ranI)
      with db_absD [OF v l] re(1) show ?thesis unfolding sel by auto
    qed
  qed
  with m(1) keys show ?thesis by blast
qed

text \<open>Changing the value of one entry.\<close>

lemma entry_modify_ok:
  assumes v: "db_view db A" and p: "lkeys db p = Some k" and A: "A k = Some (w, d)"
    and e: "d_entries db p = Some e" "e_key e' = e_key e" "e_hcode e' = e_hcode e" "val_of e' w'"
  shows "db_view (db\<lparr>d_entries := (d_entries db)(p \<mapsto> e')\<rparr>) (A(k \<mapsto> (w', d)))"
    and "lkeys (db\<lparr>d_entries := (d_entries db)(p \<mapsto> e')\<rparr>) = lkeys db"
proof -
  from v have inv: "db_inv db" and abs: "db_abs db A" by (auto simp: db_view_def)
  note D = db_invD [OF inv]
  let ?db = "db\<lparr>d_entries := (d_entries db)(p \<mapsto> e')\<rparr>"
  show keys: "lkeys ?db = lkeys db" using e by (auto simp: lkeys_def fun_eq_iff)
  have dom: "dom (d_entries ?db) = dom (d_entries db)" using e(1) by auto
  have ok: "entries_ok ?db"
    unfolding entries_ok_def dom using D entries_okD(1-3) [OF inv] e by auto
  show "db_view ?db (A(k \<mapsto> (w', d)))"
  proof (rule db_viewI)
    show "db_inv ?db" unfolding db_inv_def keys using ok D by simp
    have "dom A = ran (lkeys db)" using abs by (simp add: db_abs_def)
    then show "dom (A(k \<mapsto> (w', d))) = ran (lkeys ?db)" unfolding keys using p by (auto intro: ranI)
    fix r f assume r: "d_entries ?db r = Some f" "r \<notin> set (queued ?db)"
    show "\<exists>v. (A(k \<mapsto> (w', d))) (e_key f) = Some (v, timers (d_ttl ?db) r) \<and> val_of f v"
    proof (cases "r = p")
      case True
      from db_absD [OF v p] e(1) have "e_key e = k" "d = timers (d_ttl db) p" using A by auto
      with True r e show ?thesis by auto
    next
      case False
      then have re: "d_entries db r = Some f" "r \<notin> set (queued db)" using r by simp_all
      then have l: "lkeys db r = Some (e_key f)" by (simp add: lkeys_Some)
      then have "e_key f \<noteq> k" using lkeys_unique [OF inv l] p False by blast
      with db_absD [OF v l] re(1) show ?thesis by auto
    qed
  qed
qed

text \<open>The worker's part of a removal does not touch the key space.\<close>

lemma worker_step_ok:
  assumes v: "db_view db A" and p: "p \<in> set (queued db)"
  shows "\<exists>db'. worker_step db p = Some db' \<and> db_view db' A \<and> p \<notin> dom (d_entries db') \<and> queued db' = remove1 p (queued db) \<and>
    d_clock db' = d_clock db \<and> dom (d_entries db') \<subseteq> dom (d_entries db) \<and> dom (d_entries db') = dom (d_entries db) - {p}"
proof -
  from v have inv: "db_inv db" and abs: "db_abs db A" by (auto simp: db_view_def)
  note D = db_invD [OF inv]
  from p obtain q where q: "d_pool db = Some q" "queued db = q" by (cases "d_pool db") (auto simp: queued_def)
  from p D(8) obtain e where e: "d_entries db p = Some e" by blast
  from entries_okD(3) [OF inv e] obtain w where w: "val_of e w" by blast
  let ?db = "db\<lparr>d_pool := Some (remove1 p q), d_entries := (d_entries db)(p := None), d_idx := (d_idx db)(p := None)\<rparr>"
  have step: "worker_step db p = Some ?db"
    using entry_del_sync_ok [of "db\<lparr>d_pool := Some (remove1 p q)\<rparr>" p e w] e w p q by (simp add: worker_step_def)
  have qs: "set (remove1 p q) = set q - {p}" using D(7) q(2) by simp
  have keys: "lkeys ?db = lkeys db" using p q(2) qs by (auto simp: lkeys_def fun_eq_iff)
  have tp: "p \<notin> dom (timers (d_ttl db))" using D(5) p by (auto simp: lkeys_Some)
  have ok: "entries_ok ?db"
    unfolding entries_ok_def using D(6-9) entries_okD(1-3) [OF inv] q(2) qs by auto
  have "db_inv ?db" unfolding db_inv_def keys using ok D(2-5) ttl_inv_free [OF D(4) tp] by simp
  moreover have "db_abs ?db A" using abs p q(2) qs unfolding db_abs_def keys by auto
  ultimately show ?thesis using step q(2) by (auto simp: db_view_def)
qed

subsection \<open>The database at start, and a small one\<close>

lemma db_init_view: "db_view (db_init c) Map.empty"
proof -
  have q: "queued (db_init c) = []" by (simp add: queued_def db_init_def)
  have l: "lkeys (db_init c) = Map.empty" by (simp add: lkeys_def fun_eq_iff db_init_def)
  have "ttl_inv ([], Map.empty)"
    by (simp add: ttl_inv_def heap_inv_def synced_def heap_ok_def)
  then show ?thesis
    unfolding db_view_def db_inv_def db_abs_def entries_ok_def q l
    by (simp add: db_init_def keyed_by_def timers_def)
qed

definition demo_clock :: clock where
  "demo_clock = \<lparr>readings = (\<lambda>n. \<lparr>tv_sec = of_nat (min n 1000), tv_nsec = 500000000\<rparr>), n_read = 0\<rparr>"

definition demo_entry :: entry where
  "demo_entry = \<lparr>e_hcode = str_hash ''k'', e_key = ''k'', e_type = T_STR, e_str = ''v'', e_zset = zset_empty\<rparr>"

definition demo_db :: db where
  "demo_db = (fst (entry_new (db_init demo_clock) demo_entry))
     \<lparr>d_map := the (hm_insert hmap_empty \<lparr>hcode = str_hash ''k'', owner = 0\<rparr>)\<rparr>"

lemma demo_db_view: "db_view demo_db [''k'' \<mapsto> (VStr ''v'', None)]"
  and demo_db_keys: "lkeys demo_db = [0 \<mapsto> ''k'']"
proof -
  have e: "val_of demo_entry (VStr ''v'')" "e_key demo_entry = ''k''" "e_hcode demo_entry = str_hash ''k''"
    by (simp_all add: val_of_def demo_entry_def)
  have r: "db_room (db_init demo_clock)" by (simp add: db_room_def db_init_def)
  have i: "d_map (db_init demo_clock) = hmap_empty" "d_fresh (db_init demo_clock) = 0" "lkeys (db_init demo_clock) = Map.empty"
    by (auto simp: db_init_def lkeys_def)
  from entry_add_ok [OF db_init_view [of demo_clock] _ e(2,3,1) r] i
  show "db_view demo_db [''k'' \<mapsto> (VStr ''v'', None)]" "lkeys demo_db = [0 \<mapsto> ''k'']"
    by (auto simp: demo_db_def)
qed

lemma demo_db_room: "db_room demo_db"
  by (simp add: db_room_def demo_db_def entry_new_def db_init_def)

text \<open>The same entry, waiting for its destruction by a worker.\<close>

definition demo_queued :: db where
  "demo_queued = (fst (entry_new (db_init demo_clock) demo_entry))\<lparr>d_pool := Some [0]\<rparr>"

lemma demo_queued_view: "db_view demo_queued Map.empty"
proof -
  have l: "lkeys demo_queued = Map.empty"
    by (simp add: demo_queued_def lkeys_def queued_def fun_eq_iff entry_new_def db_init_def)
  have t: "ttl_inv ([], [0 \<mapsto> npos])"
    by (simp add: ttl_inv_def heap_inv_def synced_def heap_ok_def)
  have "val_of demo_entry (VStr ''v'')" by (simp add: val_of_def demo_entry_def)
  then have "\<exists>v. val_of demo_entry v" ..
  with t show ?thesis
    unfolding db_view_def db_inv_def db_abs_def entries_ok_def l
    by (simp add: demo_queued_def db_init_def keyed_by_def entry_new_def queued_def)
      (simp add: demo_entry_def timers_def)
qed

subsection \<open>Properties\<close>

text \<open>\<open>entry_set_ttl\<close> on an entry of the key space always succeeds. A negative argument removes
  the deadline, any other sets it to the current time plus the argument (modulo $2^{64}$). No
  other key is touched and every invariant of the database is kept.\<close>

theorem entry_set_ttl_correct:
  assumes "db_view db A" and "lkeys db p = Some k" and "A k = Some (w, d)" and "db_room db"
  shows "\<exists>db'. entry_set_ttl db p ttl_ms = Some db' \<and>
    db_view db' (A(k \<mapsto> (w, if ttl_ms < 0 then None else Some (fst (get_monotonic_msec (d_clock db)) + word_of_int ttl_ms))))"
proof (cases "ttl_ms < 0")
  case True
  with entry_set_ttl_neg [OF assms(1-3)] show ?thesis by auto
next
  case False
  with entry_set_ttl_pos [OF assms(1-3) _ assms(4) prod.collapse [symmetric], of ttl_ms] show ?thesis by auto
qed

theorem entry_set_ttl_correct_witness:
  "\<exists>db'. entry_set_ttl demo_db 0 700 = Some db' \<and> db_view db' [''k'' \<mapsto> (VStr ''v'', Some 1200)]"
proof -
  have "fst (get_monotonic_msec (d_clock demo_db)) = 500"
    by (simp add: demo_db_def entry_new_def db_init_def demo_clock_def get_monotonic_msec_def msec_def)
  with entry_set_ttl_correct [OF demo_db_view _ _ demo_db_room, of 0 "''k''" "VStr ''v''" None 700]
  show ?thesis by (simp add: demo_db_keys)
qed

text \<open>C32: removing an entry, that is detaching its node from the index and calling \<open>entry_del\<close>,
  removes exactly its key, with its deadline. This holds whether the value is destroyed on
  the spot or handed to the worker pool.\<close>

theorem entry_removal_correct:
  assumes "db_view db A" and "lkeys db p = Some k"
  shows "\<exists>m db'. hm_delete (d_map db) (str_hash k) (entry_eq db k) = Some (m, Some p) \<and>
    entry_del (db\<lparr>d_map := m\<rparr>) p = Some db' \<and> db_view db' (A(k := None))"
  using entry_remove_ok [OF assms entry_eq_compares] by blast

theorem entry_removal_correct_witness:
  "\<exists>m db'. hm_delete (d_map demo_db) (str_hash ''k'') (entry_eq demo_db ''k'') = Some (m, Some 0) \<and>
    entry_del (demo_db\<lparr>d_map := m\<rparr>) 0 = Some db' \<and> db_view db' Map.empty"
  using entry_removal_correct [OF demo_db_view, of 0 "''k''"] by (simp add: demo_db_keys)

text \<open>Whenever a worker executes a queued \<open>entry_del_task\<close>, in any order and at any time, the
  entry is alive, it is freed exactly once, and the key space seen by the commands does not
  change.\<close>

theorem worker_step_invisible:
  assumes "db_view db A" and "p \<in> set (queued db)"
  shows "\<exists>db'. worker_step db p = Some db' \<and> db_view db' A \<and> p \<notin> dom (d_entries db') \<and> p \<notin> set (queued db')"
proof -
  have "distinct (queued db)" using db_invD(7) assms(1) unfolding db_view_def by blast
  then have "p \<notin> set (remove1 p (queued db))" by simp
  with worker_step_ok [OF assms] show ?thesis by auto
qed

theorem worker_step_invisible_witness:
  "\<exists>db'. worker_step demo_queued 0 = Some db' \<and> db_view db' Map.empty \<and> 0 \<notin> dom (d_entries db') \<and> 0 \<notin> set (queued db')"
  using worker_step_invisible [OF demo_queued_view, of 0] by (simp add: demo_queued_def)

end
