(* ===== verification/Command_Spec.thy ===== *)
theory Command_Spec
  imports Command Database_Refine
begin

text \<open>
  What the commands promise, on the abstract key space and the clock: the documented behaviour
  of every verb of \<open>src/server/command.cpp\<close>, without hash tables, trees, heaps or buffers.
\<close>

subsection \<open>Specification\<close>

type_synonym kstate = "keyspace \<times> clock"

text \<open>Accessing a key first drops it when its deadline has passed; the clock is read only when
  there is a deadline.\<close>

definition expire_key :: "string \<Rightarrow> kstate \<Rightarrow> kstate" where
  "expire_key k s =
     (case fst s k of
        Some (v, Some d) \<Rightarrow>
          (let (now, c) = get_monotonic_msec (snd s) in (if d \<le> now then (fst s)(k := None) else fst s, c))
      | _ \<Rightarrow> s)"

definition wrongtype :: reply where
  "wrongtype = RErr ERR_TYPE WRONGTYPE_MSG"

definition sp_get :: "string \<Rightarrow> kstate \<Rightarrow> reply \<times> kstate" where
  "sp_get k s = (let s = expire_key k s in
     (case fst s k of None \<Rightarrow> RNil | Some (VStr v, _) \<Rightarrow> RStr v | Some (VZset _, _) \<Rightarrow> wrongtype, s))"

definition sp_set :: "string \<Rightarrow> string \<Rightarrow> kstate \<Rightarrow> reply \<times> kstate" where
  "sp_set k v s = (let (A, c) = expire_key k s in
     case A k of Some (VZset _, _) \<Rightarrow> (wrongtype, A, c) | _ \<Rightarrow> (RNil, A(k \<mapsto> (VStr v, None)), c))"

definition sp_del :: "string \<Rightarrow> kstate \<Rightarrow> reply \<times> kstate" where
  "sp_del k s = (let (A, c) = expire_key k s in (RInt (if A k = None then 0 else 1), A(k := None), c))"

definition sp_expire :: "string \<Rightarrow> string \<Rightarrow> int \<Rightarrow> kstate \<Rightarrow> reply \<times> kstate" where
  "sp_expire k arg unit s =
     (case str2int arg of
        None \<Rightarrow> (RErr ERR_ARG ''value is not an integer'', s)
      | Some n \<Rightarrow> (let (A, c) = expire_key k s in
          case A k of
            None \<Rightarrow> (RInt 0, A, c)
          | Some (v, d) \<Rightarrow>
              if n \<le> 0 then (RInt 1, A(k := None), c)
              else let (now, c) = get_monotonic_msec c
                   in (RInt 1, A(k \<mapsto> (v, Some (now + word_of_int (min n (INT64_MAX div unit) * unit)))), c)))"

definition sp_ttl :: "string \<Rightarrow> bool \<Rightarrow> kstate \<Rightarrow> reply \<times> kstate" where
  "sp_ttl k in_ms s = (let (A, c) = expire_key k s in
     case A k of
       None \<Rightarrow> (RInt (- 2), A, c)
     | Some (v, None) \<Rightarrow> (RInt (- 1), A, c)
     | Some (v, Some d) \<Rightarrow>
         (let (now, c) = get_monotonic_msec c; rem = (if now < d then d - now else 0)
          in (RInt (if in_ms then rem else (rem + 999) div 1000), A, c)))"

definition sp_persist :: "string \<Rightarrow> kstate \<Rightarrow> reply \<times> kstate" where
  "sp_persist k s = (let (A, c) = expire_key k s in
     case A k of Some (v, Some d) \<Rightarrow> (RInt 1, A(k \<mapsto> (v, None)), c) | _ \<Rightarrow> (RInt 0, A, c))"

definition sp_zadd :: "string \<Rightarrow> string \<Rightarrow> string \<Rightarrow> kstate \<Rightarrow> reply \<times> kstate" where
  "sp_zadd k arg name s =
     (case str2dbl arg of
        None \<Rightarrow> (RErr ERR_ARG ''value is not a valid float'', s)
      | Some x \<Rightarrow> (let (A, c) = expire_key k s in
          case A k of
            None \<Rightarrow> (RInt 1, A(k \<mapsto> (VZset (zadd_spec name x []), None)), c)
          | Some (VStr _, _) \<Rightarrow> (wrongtype, A, c)
          | Some (VZset L, d) \<Rightarrow>
              (RInt (if zscore_of L name = None then 1 else 0), A(k \<mapsto> (VZset (zadd_spec name x L), d)), c)))"

definition sp_zrem :: "string \<Rightarrow> string \<Rightarrow> kstate \<Rightarrow> reply \<times> kstate" where
  "sp_zrem k name s = (let (A, c) = expire_key k s in
     case A k of
       None \<Rightarrow> (RInt 0, A, c)
     | Some (VStr _, _) \<Rightarrow> (wrongtype, A, c)
     | Some (VZset L, d) \<Rightarrow>
         (RInt (if zscore_of L name = None then 0 else 1), A(k \<mapsto> (VZset (zrem_spec name L), d)), c))"

definition sp_zscore :: "string \<Rightarrow> string \<Rightarrow> kstate \<Rightarrow> reply \<times> kstate" where
  "sp_zscore k name s = (let (A, c) = expire_key k s in
     case A k of
       None \<Rightarrow> (RNil, A, c)
     | Some (VStr _, _) \<Rightarrow> (wrongtype, A, c)
     | Some (VZset L, d) \<Rightarrow> (case zscore_of L name of None \<Rightarrow> RNil | Some x \<Rightarrow> RDbl x, A, c))"

text \<open>The pairs of a range query: those from rank \<open>r + offset\<close> on, where \<open>r\<close> is the rank of the
  first pair not below \<open>(score, name)\<close>, provided both ranks exist; as many as it takes to reach
  \<open>limit\<close> output elements, two for each pair.\<close>

definition zslice :: "zpair list \<Rightarrow> dbl \<Rightarrow> string \<Rightarrow> int \<Rightarrow> int \<Rightarrow> zpair list" where
  "zslice L x name offset limit =
     (let r = length (takeWhile (\<lambda>y. zkey y < zkey (x, name)) L); i = int r + offset
      in if r < length L \<and> 0 \<le> i then take (nat ((limit + 1) div 2)) (drop (nat i) L) else [])"

definition sp_zquery :: "string \<Rightarrow> string \<Rightarrow> string \<Rightarrow> string \<Rightarrow> string \<Rightarrow> kstate \<Rightarrow> reply \<times> kstate" where
  "sp_zquery k arg name offset_arg limit_arg s =
     (case str2dbl arg of
        None \<Rightarrow> (RErr ERR_ARG ''value is not a valid float'', s)
      | Some x \<Rightarrow>
          (case (str2int offset_arg, str2int limit_arg) of
             (Some offset, Some limit) \<Rightarrow>
               (let (A, c) = expire_key k s in
                (case A k of
                   None \<Rightarrow> RArr []
                 | Some (VStr _, _) \<Rightarrow> wrongtype
                 | Some (VZset L, d) \<Rightarrow> RArr (concat (map (\<lambda>y. [RStr (snd y), RDbl (fst y)]) (zslice L x name offset limit))),
                 A, c))
           | _ \<Rightarrow> (RErr ERR_ARG ''value is not an integer'', s)))"

definition sp_unknown :: "kstate \<Rightarrow> reply \<times> kstate" where
  "sp_unknown s = (RErr ERR_UNKNOWN ''unknown command'', s)"

definition sp_request :: "string list \<Rightarrow> kstate \<Rightarrow> reply \<times> kstate" where
  "sp_request cmd s =
     (case cmd of
        [] \<Rightarrow> (RErr ERR_ARG ''empty command'', s)
      | [verb, k] \<Rightarrow>
          (let oper = to_upper verb in
           if oper = ''GET'' then sp_get k s
           else if oper = ''DEL'' then sp_del k s
           else if oper = ''TTL'' then sp_ttl k False s
           else if oper = ''PTTL'' then sp_ttl k True s
           else if oper = ''PERSIST'' then sp_persist k s
           else sp_unknown s)
      | [verb, k, x] \<Rightarrow>
          (let oper = to_upper verb in
           if oper = ''SET'' then sp_set k x s
           else if oper = ''EXPIRE'' then sp_expire k x 1000 s
           else if oper = ''PEXPIRE'' then sp_expire k x 1 s
           else if oper = ''ZREM'' then sp_zrem k x s
           else if oper = ''ZSCORE'' then sp_zscore k x s
           else sp_unknown s)
      | [verb, k, x, y] \<Rightarrow> if to_upper verb = ''ZADD'' then sp_zadd k x y s else sp_unknown s
      | [verb, k, x, y, z, w] \<Rightarrow> if to_upper verb = ''ZQUERY'' then sp_zquery k x y z w s else sp_unknown s
      | _ \<Rightarrow> sp_unknown s)"

text \<open>A request relates the key space and the clock before it to the reply and to those after it.
  Only the order of the keys in the reply of \<open>KEYS\<close> is left open.\<close>

definition request_spec :: "string list \<Rightarrow> kstate \<Rightarrow> reply \<Rightarrow> kstate \<Rightarrow> bool" where
  "request_spec cmd s r s' \<longleftrightarrow>
     (if \<exists>verb. cmd = [verb] \<and> to_upper verb = ''KEYS''
      then s' = s \<and> (\<exists>ks. r = RArr (map RStr ks) \<and> distinct ks \<and> set ks = dom (fst s))
      else (r, s') = sp_request cmd s)"

end
