(* ===== verification/Command_Refine.thy ===== *)
theory Command_Refine
  imports Command_Spec
begin

text \<open>
  The handlers implement the specification. \<open>serves n db s\<close> says that the database \<open>db\<close> satisfies its
  invariants and represents the abstract state \<open>s\<close>, with at most \<open>n\<close> entries and at most \<open>n\<close> pairs in a
  sorted set; \<open>answers\<close> is the result of a handler in these terms. There is one lemma per
  handler, and the dispatcher collects them.
\<close>

subsection \<open>Looking up a key\<close>

text \<open>The database implements the abstract state \<open>s\<close>, with at most \<open>n\<close> entries and at most \<open>n\<close>
  pairs in each sorted set.\<close>

definition small :: "nat \<Rightarrow> keyspace \<Rightarrow> bool" where
  "small n A \<longleftrightarrow> (\<forall>k L d. A k = Some (VZset L, d) \<longrightarrow> length L \<le> n)"

definition serves :: "nat \<Rightarrow> db \<Rightarrow> kstate \<Rightarrow> bool" where
  "serves n db s \<longleftrightarrow> db_view db (fst s) \<and> d_clock db = snd s \<and> card (dom (d_entries db)) \<le> n \<and> small n (fst s)"

lemma small_upd:
  "small n A \<Longrightarrow> small n (A(k := None))" "small n A \<Longrightarrow> small n (A(k \<mapsto> (VStr v, d)))"
  "small n A \<Longrightarrow> length L \<le> n \<Longrightarrow> small n (A(k \<mapsto> (VZset L, d)))"
  "small n A \<Longrightarrow> A k = Some (w, d') \<Longrightarrow> small n (A(k \<mapsto> (w, d)))"
  by (auto simp: small_def)

lemma serves_room: "serves n db s \<Longrightarrow> n < 2 ^ 60 \<Longrightarrow> db_room db"
  by (simp add: serves_def db_room_def)

lemma serves_Suc: "serves n db s \<Longrightarrow> serves (Suc n) db s"
  by (auto simp: serves_def small_def intro: le_SucI)

lemma remove_entry_ok:
  assumes v: "db_view db A" and p: "lkeys db p = Some k"
  shows "\<exists>db'. remove_entry db p = Some db' \<and> db_view db' (A(k := None)) \<and> d_clock db' = d_clock db \<and>
    dom (d_entries db') \<subseteq> dom (d_entries db)"
proof -
  have inv: "db_inv db" using v by (simp add: db_view_def)
  from p obtain e where e: "d_entries db p = Some e" "e_key e = k" by (auto simp: lkeys_Some)
  moreover have "e_hcode e = str_hash k" using entries_okD(1) [OF inv e(1)] e(2) by simp
  ultimately show ?thesis using entry_remove_ok [OF v p entry_eq_compares [of db k]] by (auto simp: remove_entry_def)
qed

lemma card_entries_mono:
  "db_inv db \<Longrightarrow> dom (d_entries db') \<subseteq> dom (d_entries db) \<Longrightarrow> card (dom (d_entries db)) \<le> n \<Longrightarrow> card (dom (d_entries db')) \<le> n"
  using card_mono [OF db_invD(9)] by (meson le_trans)

text \<open>The state of an entry that is linked under the key \<open>k\<close>.\<close>

definition holds :: "db \<Rightarrow> addr \<Rightarrow> string \<Rightarrow> entry \<Rightarrow> val \<Rightarrow> u64 option \<Rightarrow> bool" where
  "holds db p k e v d \<longleftrightarrow> lkeys db p = Some k \<and> d_entries db p = Some e \<and> e_key e = k \<and> val_of e v \<and>
     timers (d_ttl db) p = d \<and>
     (case d of None \<Rightarrow> d_idx db p = Some npos
      | Some t \<Rightarrow> \<exists>i < length (d_ttl db). i \<noteq> npos \<and> d_idx db p = Some i \<and> hi_val (d_ttl db ! i) = t)"

lemma holds_lkeys:
  assumes "db_view db A" and "lkeys db p = Some k"
  shows "\<exists>e v d. A k = Some (v, d) \<and> holds db p k e v d"
proof -
  have inv: "db_inv db" using assms(1) by (simp add: db_view_def)
  from db_absD [OF assms] obtain e v where e: "d_entries db p = Some e" "e_key e = k"
    "A k = Some (v, timers (d_ttl db) p)" "val_of e v" by blast
  have "p \<in> dom (d_idx db)" using entries_okD(4) [OF inv e(1)] .
  with ttl_inv_idx [OF db_invD(4) [OF inv], of p]
  have "case timers (d_ttl db) p of None \<Rightarrow> d_idx db p = Some npos
      | Some t \<Rightarrow> \<exists>i < length (d_ttl db). i \<noteq> npos \<and> d_idx db p = Some i \<and> hi_val (d_ttl db ! i) = t"
    by (auto split: option.splits)
  with e assms(2) show ?thesis unfolding holds_def by blast
qed

lemma lookup_entry_ok:
  assumes s: "serves n db s"
  shows "\<exists>db' r. lookup_entry db k = Some (db', r) \<and> serves n db' (expire_key k s) \<and>
    (case r of None \<Rightarrow> fst (expire_key k s) k = None
     | Some p \<Rightarrow> \<exists>e v d. fst (expire_key k s) k = Some (v, d) \<and> holds db' p k e v d)"
proof -
  let ?A = "fst s" and ?c = "snd s"
  from s have v: "db_view db ?A" and c: "d_clock db = ?c"
    and sz: "card (dom (d_entries db)) \<le> n" "small n ?A" by (simp_all add: serves_def)
  from db_find [OF v, of k] obtain m r where m: "hm_lookup (d_map db) (str_hash k) (entry_eq db k) = Some (m, r)"
    "db_view (db\<lparr>d_map := m\<rparr>) ?A" "\<And>p. r = Some p \<longleftrightarrow> lkeys db p = Some k" by blast
  let ?db = "db\<lparr>d_map := m\<rparr>"
  have inv: "db_inv ?db" using m(2) by (simp add: db_view_def)
  note sem = lookup_entry_def make_probe_def m(1) Let_def db_now_def
  show ?thesis
  proof (cases r)
    case None
    then have "?A k = None" using db_abs_None [OF v, of k] m(3) by (auto simp: ran_def)
    then have "expire_key k s = s" by (simp add: expire_key_def)
    with None m(2) c sz \<open>?A k = None\<close> show ?thesis by (simp add: sem serves_def)
  next
    case (Some p)
    then have p: "lkeys ?db p = Some k" using m(3) by simp
    from holds_lkeys [OF m(2) p] obtain e w d where h: "?A k = Some (w, d)" "holds ?db p k e w d" by blast
    show ?thesis
    proof (cases d)
      case None
      then have "expire_key k s = s" using h(1) by (simp add: expire_key_def)
      with None Some m(2) c sz h show ?thesis by (auto simp: sem serves_def holds_def)
    next
      case (Some t)
      from h(2) Some obtain i where i: "i < length (d_ttl db)" "i \<noteq> npos" "d_idx db p = Some i" "hi_val (d_ttl db ! i) = t"
        by (auto simp: holds_def)
      obtain now c' where now: "get_monotonic_msec ?c = (now, c')" by fastforce
      let ?dc = "?db\<lparr>d_clock := c'\<rparr>"
      have vc: "db_view ?dc ?A" using m(2) by (subst db_view_clock)
      show ?thesis
      proof (cases "t \<le> now")
        case True
        from remove_entry_ok [OF vc, of p k] p obtain db' where db': "remove_entry ?dc p = Some db'"
          "db_view db' (?A(k := None))" "d_clock db' = c'" "dom (d_entries db') \<subseteq> dom (d_entries db)" by auto
        have "expire_key k s = (?A(k := None), c')" using h(1) Some now True by (simp add: expire_key_def)
        moreover have "card (dom (d_entries db')) \<le> n" using card_entries_mono [OF inv, of db' n] db'(4) sz by simp
        moreover have "lookup_entry db k = Some (db', None)" using db'(1) \<open>r = Some p\<close> i now c True by (simp add: sem)
        ultimately show ?thesis using db' sz small_upd(1) by (simp add: serves_def)
      next
        case False
        have "expire_key k s = (?A, c')" using h(1) Some now False by (simp add: expire_key_def)
        moreover have "lookup_entry db k = Some (?dc, Some p)" using \<open>r = Some p\<close> i now c False by (simp add: sem)
        moreover have "holds ?dc p k e w d" using h(2) by (simp add: holds_def Some)
        ultimately show ?thesis using vc h(1) sz by (auto simp: serves_def)
      qed
    qed
  qed
qed

lemma lookup_entryE:
  assumes "serves n db s"
  obtains (absent) db' A c where "expire_key k s = (A, c)" "lookup_entry db k = Some (db', None)" "serves n db' (A, c)" "A k = None"
  | (present) db' A c p e v d where "expire_key k s = (A, c)" "lookup_entry db k = Some (db', Some p)" "serves n db' (A, c)"
      "A k = Some (v, d)" "holds db' p k e v d"
proof -
  obtain A c where s': "expire_key k s = (A, c)" by fastforce
  from lookup_entry_ok [OF assms, of k, unfolded s' fst_conv] obtain db' r where l: "lookup_entry db k = Some (db', r)" "serves n db' (A, c)"
    "case r of None \<Rightarrow> A k = None | Some p \<Rightarrow> \<exists>e v d. A k = Some (v, d) \<and> holds db' p k e v d" by blast
  show thesis
  proof (cases r)
    case None
    with l show thesis by (intro absent [OF s']) simp_all
  next
    case (Some p)
    with l(3) obtain e v d where "A k = Some (v, d)" "holds db' p k e v d" by auto
    with l Some show thesis by (intro present [OF s']) simp_all
  qed
qed

text \<open>A handler's result: one encoded reply is appended and the new database implements the new
  abstract state.\<close>

definition answers :: "(db \<times> byte list) option \<Rightarrow> nat \<Rightarrow> byte list \<Rightarrow> reply \<times> kstate \<Rightarrow> bool" where
  "answers res n out rs \<longleftrightarrow> (\<exists>db'. res = Some (db', out @ enc_reply (fst rs)) \<and> serves n db' (snd rs))"

lemma answersI: "res = Some (db', out @ enc_reply r) \<Longrightarrow> serves n db' s \<Longrightarrow> answers res n out (r, s)"
  by (auto simp: answers_def)

lemma answers_Suc: "answers res n out rs \<Longrightarrow> answers res (Suc n) out rs"
  unfolding answers_def using serves_Suc by blast

lemma holdsD:
  assumes "holds db p k e v d"
  shows "lkeys db p = Some k" "d_entries db p = Some e" "e_key e = k" "val_of e v" "timers (d_ttl db) p = d"
  using assms by (simp_all add: holds_def)

lemma val_of_cases:
  assumes "val_of e v"
  obtains (str) s where "v = VStr s" "e_type e = T_STR" "e_str e = s" "e_zset e = zset_empty"
  | (zset) L where "v = VZset L" "e_type e = T_ZSET" "zset_view (e_zset e) L"
  using assms by (cases "e_type e") (auto simp: val_of_def)

lemma serves_entry_upd:
  assumes "serves n db (A, c)" and "holds db p k e v d" and "A k = Some (v, d)"
    and "e_key e' = k" "e_hcode e' = e_hcode e" "val_of e' w" and "n \<le> n'" "small n' (A(k \<mapsto> (w, d)))"
  shows "serves n' (db\<lparr>d_entries := (d_entries db)(p \<mapsto> e')\<rparr>) (A(k \<mapsto> (w, d)), c)"
proof -
  note h = holdsD [OF assms(2)]
  have "dom ((d_entries db)(p \<mapsto> e')) = dom (d_entries db)" using h(2) by auto
  with assms h show ?thesis using entry_modify_ok(1) [of db A p k v d e e' w] by (simp add: serves_def)
qed

subsection \<open>The handlers meet their specification\<close>

lemma do_get_ok:
  assumes "serves n db s"
  shows "answers (do_get [x, k] db out) n out (sp_get k s)"
  using assms
proof (cases rule: lookup_entryE [where k = k])
  case (absent db' A c)
  then show ?thesis by (simp add: do_get_def sp_get_def vec_at_def out_enc answers_def)
next
  case (present db' A c p e v d)
  from holdsD(4) [OF present(5)] show ?thesis
    by (cases rule: val_of_cases)
      (use present holdsD(2) [OF present(5)] in \<open>simp_all add: do_get_def sp_get_def vec_at_def out_enc answers_def wrongtype_def\<close>)
qed

lemma add_entry_ok:
  assumes s: "serves n db (A, c)" and k: "A k = None" and n: "n < 2 ^ 60"
    and v: "val_of \<lparr>e_hcode = str_hash k, e_key = k, e_type = ty, e_str = str, e_zset = zset_empty\<rparr> v"
    and sm: "small (Suc n) (A(k \<mapsto> (v, None)))"
  shows "\<exists>db' p. add_entry db k ty str = Some (db', p) \<and> serves (Suc n) db' (A(k \<mapsto> (v, None)), c) \<and>
    (\<exists>e. holds db' p k e v None \<and> e_type e = ty \<and> e_zset e = zset_empty)"
proof -
  let ?e = "\<lparr>e_hcode = str_hash k, e_key = k, e_type = ty, e_str = str, e_zset = zset_empty\<rparr>"
  from s have w: "db_view db A" and c: "d_clock db = c" and cd: "card (dom (d_entries db)) \<le> n" by (simp_all add: serves_def)
  from entry_add_ok [OF w k _ _ v serves_room [OF s n]] obtain m where m:
    "hm_insert (d_map db) \<lparr>hcode = str_hash k, owner = d_fresh db\<rparr> = Some m"
    "db_view ((fst (entry_new db ?e))\<lparr>d_map := m\<rparr>) (A(k \<mapsto> (v, None)))"
    "lkeys ((fst (entry_new db ?e))\<lparr>d_map := m\<rparr>) = (lkeys db)(d_fresh db \<mapsto> k)" by auto
  let ?db = "(fst (entry_new db ?e))\<lparr>d_map := m\<rparr>"
  have en: "entry_new db ?e = (fst (entry_new db ?e), d_fresh db)" "d_map (fst (entry_new db ?e)) = d_map db"
    "d_clock ?db = d_clock db" "d_entries ?db = (d_entries db)(d_fresh db \<mapsto> ?e)"
    by (simp_all add: entry_new_def Let_def)
  have fin: "finite (dom (d_entries db))" using w db_invD(9) by (simp add: db_view_def)
  have "card (dom (d_entries ?db)) \<le> Suc n"
    unfolding en(4) using cd fin by (simp add: card_insert_if)
  then have sv: "serves (Suc n) ?db (A(k \<mapsto> (v, None)), c)" using m(2) sm c en(3) by (simp add: serves_def)
  from holds_lkeys [OF m(2), of "d_fresh db" k] m(3) obtain e u d where
    h: "(A(k \<mapsto> (v, None))) k = Some (u, d)" "holds ?db (d_fresh db) k e u d" by auto
  have "e = ?e" using holdsD(2) [OF h(2)] unfolding en(4) by simp
  moreover have "add_entry db k ty str = Some (?db, d_fresh db)"
    unfolding add_entry_def by (subst en(1)) (simp add: en(2) m(1))
  ultimately show ?thesis using sv h by auto
qed

lemma do_set_ok:
  assumes s: "serves n db s" and n: "n < 2 ^ 60"
  shows "answers (do_set [x, k, v] db out) (Suc n) out (sp_set k v s)"
  using s
proof (cases rule: lookup_entryE [where k = k])
  case (absent db' A c)
  have "small (Suc n) (A(k \<mapsto> (VStr v, None)))" using serves_Suc [OF absent(3)] small_upd(2) by (simp add: serves_def)
  with add_entry_ok [OF absent(3,4) n, of T_STR v "VStr v"] absent show ?thesis
    by (auto simp: do_set_def sp_set_def vec_at_def out_enc answers_def val_of_def)
next
  case (present db' A c p e u d)
  note h = holdsD [OF present(5)]
  from h(4) show ?thesis
  proof (cases rule: val_of_cases)
    case (zset L)
    then show ?thesis using present h serves_Suc [OF present(3)]
      by (simp add: do_set_def sp_set_def vec_at_def out_enc answers_def wrongtype_def)
  next
    case (str t)
    let ?db = "db'\<lparr>d_entries := (d_entries db')(p \<mapsto> e\<lparr>e_str := v\<rparr>)\<rparr>" and ?A = "A(k \<mapsto> (VStr v, d))"
    have sm: "small n ?A" "small n (A(k \<mapsto> (VStr v, None)))" using present(3) small_upd(2) by (simp_all add: serves_def)
    have "val_of (e\<lparr>e_str := v\<rparr>) (VStr v)" using str by (simp add: val_of_def)
    then have sv: "serves n ?db (?A, c)" using h sm by (intro serves_entry_upd [OF present(3,5,4)]) simp_all
    then have w: "db_view ?db ?A" by (simp add: serves_def)
    have "lkeys ?db p = Some k" using h by (simp add: lkeys_Some)
    from entry_set_ttl_neg [OF w this, of "VStr v" d "- 1"] obtain db'' where db'': "entry_set_ttl ?db p (- 1) = Some db''"
      "db_view db'' (A(k \<mapsto> (VStr v, None)))" "d_clock db'' = d_clock ?db" "d_entries db'' = d_entries ?db" by auto
    then have "serves n db'' (A(k \<mapsto> (VStr v, None)), c)" using sv sm by (simp add: serves_def)
    with db''(1) present h str serves_Suc show ?thesis
      by (auto simp: do_set_def sp_set_def vec_at_def out_enc answers_def)
  qed
qed

lemma remove_serves:
  assumes "serves n db (A, c)" and "holds db p k e v d"
  shows "\<exists>db'. remove_entry db p = Some db' \<and> serves n db' (A(k := None), c)"
proof -
  from assms(1) have w: "db_view db A" and i: "db_inv db" by (simp_all add: serves_def db_view_def)
  from remove_entry_ok [OF w holdsD(1) [OF assms(2)]] obtain db' where "remove_entry db p = Some db'"
    "db_view db' (A(k := None))" "d_clock db' = d_clock db" "dom (d_entries db') \<subseteq> dom (d_entries db)" by blast
  with assms(1) card_entries_mono [OF i, of db' n] small_upd(1) show ?thesis by (simp add: serves_def)
qed

lemma do_del_ok:
  assumes "serves n db s"
  shows "answers (do_del [x, k] db out) n out (sp_del k s)"
  using assms
proof (cases rule: lookup_entryE [where k = k])
  case (absent db' A c)
  then have "A(k := None) = A" by (simp add: fun_upd_idem)
  with absent show ?thesis by (simp add: do_del_def sp_del_def vec_at_def out_enc answers_def)
next
  case (present db' A c p e v d)
  with remove_serves [OF present(3,5)] show ?thesis
    by (auto simp: do_del_def sp_del_def vec_at_def out_enc answers_def)
qed

lemma set_ttl_serves:
  assumes s: "serves n db (A, c)" and h: "holds db p k e v d" and A: "A k = Some (v, d)" and n: "n < 2 ^ 60"
  shows "ttl < 0 \<Longrightarrow> \<exists>db'. entry_set_ttl db p ttl = Some db' \<and> serves n db' (A(k \<mapsto> (v, None)), c)"
    and "0 \<le> ttl \<Longrightarrow> get_monotonic_msec c = (now, c') \<Longrightarrow>
      \<exists>db'. entry_set_ttl db p ttl = Some db' \<and> serves n db' (A(k \<mapsto> (v, Some (now + word_of_int ttl))), c')"
proof -
  from s have w: "db_view db A" and c: "d_clock db = c" and sm: "small n A" by (simp_all add: serves_def)
  note p = holdsD(1) [OF h]
  show "ttl < 0 \<Longrightarrow> \<exists>db'. entry_set_ttl db p ttl = Some db' \<and> serves n db' (A(k \<mapsto> (v, None)), c)"
    using entry_set_ttl_neg [OF w p A] s small_upd(4) [OF sm A] by (fastforce simp: serves_def)
  assume "0 \<le> ttl" "get_monotonic_msec c = (now, c')"
  with entry_set_ttl_pos [OF w p A _ serves_room [OF s n]] c s small_upd(4) [OF sm A]
  show "\<exists>db'. entry_set_ttl db p ttl = Some db' \<and> serves n db' (A(k \<mapsto> (v, Some (now + word_of_int ttl))), c')"
    by (fastforce simp: serves_def)
qed

lemma do_persist_ok:
  assumes "serves n db s" and "n < 2 ^ 60"
  shows "answers (do_persist [x, k] db out) n out (sp_persist k s)"
  using assms(1)
proof (cases rule: lookup_entryE [where k = k])
  case (absent db' A c)
  then show ?thesis by (simp add: do_persist_def sp_persist_def vec_at_def out_enc answers_def)
next
  case (present db' A c p e v d)
  with set_ttl_serves(1) [OF present(3,5,4) assms(2), of "- 1"] show ?thesis
    by (cases d) (auto simp: do_persist_def sp_persist_def vec_at_def out_enc answers_def holds_def)
qed

lemma do_expire_ok:
  assumes s: "serves n db s" and n: "n < 2 ^ 60" and u: "0 < unit"
  shows "answers (do_expire [x, k, arg] db out unit) n out (sp_expire k arg unit s)"
proof (cases "str2int arg")
  case None
  with s show ?thesis by (simp add: do_expire_def sp_expire_def vec_at_def out_enc answers_def)
next
  case num: (Some z)
  note sem = do_expire_def sp_expire_def vec_at_def out_enc answers_def num
  from s show ?thesis
  proof (cases rule: lookup_entryE [where k = k])
    case (absent db' A c)
    then show ?thesis by (simp add: sem)
  next
    case (present db' A c p e v d)
    show ?thesis
    proof (cases "z \<le> 0")
      case True
      with present remove_serves [OF present(3,5)] show ?thesis by (auto simp: sem)
    next
      case False
      obtain now c' where now: "get_monotonic_msec c = (now, c')" by fastforce
      have m: "(if z > INT64_MAX div unit then INT64_MAX div unit else z) = min z (INT64_MAX div unit)" by simp
      have "0 \<le> INT64_MAX div unit" using u by (simp add: INT64_MAX_def pos_imp_zdiv_nonneg_iff)
      with False u have "0 \<le> min z (INT64_MAX div unit) * unit" by simp
      from set_ttl_serves(2) [OF present(3,5,4) n this now] present False now show ?thesis
        by (auto simp: sem m Let_def)
    qed
  qed
qed

lemma do_ttl_ok:
  assumes "serves n db s"
  shows "answers (do_ttl [x, k] db out in_ms) n out (sp_ttl k in_ms s)"
  using assms
proof (cases rule: lookup_entryE [where k = k])
  case (absent db' A c)
  then show ?thesis by (simp add: do_ttl_def sp_ttl_def vec_at_def out_enc answers_def)
next
  case (present db' A c p e v d)
  show ?thesis
  proof (cases d)
    case None
    with present show ?thesis by (simp add: do_ttl_def sp_ttl_def vec_at_def out_enc answers_def holds_def)
  next
    case (Some t)
    with present(5) obtain i where i: "i < length (d_ttl db')" "i \<noteq> npos" "d_idx db' p = Some i" "hi_val (d_ttl db' ! i) = t"
      by (auto simp: holds_def)
    obtain now c' where now: "get_monotonic_msec c = (now, c')" by fastforce
    have cl: "d_clock db' = c" using present(3) by (simp add: serves_def)
    have "serves n (db'\<lparr>d_clock := c'\<rparr>) (A, c')" using present(3) by (simp add: serves_def)
    with present i now cl Some show ?thesis
      by (simp add: do_ttl_def sp_ttl_def out_enc answers_def db_now_def Let_def)
  qed
qed

subsection \<open>Listing the keys\<close>

lemma keys_cb_fold:
  assumes "\<forall>p \<in> set (map owner ns). \<exists>e. d_entries db p = Some e \<and> e_key e = f p"
  shows "snd (chain_foreach (keys_cb db) ns (Some out)) = Some (out @ concat (map enc_reply (map RStr (map f (map owner ns)))))"
  using assms
proof (induction ns arbitrary: out)
  case Nil
  then show ?case by simp
next
  case (Cons a ns)
  from Cons.prems obtain e where "d_entries db (owner a) = Some e" "e_key e = f (owner a)" by auto
  moreover have "snd (chain_foreach (keys_cb db) ns (Some out')) = Some (out' @ concat (map enc_reply (map RStr (map f (map owner ns)))))" for out'
    using Cons by auto
  moreover have "keys_cb db p (Some out') = (True, Some (out' @ enc_reply (RStr (e_key e))))" if "d_entries db p = Some e" for p e out'
    using that by (simp add: keys_cb_def out_str_enc)
  ultimately show ?case by simp
qed

lemma do_keys_ok:
  assumes "serves n db s"
  shows "\<exists>ks. distinct ks \<and> set ks = dom (fst s) \<and> answers (do_keys db out) n out (RArr (map RStr ks), s)"
proof -
  from assms have w: "db_view db (fst s)" and i: "db_inv db" by (auto simp: serves_def db_view_def)
  note D = db_invD [OF i]
  define ns where "ns = hm_nodes (d_map db)"
  define ks where "ks = map (\<lambda>p. the (lkeys db p)) (map owner ns)"
  have hi: "hmap_inv (d_map db)" using D(2) by (simp add: hm_inv_def)
  from D(3) have fin: "finite (dom (lkeys db))" and inj: "inj_on (lkeys db) (dom (lkeys db))"
    and m: "mset ns = image_mset (key_node (lkeys db)) (mset_set (dom (lkeys db)))"
    by (simp_all add: keyed_by_def hm_mset_def ns_def)
  have "mset (map owner ns) = mset_set (dom (lkeys db))" using m by (simp add: multiset.map_comp comp_def)
  then have o: "distinct (map owner ns)" "set (map owner ns) = dom (lkeys db)"
    using fin by (metis count_mset_set(1,3) distinct_count_atmost_1 set_mset_mset finite_set_mset_mset_set)+
  have "inj_on (\<lambda>p. the (lkeys db p)) (dom (lkeys db))" using inj unfolding inj_on_def by (metis domIff option.expand)
  then have "distinct ks" unfolding ks_def using o by (simp only: distinct_map)
  moreover have "set ks = ran (lkeys db)"
    unfolding ks_def set_map [of _ "map owner ns"] o(2) by (force simp: ran_def)
  then have "set ks = dom (fst s)" using w by (simp add: db_view_def db_abs_def)
  moreover have "\<forall>p \<in> set (map owner ns). \<exists>e. d_entries db p = Some e \<and> e_key e = the (lkeys db p)"
    unfolding o(2) by (auto simp: lkeys_def split: if_splits)
  from keys_cb_fold [OF this] have f: "snd (chain_foreach (keys_cb db) ns (Some out')) = Some (out' @ concat (map enc_reply (map RStr ks)))" for out'
    by (simp add: ks_def comp_def)
  have len: "length ns = length (map RStr ks)" by (simp add: ks_def)
  have "do_keys db out = Some (db, out_arr out (of_nat (length ns)) @ concat (map enc_reply (map RStr ks)))"
    unfolding do_keys_def hm_size_ok [OF hi] hm_foreach_ok [OF hi] ns_def [symmetric] Let_def f by simp
  then have "do_keys db out = Some (db, out @ enc_reply (RArr (map RStr ks)))"
    unfolding len out_arr_enc .
  then have "answers (do_keys db out) n out (RArr (map RStr ks), s)" using assms by (rule answersI)
  ultimately show ?thesis by blast
qed

subsection \<open>Sorted sets\<close>

lemma expect_zsetE:
  assumes "serves n db s"
  obtains (absent) db' A c where "expire_key k s = (A, c)" "expect_zset db k out = Some (db', out, None, True)"
      "serves n db' (A, c)" "A k = None"
  | (wrong) db' A c t d where "expire_key k s = (A, c)"
      "expect_zset db k out = Some (db', out @ enc_reply wrongtype, None, False)" "serves n db' (A, c)" "A k = Some (VStr t, d)"
  | (found) db' A c p e L d where "expire_key k s = (A, c)" "expect_zset db k out = Some (db', out, Some p, False)"
      "serves n db' (A, c)" "A k = Some (VZset L, d)" "holds db' p k e (VZset L) d" "zset_view (e_zset e) L" "e_type e = T_ZSET"
  using assms
proof (cases rule: lookup_entryE [where k = k])
  case (absent db' A c)
  then show thesis by (intro that(1) [OF absent(1)]) (simp_all add: expect_zset_def)
next
  case (present db' A c p e v d)
  note h = holdsD [OF present(5)]
  from h(4) show thesis
  proof (cases rule: val_of_cases)
    case (str t)
    with present h show thesis
      by (intro that(2) [OF present(1)]) (simp_all add: expect_zset_def out_enc wrongtype_def)
  next
    case (zset L)
    with present h show thesis by (intro that(3) [OF present(1)]) (simp_all add: expect_zset_def)
  qed
qed

lemma serves_small: "serves n db (A, c) \<Longrightarrow> A k = Some (VZset L, d) \<Longrightarrow> length L \<le> n"
  unfolding serves_def small_def by (metis fst_conv)

lemma put_zset_serves:
  assumes s: "serves n db (A, c)" and h: "holds db p k e (VZset L) d" and A: "A k = Some (VZset L, d)"
    and t: "e_type e = T_ZSET" and z: "zset_view zs L'" "length L' \<le> n'" and n: "n \<le> n'"
  shows "serves n' (put_zset db p e zs) (A(k \<mapsto> (VZset L', d)), c)"
proof -
  have "small n' A" using s n by (auto simp: serves_def small_def intro: order_trans)
  then have "small n' (A(k \<mapsto> (VZset L', d)))" using z(2) small_upd(3) by blast
  moreover have "val_of (e\<lparr>e_zset := zs\<rparr>) (VZset L')" using t z(1) by (simp add: val_of_def)
  ultimately show ?thesis
    unfolding put_zset_def using n holdsD(3) [OF h] by (intro serves_entry_upd [OF s h A]) simp_all
qed

lemma length_filter_disj:
  "(\<And>x. \<not> (P x \<and> Q x)) \<Longrightarrow> length (filter P L) + length (filter Q L) \<le> length L"
  by (induction L) auto

lemma zins_spec_length: "length (zins_spec x L) \<le> Suc (length L)"
proof -
  have "length (filter (\<lambda>y. zkey y < zkey x) L) + length (filter (\<lambda>y. zkey x < zkey y) L) \<le> length L"
    by (rule length_filter_disj) auto
  then show ?thesis by (simp add: zins_spec_def)
qed

lemma zrem_spec_length: "length (zrem_spec name L) \<le> length L"
  by (simp add: zrem_spec_def)

lemma zadd_spec_length: "length (zadd_spec name x L) \<le> Suc (length L)"
  using zins_spec_length [of "(x, name)" L] zins_spec_length [of "(x, name)" "zrem_spec name L"] zrem_spec_length [of name L]
  by (auto simp: zadd_spec_def split: option.splits)

lemma do_zadd_ok:
  assumes s: "serves n db s" and n: "n + 1 < 2 ^ 31"
  shows "answers (do_zadd [x, k, arg, name] db out) (Suc n) out (sp_zadd k arg name s)"
proof (cases "str2dbl arg")
  case None
  with serves_Suc [OF s] show ?thesis by (simp add: do_zadd_def sp_zadd_def vec_at_def out_enc answers_def)
next
  case num: (Some sc)
  note sem = do_zadd_def sp_zadd_def vec_at_def out_enc answers_def num
  have nan: "\<not> is_nan sc" using str2dbl_not_nan [OF num] .
  from s show ?thesis
  proof (cases rule: expect_zsetE [where k = k and out = out])
    case (absent db' A c)
    have sm: "small (Suc n) (A(k \<mapsto> (VZset [], None)))"
      using serves_Suc [OF absent(3)] small_upd(3) by (simp add: serves_def)
    have "\<exists>db'' p. add_entry db' k T_ZSET [] = Some (db'', p) \<and> serves (Suc n) db'' (A(k \<mapsto> (VZset [], None)), c) \<and>
      (\<exists>e. holds db'' p k e (VZset []) None \<and> e_type e = T_ZSET \<and> e_zset e = zset_empty)"
      using n sm by (intro add_entry_ok [OF absent(3,4)]) (simp_all add: val_of_def)
    then obtain db'' p e where a: "add_entry db' k T_ZSET [] = Some (db'', p)"
      "serves (Suc n) db'' (A(k \<mapsto> (VZset [], None)), c)" "holds db'' p k e (VZset []) None" "e_type e = T_ZSET" "e_zset e = zset_empty"
      by blast
    from zset_insert_view [OF zset_view_empty nan, of name] obtain zs where z:
      "zset_insert zset_empty name sc = Some (zs, True)" "zset_view zs (zadd_spec name sc [])"
      by (auto simp: zscore_of_def)
    have "length (zadd_spec name sc []) \<le> Suc n" using zadd_spec_length [of name sc "[]"] by simp
    from put_zset_serves [OF a(2,3) _ a(4) z(2) this] have "serves (Suc n) (put_zset db'' p e zs) (A(k \<mapsto> (VZset (zadd_spec name sc []), None)), c)"
      by simp
    with absent a z holdsD(2) [OF a(3)] show ?thesis by (simp add: sem)
  next
    case (wrong db' A c t d)
    with serves_Suc [OF wrong(3)] show ?thesis by (simp add: sem)
  next
    case (found db' A c p e L d)
    have len: "length L \<le> n" using found(3,4) by (rule serves_small)
    from zset_insert_view [OF found(6) nan, of name] len n obtain zs where z:
      "zset_insert (e_zset e) name sc = Some (zs, zscore_of L name = None)" "zset_view zs (zadd_spec name sc L)" by auto
    have "length (zadd_spec name sc L) \<le> Suc n" using zadd_spec_length [of name sc L] len by simp
    from put_zset_serves [OF found(3,5,4,7) z(2) this] found z holdsD(2) [OF found(5)] show ?thesis by (simp add: sem)
  qed
qed

lemma zset_find:
  assumes "zset_view zs L"
  shows "\<exists>zs' r. zset_lookup zs name = Some (zs', r) \<and> zset_view zs' L \<and>
    (case r of None \<Rightarrow> zscore_of L name = None
     | Some p \<Rightarrow> \<exists>z. z_nodes zs' p = Some z \<and> z_name z = name \<and> zscore_of L name = Some (z_score z))"
proof -
  from assms obtain ps where ps: "zset_rep zs ps" "L = map (zpair_of zs) ps" by (auto simp: zset_view_rep)
  from zset_lookup_view [OF ps(1), of name] obtain zs' r where l: "zset_lookup zs name = Some (zs', r)" "zset_rep zs' ps"
    "zpair_of zs' = zpair_of zs" "z_nodes zs' = z_nodes zs"
    "case r of None \<Rightarrow> zscore_of L name = None
     | Some p \<Rightarrow> \<exists>z. z_nodes zs p = Some z \<and> z_name z = name \<and> zscore_of L name = Some (z_score z)"
    unfolding ps(2) [symmetric] by blast
  then have "zset_view zs' L" using ps(2) unfolding zset_view_rep by metis
  with l show ?thesis by (intro exI [of _ zs'] exI [of _ r]) (simp split: option.splits)
qed

lemma zrem_spec_absent: "zscore_of L name = None \<Longrightarrow> zrem_spec name L = L"
  by (auto simp: zscore_of_def zrem_spec_def map_of_eq_None_iff image_iff intro!: filter_True)

lemma do_zrem_ok:
  assumes s: "serves n db s"
  shows "answers (do_zrem [x, k, name] db out) n out (sp_zrem k name s)"
  using s
proof (cases rule: expect_zsetE [where k = k and out = out])
  case (absent db' A c)
  then show ?thesis by (simp add: do_zrem_def sp_zrem_def vec_at_def out_enc answers_def)
next
  case (wrong db' A c t d)
  then show ?thesis by (simp add: do_zrem_def sp_zrem_def vec_at_def answers_def)
next
  case (found db' A c p e L d)
  note sem = do_zrem_def sp_zrem_def vec_at_def out_enc answers_def
  have len: "length (zrem_spec name L) \<le> n"
    using serves_small [OF found(3,4)] zrem_spec_length [of name L] by simp
  from zset_find [OF found(6), of name] obtain zs r where z: "zset_lookup (e_zset e) name = Some (zs, r)" "zset_view zs L"
    "case r of None \<Rightarrow> zscore_of L name = None
     | Some q \<Rightarrow> \<exists>z. z_nodes zs q = Some z \<and> z_name z = name \<and> zscore_of L name = Some (z_score z)" by blast
  show ?thesis
  proof (cases r)
    case None
    with z have v: "zset_view zs (zrem_spec name L)" by (simp add: zrem_spec_absent)
    from put_zset_serves [OF found(3,5,4,7) v len] None z found holdsD(2) [OF found(5)] show ?thesis by (simp add: sem)
  next
    case (Some q)
    with z(3) obtain y where y: "z_nodes zs q = Some y" "z_name y = name" "zscore_of L name = Some (z_score y)" by auto
    from zset_delete_view [OF z(2) y(1)] y(2) obtain zs' where d: "zset_delete zs q = Some zs'" "zset_view zs' (zrem_spec name L)" by blast
    from put_zset_serves [OF found(3,5,4,7) d(2) len] Some y(3) d z(1) found holdsD(2) [OF found(5)] show ?thesis by (simp add: sem)
  qed
qed

lemma do_zscore_ok:
  assumes s: "serves n db s"
  shows "answers (do_zscore [x, k, name] db out) n out (sp_zscore k name s)"
  using s
proof (cases rule: expect_zsetE [where k = k and out = out])
  case (absent db' A c)
  then show ?thesis by (simp add: do_zscore_def sp_zscore_def vec_at_def out_enc answers_def)
next
  case (wrong db' A c t d)
  then show ?thesis by (simp add: do_zscore_def sp_zscore_def vec_at_def answers_def)
next
  case (found db' A c p e L d)
  note sem = do_zscore_def sp_zscore_def vec_at_def out_enc answers_def
  have len: "length L \<le> n" using found(3,4) by (rule serves_small)
  from zset_find [OF found(6), of name] obtain zs r where z: "zset_lookup (e_zset e) name = Some (zs, r)" "zset_view zs L"
    "case r of None \<Rightarrow> zscore_of L name = None
     | Some q \<Rightarrow> \<exists>z. z_nodes zs q = Some z \<and> z_name z = name \<and> zscore_of L name = Some (z_score z)" by blast
  have "serves n (put_zset db' p e zs) (A, c)"
    using put_zset_serves [OF found(3,5,4,7) z(2) len] found(4) by (simp add: map_upd_triv)
  with z found holdsD(2) [OF found(5)] show ?thesis by (cases r) (auto simp: sem)
qed

lemma zquery_walk_ok:
  assumes "zset_rep zs ps" and "i \<le> length ps"
  shows "zquery_walk zs (vec_at ps i) n limit out =
    (let xs = take (nat ((limit - n + 1) div 2)) (drop i (map (zpair_of zs) ps))
     in Some (n + 2 * int (length xs), out @ concat (map enc_reply (concat (map (\<lambda>y. [RStr (snd y), RDbl (fst y)]) xs)))))"
  using assms(2)
proof (induction "length ps - i" arbitrary: i n out)
  case 0
  then have "vec_at ps i = None" by (simp add: vec_at_def)
  with 0 show ?case by (simp add: zquery_walk.simps)
next
  case (Suc m)
  then have i: "i < length ps" by simp
  then have v: "vec_at ps i = Some (ps ! i)" by simp
  show ?case
  proof (cases "n < limit")
    case False
    then have "nat ((limit - n + 1) div 2) = 0" by simp
    with False v show ?thesis by (simp add: zquery_walk.simps)
  next
    case True
    have "ps ! i \<in> dom (z_nodes zs)" using zset_rep_facts(2) [OF assms(1)] i nth_mem by blast
    then obtain z where z: "z_nodes zs (ps ! i) = Some z" by blast
    have o: "znode_offset zs (Some (ps ! i)) 1 = Some (vec_at ps (Suc i))"
      using znode_offset_ok [OF assms(1) i, of 1] by (simp add: nat_add_distrib)
    have t: "nat ((limit - n + 1) div 2) = Suc (nat ((limit - (n + 2) + 1) div 2))" using True by linarith
    have d: "drop i (map (zpair_of zs) ps) = zpair_of zs (ps ! i) # drop (Suc i) (map (zpair_of zs) ps)"
      using i by (simp add: Cons_nth_drop_Suc [symmetric] drop_map)
    have "m = length ps - Suc i" "Suc i \<le> length ps" using Suc.hyps(2) i by simp_all
    note IH = Suc.hyps(1) [OF this, of "n + 2" "(out @ enc_reply (RStr (z_name z))) @ enc_reply (RDbl (z_score z))"]
    show ?thesis
      unfolding t d take_Suc_Cons
      by (subst zquery_walk.simps) (simp only: v True z o bind.bind_lunit option.case out_str_enc out_dbl_enc Let_def IH if_True,
          simp add: zpair_of_Some [OF z] Let_def)
  qed
qed

lemma zquery_ok:
  assumes "zset_view zs L" and "\<not> is_nan x" and "0 < limit" and "out_begin_arr out = (out', ctx)"
  shows "do { znode \<leftarrow> zset_seekge zs x name; znode \<leftarrow> znode_offset zs znode offset;
              (n, o2) \<leftarrow> zquery_walk zs znode 0 limit out'; out_end_arr o2 ctx (word_of_int n) } =
    Some (out @ enc_reply (RArr (concat (map (\<lambda>y. [RStr (snd y), RDbl (fst y)]) (zslice L x name offset limit)))))"
proof -
  from assms(1) obtain ps where ps: "zset_rep zs ps" "L = map (zpair_of zs) ps" by (auto simp: zset_view_rep)
  let ?r = "length (takeWhile (\<lambda>p. zk zs p < zkey (x, name)) ps)"
  have r: "length (takeWhile (\<lambda>y. zkey y < zkey (x, name)) L) = ?r" by (simp add: ps(2) takeWhile_map comp_def)
  let ?rs = "concat (map (\<lambda>y. [RStr (snd y), RDbl (fst y)]) (zslice L x name offset limit))"
  have len: "length ?rs = 2 * length (zslice L x name offset limit)" by (simp add: length_concat sum_list_triv comp_def)
  have "do { znode \<leftarrow> zset_seekge zs x name; znode \<leftarrow> znode_offset zs znode offset; zquery_walk zs znode 0 limit out' } =
    Some (int (length ?rs), out' @ concat (map enc_reply ?rs))"
  proof (cases "?r < length ps \<and> 0 \<le> int ?r + offset")
    case False
    then have sl: "zslice L x name offset limit = []" unfolding zslice_def Let_def r by (auto simp: ps(2))
    show ?thesis
    proof (cases "?r < length ps")
      case True
      with False znode_offset_ok [OF ps(1), of ?r offset] show ?thesis
        unfolding sl by (simp add: zset_seekge_ok [OF ps(1) assms(2)] zquery_walk.simps)
    next
      case False
      then show ?thesis
        unfolding sl by (simp add: zset_seekge_ok [OF ps(1) assms(2)] vec_at_def znode_offset_def zquery_walk.simps)
    qed
  next
    case True
    let ?i = "nat (int ?r + offset)"
    have sl: "zslice L x name offset limit = take (nat ((limit + 1) div 2)) (drop ?i L)"
      using True unfolding zslice_def Let_def r by (simp add: ps(2))
    have "vec_at ps ?i = vec_at ps (min ?i (length ps))" "drop ?i L = drop (min ?i (length ps)) L"
      by (auto simp: vec_at_def ps(2) min_def)
    with zquery_walk_ok [OF ps(1), of "min ?i (length ps)" 0 limit out'] True sl show ?thesis
      unfolding len using znode_offset_ok [OF ps(1), of ?r offset]
      by (simp add: zset_seekge_ok [OF ps(1) assms(2)] Let_def ps(2))
  qed
  moreover have "out_end_arr (out' @ concat (map enc_reply ?rs)) ctx (word_of_int (int (length ?rs))) = Some (out @ enc_reply (RArr ?rs))"
    using out_begin_end_arr [OF assms(4), of ?rs] by simp
  ultimately show ?thesis by (auto simp: bind_eq_Some_conv split: bind_splits)
qed

lemma out_arr_nil: "out_arr out 0 = out @ enc_reply (RArr [])"
  using out_arr_enc [of out "[]"] by simp

lemma do_zquery_ok:
  assumes s: "serves n db s"
  shows "answers (do_zquery [x, k, arg, name, oarg, larg] db out) n out (sp_zquery k arg name oarg larg s)"
proof (cases "\<exists>sc offset limit. str2dbl arg = Some sc \<and> str2int oarg = Some offset \<and> str2int larg = Some limit")
  case False
  then show ?thesis using s
    by (cases "str2dbl arg"; cases "str2int oarg"; cases "str2int larg")
      (auto simp: do_zquery_def sp_zquery_def vec_at_def out_enc answers_def)
next
  case True
  then obtain sc offset limit where num: "str2dbl arg = Some sc" "str2int oarg = Some offset" "str2int larg = Some limit" by blast
  note sem = do_zquery_def sp_zquery_def vec_at_def out_enc answers_def num
  from s show ?thesis
  proof (cases rule: expect_zsetE [where k = k and out = out])
    case (absent db' A c)
    then show ?thesis by (simp add: sem out_arr_nil)
  next
    case (wrong db' A c t d)
    then show ?thesis by (simp add: sem)
  next
    case (found db' A c p e L d)
    show ?thesis
    proof (cases "limit \<le> 0")
      case True
      then have "zslice L sc name offset limit = []" by (simp add: zslice_def Let_def)
      with True found show ?thesis by (simp add: sem out_arr_nil)
    next
      case False
      obtain out' ctx where b: "out_begin_arr out = (out', ctx)" by fastforce
      from zquery_ok [OF found(6) str2dbl_not_nan [OF num(1)] _ b, of limit name offset] False
      show ?thesis using found holdsD(2) [OF found(5)] b
        by (auto simp: sem Let_def bind_eq_Some_conv split: bind_splits)
    qed
  qed
qed

subsection \<open>Dispatch\<close>

lemma sp_request_ok:
  assumes s: "serves n db s" and n: "n + 1 < 2 ^ 31" and nk: "\<not> (\<exists>verb. cmd = [verb] \<and> to_upper verb = ''KEYS'')"
  shows "answers (do_request cmd db out) (Suc n) out (sp_request cmd s)"
proof -
  note S = answers_Suc
  have n': "n < 2 ^ 60" using n by simp
  note ok = do_get_ok [OF s, THEN S] do_set_ok [OF s n'] do_del_ok [OF s, THEN S] do_expire_ok [OF s n', THEN S]
    do_ttl_ok [OF s, THEN S] do_persist_ok [OF s n', THEN S] do_zadd_ok [OF s n] do_zrem_ok [OF s, THEN S]
    do_zscore_ok [OF s, THEN S] do_zquery_ok [OF s, THEN S]
  have err: "answers (Some (db, out_err out c m)) (Suc n) out (RErr c m, s)" for c m
    using serves_Suc [OF s] by (simp add: answers_def out_enc)
  consider "cmd = []" | v where "cmd = [v]" | v k where "cmd = [v, k]" | v k x where "cmd = [v, k, x]"
    | v k x y where "cmd = [v, k, x, y]" | v k x y z where "cmd = [v, k, x, y, z]"
    | v k x y z w where "cmd = [v, k, x, y, z, w]" | v k x y z w u vs where "cmd = v # k # x # y # z # w # u # vs"
    by (metis list.exhaust)
  then show ?thesis
    by cases (use nk in \<open>simp_all add: do_request_def sp_request_def sp_unknown_def vec_at_def Let_def ok err\<close>)
qed

lemma do_request_ok:
  assumes s: "serves n db s" and n: "n + 1 < 2 ^ 31"
  shows "\<exists>r s'. answers (do_request cmd db out) (Suc n) out (r, s') \<and> request_spec cmd s r s'"
proof (cases "\<exists>verb. cmd = [verb] \<and> to_upper verb = ''KEYS''")
  case True
  then have "do_request cmd db out = do_keys db out" by (auto simp: do_request_def vec_at_def)
  with True do_keys_ok [OF s, of out] answers_Suc show ?thesis unfolding request_spec_def by metis
next
  case False
  with sp_request_ok [OF s n False, of out] show ?thesis unfolding request_spec_def by (metis surj_pair)
qed

subsection \<open>Concrete databases\<close>

lemma serves_init: "serves 0 (db_init c) (Map.empty, c)"
  using db_init_view by (simp add: serves_def small_def) (simp add: db_init_def)

definition demo_keys :: keyspace where
  "demo_keys = [''k'' \<mapsto> (VStr ''v'', None)]"

lemma serves_demo: "serves 1 demo_db (demo_keys, demo_clock)"
  using demo_db_view by (simp add: serves_def small_def demo_keys_def) (simp add: demo_db_def entry_new_def db_init_def)

text \<open>Executing a request on the implementation and reading the result off the specification.\<close>

lemma do_request_run:
  assumes "serves n db s" and "n + 1 < 2 ^ 31" and "sp_request cmd s = (r, s')"
    and "\<not> (\<exists>verb. cmd = [verb] \<and> to_upper verb = ''KEYS'')"
  shows "\<exists>db'. do_request cmd db out = Some (db', out @ enc_reply r) \<and> serves (Suc n) db' s'"
  using sp_request_ok [OF assms(1,2,4), of out] assms(3) by (auto simp: answers_def)

lemma uint_add_of_int:
  fixes t :: u64
  assumes "0 \<le> m" and "uint t + m < 2 ^ 64"
  shows "uint (t + word_of_int m) = uint t + m"
  using assms uint_ge_0 [of t] by (simp add: uint_word_ariths(1) uint_word_of_int mod_add_right_eq del: uint_ge_0)

lemmas upper_eval = to_upper_def toupper_def code_def

lemma zscore_zins: "name \<notin> snd ` set L \<Longrightarrow> zscore_of (zins_spec (x, name) L) name = Some x"
  by (auto simp: zscore_of_def zins_spec_def map_add_def image_iff split: option.splits dest!: map_of_SomeD)

lemma zscore_zadd:
  assumes "\<not> is_nan x"
  shows "\<exists>y. zscore_of (zadd_spec name x L) name = Some y \<and> dbl_eq y x"
proof (cases "zscore_of L name")
  case None
  then have "name \<notin> snd ` set L" by (simp add: zscore_of_def map_of_eq_None_iff image_image)
  with None zscore_zins assms show ?thesis by (simp add: zadd_spec_def)
next
  case (Some old)
  have "name \<notin> snd ` set (zrem_spec name L)" by (auto simp: zrem_spec_def)
  with Some zscore_zins assms show ?thesis by (auto simp: zadd_spec_def)
qed

lemma int_length_take: "0 \<le> h \<Longrightarrow> int (length (take (nat h) xs)) = min h (int (length xs))"
  unfolding length_take by linarith

lemma demo_score: "str2dbl ''0x1p1'' = Some 0x4000000000000000"
proof -
  have "floorlog 2 2 = 2" "floorlog 2 1 = 1" by (simp_all add: compute_floorlog)
  then have r: "round_dbl 2 1 = 1024 * 2 ^ 52" by (simp add: round_dbl_def ratio_log_def div_half_even_def Let_def)
  have "strtod_hex ''1p1'' = Some (1024 * 2 ^ 52, [])"
    by (simp add: strtod_hex_def mantissa_def exponent_def scaled_def isxdigit_def isdigit_def code_def toupper_def
        digits_val_def digit_val_def char_of_def bit_Suc_0_iff r [simplified] Let_def)
  then have "strtod ''0x1p1'' = (0x4000000000000000, [])"
    by (simp add: strtod_def strtod_mag_def has_prefix_def isspace_def code_def toupper_def char_of_def bit_Suc_0_iff)
  then show ?thesis by (simp add: str2dbl_def c_str_def code_def is_nan_def dbl_mag_def dbl_inf_def mask_eq_exp_minus_1)
qed

subsection \<open>Properties\<close>

text \<open>C3: every request, whatever its arguments, is executed without undefined behaviour: exactly one
  encoded reply is appended to the buffer, all invariants of the database are kept, and the
  reply and the new key space are those of the specification.\<close>

theorem do_request_refines:
  assumes "serves n db s" and "n + 1 < 2 ^ 31"
  shows "\<exists>db' r s'. do_request cmd db out = Some (db', out @ enc_reply r) \<and> serves (n + 1) db' s' \<and> request_spec cmd s r s'"
  using do_request_ok [OF assms, of cmd out] by (auto simp: answers_def)

theorem do_request_refines_witness:
  "\<exists>db' r s'. do_request [''get'', ''k''] demo_db [] = Some (db', enc_reply r) \<and> serves (1 + 1) db' s' \<and>
     request_spec [''get'', ''k''] (demo_keys, demo_clock) r s'"
  using do_request_refines [OF serves_demo, of "[''get'', ''k'']" "[]"] by simp

text \<open>C34: after \<open>SET k v\<close> on a key that does not hold a sorted set, \<open>GET k\<close> replies \<open>v\<close>: the value is
  stored and an old deadline no longer applies, however much time passes in between.\<close>

theorem set_get:
  assumes "serves n db s" and "n + 2 < 2 ^ 31" and "\<And>L d. fst s k \<noteq> Some (VZset L, d)"
  shows "\<exists>db1 db2. do_request [''SET'', k, v] db out = Some (db1, out @ enc_reply RNil) \<and>
    do_request [''GET'', k] db1 out' = Some (db2, out' @ enc_reply (RStr v))"
proof -
  have nz: "fst (expire_key k s) k \<noteq> Some (VZset L, d)" for L d
    using assms(3) by (auto simp: expire_key_def Let_def split: option.splits prod.splits if_splits)
  obtain A c where e: "expire_key k s = (A, c)" by fastforce
  have set: "sp_request [''SET'', k, v] s = (RNil, A(k \<mapsto> (VStr v, None)), c)"
    using nz by (auto simp: sp_request_def upper_eval sp_set_def e split: option.splits val.splits)
  have get: "sp_request [''GET'', k] (A(k \<mapsto> (VStr v, None)), c) = (RStr v, A(k \<mapsto> (VStr v, None)), c)"
    by (simp add: sp_request_def upper_eval sp_get_def expire_key_def)
  from do_request_run [OF assms(1) _ set] assms(2) obtain db1 where
    "do_request [''SET'', k, v] db out = Some (db1, out @ enc_reply RNil)" "serves (Suc n) db1 (A(k \<mapsto> (VStr v, None)), c)" by auto
  with do_request_run [OF this(2) _ get] assms(2) show ?thesis by auto
qed

theorem set_get_witness:
  "\<exists>db1 db2. do_request [''SET'', ''k'', ''w''] demo_db [] = Some (db1, enc_reply RNil) \<and>
    do_request [''GET'', ''k''] db1 [] = Some (db2, enc_reply (RStr ''w''))"
  using set_get [OF serves_demo, of "''k''" "''w''" "[]" "[]"] by (simp add: demo_keys_def)

text \<open>C33: a lookup never returns a key whose deadline has passed: it removes the key, frees its
  entry and reports it as absent, and touches no other key.\<close>

theorem lookup_entry_expires:
  assumes "serves n db s" and "fst s k = Some (v, Some d)" and "get_monotonic_msec (snd s) = (now, c)" and "d \<le> now"
  shows "\<exists>db'. lookup_entry db k = Some (db', None) \<and> serves n db' ((fst s)(k := None), c)"
proof -
  have "expire_key k s = ((fst s)(k := None), c)" using assms(2-4) by (simp add: expire_key_def)
  with assms(1) show ?thesis by (cases rule: lookup_entryE [where k = k]) auto
qed

theorem lookup_entry_expires_witness:
  "\<exists>db1 db2. entry_set_ttl demo_db 0 700 = Some db1 \<and> lookup_entry db1 ''k'' = Some (db2, None)"
proof -
  let ?c1 = "demo_clock\<lparr>n_read := 1\<rparr>" and ?c2 = "demo_clock\<lparr>n_read := 2\<rparr>"
  have n: "get_monotonic_msec demo_clock = (500, ?c1)" "get_monotonic_msec ?c1 = (1500, ?c2)"
    by (simp_all add: demo_clock_def get_monotonic_msec_def msec_def)
  from demo_db_view demo_db_keys obtain e where "holds demo_db 0 ''k'' e (VStr ''v'') None"
    using holds_lkeys [of demo_db demo_keys 0 "''k''"] by (auto simp: demo_keys_def)
  from set_ttl_serves(2) [OF serves_demo this _ _ _ n(1), of 700] obtain db1 where
    "entry_set_ttl demo_db 0 700 = Some db1" "serves 1 db1 (demo_keys(''k'' \<mapsto> (VStr ''v'', Some 1200)), ?c1)"
    by (auto simp: demo_keys_def)
  with lookup_entry_expires [OF this(2), of "''k''" "VStr ''v''" 1200 1500 ?c2] n(2) show ?thesis by auto
qed



text \<open>C38: \<open>KEYS\<close> replies an array of all keys of the key space, each once. It does not look at
  deadlines: a key that is overdue and not reaped yet is listed.\<close>

theorem do_keys_complete:
  assumes "serves n db s" and "n + 1 < 2 ^ 31"
  shows "\<exists>db' ks. do_request [''KEYS''] db out = Some (db', out @ enc_reply (RArr (map RStr ks))) \<and>
    serves (n + 1) db' s \<and> distinct ks \<and> set ks = dom (fst s)"
proof -
  from do_request_ok [OF assms, of "[''KEYS'']" out] obtain r s' where
    r: "answers (do_request [''KEYS''] db out) (Suc n) out (r, s')" "request_spec [''KEYS''] s r s'" by blast
  moreover have "to_upper ''KEYS'' = ''KEYS''" by (simp add: upper_eval)
  ultimately show ?thesis by (auto simp: request_spec_def answers_def)
qed

theorem do_keys_complete_witness:
  "\<exists>db' ks. do_request [''KEYS''] demo_db [] = Some (db', enc_reply (RArr (map RStr ks))) \<and> distinct ks \<and> set ks = {''k''}"
  using do_keys_complete [OF serves_demo, of "[]"] by (auto simp: demo_keys_def)

text \<open>C36: after \<open>EXPIRE k n\<close> (or \<open>PEXPIRE\<close>) with \<open>n > 0\<close> on an existing key without deadline, \<open>PTTL k\<close> replies the
  time that is left of the \<open>n\<close> time units, as long as the deadline is not reached when the key is looked up
  and the deadline is below $2^{64}$.\<close>

theorem expire_pttl:
  assumes "serves n db s" and "n + 2 < 2 ^ 31" and "fst s k = Some (v, None)"
    and "str2int arg = Some z" and "0 < z"
    and "(verb, unit) \<in> {(''EXPIRE'', 1000), (''PEXPIRE'', 1)}" and "z * unit \<le> INT64_MAX"
    and "get_monotonic_msec (snd s) = (t0, c0)" and "get_monotonic_msec c0 = (t1, c1)" and "get_monotonic_msec c1 = (t2, c2)"
    and "uint t0 + z * unit < 2 ^ 64" and "uint t1 < uint t0 + z * unit" and "uint t2 < uint t0 + z * unit"
  shows "\<exists>db1 db2 rem. do_request [verb, k, arg] db out = Some (db1, out @ enc_reply (RInt 1)) \<and>
    do_request [''PTTL'', k] db1 out' = Some (db2, out' @ enc_reply (RInt rem)) \<and> uint rem = uint t0 + z * unit - uint t2"
proof -
  obtain A c where s: "s = (A, c)" by fastforce
  define d where "d = t0 + word_of_int (z * unit)"
  have u: "0 < unit" using assms(6) by auto
  then have zu: "0 < z * unit" using assms(5) by simp
  have d: "uint d = uint t0 + z * unit"
    unfolding d_def using assms(11) zu by (intro uint_add_of_int) simp_all
  have "z \<le> INT64_MAX div unit" using zdiv_mono1 [OF assms(7) u] u by simp
  then have m: "min z (INT64_MAX div unit) = z" by simp
  let ?s1 = "(A(k \<mapsto> (v, Some d)), c0)"
  have e0: "expire_key k s = s" using assms(3) by (simp add: expire_key_def)
  have ex: "sp_request [verb, k, arg] s = (RInt 1, ?s1)"
    using assms(3-6,8) m e0 by (auto simp: sp_request_def upper_eval sp_expire_def s d_def)
  have t: "\<not> d \<le> t1" "t2 < d" using assms(12,13) d by (simp_all add: word_le_def word_less_def)
  have pt: "sp_request [''PTTL'', k] ?s1 = (RInt (d - t2), A(k \<mapsto> (v, Some d)), c2)"
    using assms(9,10) t by (simp add: sp_request_def upper_eval sp_ttl_def expire_key_def)
  from do_request_run [OF assms(1) _ ex] assms(2) obtain db1 where
    db1: "do_request [verb, k, arg] db out = Some (db1, out @ enc_reply (RInt 1))" "serves (Suc n) db1 ?s1" by auto
  have "uint (d - t2) = uint t0 + z * unit - uint t2"
    using t(2) d by (simp add: uint_sub_if' word_less_def)
  moreover obtain db2 where "do_request [''PTTL'', k] db1 out' = Some (db2, out' @ enc_reply (RInt (d - t2)))"
    using do_request_run [OF db1(2) _ pt, of out'] assms(2) by auto
  ultimately show ?thesis using db1(1) by blast
qed

theorem expire_pttl_witness:
  "\<exists>db1 db2 rem. do_request [''PEXPIRE'', ''k'', ''5000''] demo_db [] = Some (db1, enc_reply (RInt 1)) \<and>
    do_request [''PTTL'', ''k''] db1 [] = Some (db2, enc_reply (RInt rem)) \<and> uint rem = 3000"
proof -
  let ?c = "\<lambda>i. demo_clock\<lparr>n_read := i\<rparr>"
  have n: "get_monotonic_msec demo_clock = (500, ?c 1)" "get_monotonic_msec (?c 1) = (1500, ?c 2)" "get_monotonic_msec (?c 2) = (2500, ?c 3)"
    by (simp_all add: demo_clock_def get_monotonic_msec_def msec_def)
  have i: "str2int ''5000'' = Some 5000"
    by (simp add: str2int_def strtoll_def c_str_def isspace_def isdigit_def code_def digits_val_def digit_val_def clamp_i64_def Let_def)
  show ?thesis
    using expire_pttl [OF serves_demo _ _ i, of "''k''" "VStr ''v''" "''PEXPIRE''" 1 500 "?c 1" 1500 "?c 2" 2500 "?c 3" "[]" "[]"] n
    by (simp add: demo_keys_def INT64_MAX_def)
qed

text \<open>After \<open>ZADD k score name\<close>, \<open>ZSCORE k name\<close> replies that score (up to the sign of zero), whether
  the key or the pair existed before or not.\<close>

theorem zadd_zscore:
  assumes "serves n db s" and "n + 2 < 2 ^ 31" and "fst s k = None \<and> L = [] \<or> fst s k = Some (VZset L, None)"
    and "str2dbl arg = Some x"
  shows "\<exists>db1 db2 y. do_request [''ZADD'', k, arg, name] db out =
      Some (db1, out @ enc_reply (RInt (if zscore_of L name = None then 1 else 0))) \<and>
    do_request [''ZSCORE'', k, name] db1 out' = Some (db2, out' @ enc_reply (RDbl y)) \<and> dbl_eq y x"
proof -
  obtain A c where s: "s = (A, c)" by fastforce
  let ?s1 = "(A(k \<mapsto> (VZset (zadd_spec name x L), None)), c)"
  have e: "expire_key k s = s" using assms(3) by (auto simp: expire_key_def)
  obtain y where y: "zscore_of (zadd_spec name x L) name = Some y" "dbl_eq y x"
    using zscore_zadd [OF str2dbl_not_nan [OF assms(4)]] by blast
  have add: "sp_request [''ZADD'', k, arg, name] s = (RInt (if zscore_of L name = None then 1 else 0), ?s1)"
    using assms(3,4) e by (auto simp: sp_request_def upper_eval sp_zadd_def s zscore_of_def)
  have sc: "sp_request [''ZSCORE'', k, name] ?s1 = (RDbl y, ?s1)"
    using y by (simp add: sp_request_def upper_eval sp_zscore_def expire_key_def)
  from do_request_run [OF assms(1) _ add, of out] assms(2) obtain db1 where
    db1: "do_request [''ZADD'', k, arg, name] db out = Some (db1, out @ enc_reply (RInt (if zscore_of L name = None then 1 else 0)))"
      "serves (Suc n) db1 ?s1" by auto
  moreover obtain db2 where "do_request [''ZSCORE'', k, name] db1 out' = Some (db2, out' @ enc_reply (RDbl y))"
    using do_request_run [OF db1(2) _ sc, of out'] assms(2) by auto
  ultimately show ?thesis using y(2) by blast
qed

theorem zadd_zscore_witness:
  "\<exists>db1 db2 y. do_request [''ZADD'', ''z'', ''0x1p1'', ''a''] demo_db [] = Some (db1, enc_reply (RInt 1)) \<and>
    do_request [''ZSCORE'', ''z'', ''a''] db1 [] = Some (db2, enc_reply (RDbl y)) \<and> dbl_eq y 0x4000000000000000"
  using zadd_zscore [OF serves_demo, of "''z''" "[]" "''0x1p1''" "0x4000000000000000" "''a''" "[]" "[]"] demo_score
  by (simp add: demo_keys_def zscore_of_def)



end
