(* ===== verification/Server_Requests.thy ===== *)
theory Server_Requests
  imports Server Command_Refine
begin

text \<open>
  Framing and pipelining: what \<open>try_one_request\<close> and the loop around it do to the buffers of a
  connection and to the database. \<open>frames_spec\<close> is the specification: a sequence of frames is
  answered in order, each by one reply frame.
\<close>

subsection \<open>Framing\<close>

definition frame :: "byte list \<Rightarrow> byte list" where
  "frame body = write_u32 (of_nat (length body)) @ body"

abbreviation reply_frame :: "reply \<Rightarrow> byte list" where
  "reply_frame r \<equiv> frame (enc_reply r)"

text \<open>The input that ends in an unfinished frame, and the input with a frame that is too long.\<close>

definition partial_input :: "byte list \<Rightarrow> bool" where
  "partial_input inp \<longleftrightarrow> length inp < 4 \<or> (\<exists>len. read_u32 inp = Some len \<and> unat len \<le> MAX_MSG \<and> length inp < 4 + unat len)"

definition oversize_input :: "byte list \<Rightarrow> bool" where
  "oversize_input inp \<longleftrightarrow> (\<exists>len. read_u32 inp = Some len \<and> unat len > MAX_MSG)"

lemma partial_bound: "partial_input inp \<Longrightarrow> length inp < 4 + MAX_MSG"
  by (auto simp: partial_input_def)

lemma input_cases:
  obtains (part) "partial_input inp" | (over) "4 \<le> length inp" "oversize_input inp"
  | (full) body rest where "inp = frame body @ rest" "length body \<le> MAX_MSG"
proof (cases "length inp < 4")
  case True
  then show thesis by (intro part) (simp add: partial_input_def)
next
  case False
  then obtain len where len: "read_u32 inp = Some len" by (auto simp: read_u32_def)
  then obtain inp' where inp: "inp = write_u32 len @ inp'" by (auto simp: read_u32_eq_Some_iff)
  show thesis
  proof (cases "unat len \<le> MAX_MSG \<and> 4 + unat len \<le> length inp")
    case True
    then have l: "length (take (unat len) inp') = unat len" using inp by simp
    show thesis
    proof (rule full)
      show "inp = frame (take (unat len) inp') @ drop (unat len) inp'" using inp by (simp add: frame_def l [simplified])
      show "length (take (unat len) inp') \<le> MAX_MSG" using True l by linarith
    qed
  next
    case False
    with len \<open>\<not> length inp < 4\<close> show thesis
      using part over unfolding partial_input_def oversize_input_def by (meson not_le)
  qed
qed

subsection \<open>One request\<close>

definition frame_spec :: "byte list \<Rightarrow> kstate \<Rightarrow> reply \<Rightarrow> kstate \<Rightarrow> bool" where
  "frame_spec body s r s' \<longleftrightarrow>
     (\<exists>cmd. parse_req body [] = Some (0, cmd) \<and> request_spec cmd s r s') \<or>
     (\<nexists>cmd. parse_req body [] = Some (0, cmd)) \<and> r = RErr ERR_ARG ''bad request'' \<and> s' = s"

inductive frames_spec :: "byte list list \<Rightarrow> kstate \<Rightarrow> reply list \<Rightarrow> kstate \<Rightarrow> bool" where
  Nil: "frames_spec [] s [] s"
| Cons: "length b \<le> MAX_MSG \<Longrightarrow> frame_spec b s r s' \<Longrightarrow> frames_spec bs s' rs s'' \<Longrightarrow> frames_spec (b # bs) s (r # rs) s''"

lemma read_u32_frame: "length body \<le> MAX_MSG \<Longrightarrow> read_u32 (frame body @ rest) = Some (of_nat (length body)) \<and> unat (of_nat (length body) :: u32) = length body"
  by (simp add: frame_def unat_of_nat MAX_MSG_def)

lemma length_frame [simp]: "length (frame body) = 4 + length body"
  by (simp add: frame_def)

lemma try_one_full:
  assumes s: "serves n db s" and n: "n + 1 < 2 ^ 31" and c: "incoming c = frame body @ rest" "length body \<le> MAX_MSG"
  shows "\<exists>db' r s'. try_one_request db c = Some (db', c\<lparr>outgoing := outgoing c @ reply_frame r, incoming := rest\<rparr>, True) \<and>
    serves (Suc n) db' s' \<and> frame_spec body s r s'"
proof -
  note len = read_u32_frame [OF c(2), of rest]
  have body: "take (length body) (drop 4 (incoming c)) = body" by (simp add: c(1) frame_def)
  from parse_req_total [of body "[]"] obtain rc cmd where p: "parse_req body [] = Some (rc, cmd)" by blast
  have "\<exists>db' r s'. (if rc \<noteq> 0 then Some (db, out_err [] ERR_ARG ''bad request'') else do_request cmd db []) = Some (db', enc_reply r) \<and>
    serves (Suc n) db' s' \<and> frame_spec body s r s'"
  proof (cases "rc = 0")
    case True
    with do_request_ok [OF s n, of cmd "[]"] p show ?thesis by (auto simp: answers_def frame_spec_def)
  next
    case False
    with p serves_Suc [OF s] show ?thesis
      by (intro exI [of _ db] exI [of _ "RErr ERR_ARG ''bad request''"] exI [of _ s]) (simp add: frame_spec_def out_enc)
  qed
  then obtain db' r s' where r: "(if rc \<noteq> 0 then Some (db, out_err [] ERR_ARG ''bad request'') else do_request cmd db []) = Some (db', enc_reply r)"
    "serves (Suc n) db' s'" "frame_spec body s r s'" by blast
  have "try_one_request db c = Some (db', c\<lparr>outgoing := outgoing c @ reply_frame r, incoming := rest\<rparr>, True)"
    using len c body p r(1) by (simp add: try_one_request_def buf_append_def buf_consume_def frame_def)
  with r(2,3) show ?thesis by blast
qed

lemma try_one_partial: "partial_input (incoming c) \<Longrightarrow> try_one_request db c = Some (db, c, False)"
  by (auto simp: try_one_request_def partial_input_def read_u32_def)

lemma try_one_oversize:
  "4 \<le> length (incoming c) \<Longrightarrow> oversize_input (incoming c) \<Longrightarrow> try_one_request db c = Some (db, c\<lparr>want_close := True\<rparr>, False)"
  by (auto simp: try_one_request_def oversize_input_def)

subsection \<open>Pipelined requests\<close>

text \<open>What the drain loop makes of the connection \<open>c\<close>: it consumes the frames \<open>bodies\<close> and appends the replies \<open>rs\<close>.\<close>

definition drained :: "conn \<Rightarrow> byte list list \<Rightarrow> reply list \<Rightarrow> conn \<Rightarrow> bool" where
  "drained c bodies rs c' \<longleftrightarrow>
     incoming c = concat (map frame bodies) @ incoming c' \<and> (\<forall>b \<in> set bodies. length b \<le> MAX_MSG) \<and>
     c' = c\<lparr>incoming := incoming c', outgoing := outgoing c @ concat (map reply_frame rs), want_close := want_close c'\<rparr> \<and>
     (partial_input (incoming c') \<and> want_close c' = want_close c \<or> oversize_input (incoming c') \<and> want_close c')"

lemma drained_Cons:
  assumes "drained (c\<lparr>outgoing := outgoing c @ reply_frame r, incoming := rest\<rparr>) bodies rs c'"
    and "incoming c = frame b @ rest" and "length b \<le> MAX_MSG"
  shows "drained c (b # bodies) (r # rs) c'"
  using assms unfolding drained_def by (cases c; cases c') auto

lemma serves_mono: "serves m db s \<Longrightarrow> m \<le> m' \<Longrightarrow> serves m' db s"
  unfolding serves_def small_def by (meson le_trans)

lemma drain_ok:
  assumes "serves n db s" and "n + length (incoming c) < 2 ^ 31"
  shows "\<exists>db' c' s' bodies rs. drain db c = Some (db', c') \<and> serves (n + length (incoming c)) db' s' \<and>
    drained c bodies rs c' \<and> frames_spec bodies s rs s'"
  using assms
proof (induction "length (incoming c)" arbitrary: n db s c rule: less_induct)
  case less
  show ?case
  proof (cases "incoming c" rule: input_cases)
    case part
    then have "drain db c = Some (db, c)" by (subst drain.simps) (simp add: try_one_partial)
    moreover have "drained c [] [] c" using part by (simp add: drained_def)
    ultimately show ?thesis using frames_spec.Nil serves_mono [OF less.prems(1)] by (metis le_add1)
  next
    case over
    let ?c = "c\<lparr>want_close := True\<rparr>"
    have "drain db c = Some (db, ?c)" by (subst drain.simps) (simp add: try_one_oversize over)
    moreover have "drained c [] [] ?c" using over by (simp add: drained_def)
    ultimately show ?thesis using frames_spec.Nil serves_mono [OF less.prems(1)] by (metis le_add1)
  next
    case (full body rest)
    then have len: "length (incoming c) = 4 + length body + length rest" by simp
    have n1: "n + 1 < 2 ^ 31" using less.prems(2) len by linarith
    from try_one_full [OF less.prems(1) n1 full] obtain db1 r s1 where
      1: "try_one_request db c = Some (db1, c\<lparr>outgoing := outgoing c @ reply_frame r, incoming := rest\<rparr>, True)"
        "serves (Suc n) db1 s1" "frame_spec body s r s1" by blast
    let ?c = "c\<lparr>outgoing := outgoing c @ reply_frame r, incoming := rest\<rparr>"
    have "length (incoming ?c) < length (incoming c)" "Suc n + length (incoming ?c) < 2 ^ 31"
      using less.prems(2) len by simp_all
    from less.hyps [OF this(1) 1(2) this(2)] obtain db' c' s' bodies rs where
      2: "drain db1 ?c = Some (db', c')" "serves (Suc n + length (incoming ?c)) db' s'" "drained ?c bodies rs c'" "frames_spec bodies s1 rs s'"
      by blast
    have "drain db c = Some (db', c')" by (subst drain.simps) (simp add: 1(1) 2(1))
    moreover have "drained c (body # bodies) (r # rs) c'" by (rule drained_Cons [OF 2(3) full])
    moreover have "frames_spec (body # bodies) s (r # rs) s'" using full(2) 1(3) 2(4) by (rule frames_spec.Cons)
    moreover have "serves (n + length (incoming c)) db' s'" using 2(2) by (rule serves_mono) (simp add: len)
    ultimately show ?thesis by blast
  qed
qed

subsection \<open>Requests only advance the clock\<close>

definition clock_le :: "clock \<Rightarrow> clock \<Rightarrow> bool" where
  "clock_le c c' \<longleftrightarrow> readings c' = readings c \<and> n_read c \<le> n_read c'"

lemma clock_le_refl [simp]: "clock_le c c"
  by (simp add: clock_le_def)

lemma clock_le_trans: "clock_le a b \<Longrightarrow> clock_le b c \<Longrightarrow> clock_le a c"
  by (simp add: clock_le_def)

lemma clock_le_read: "get_monotonic_msec c = (now, c') \<Longrightarrow> clock_le c c'"
  by (auto simp: clock_le_def get_monotonic_msec_def)

lemma expire_key_clock: "expire_key k s = (A, c) \<Longrightarrow> clock_le (snd s) c"
  using clock_le_read by (auto simp: expire_key_def Let_def split: option.splits prod.splits if_splits)

lemma sp_clock:
  "clock_le (snd s) (snd (snd (sp_get k s)))"
  "clock_le (snd s) (snd (snd (sp_set k v s)))"
  "clock_le (snd s) (snd (snd (sp_del k s)))"
  "clock_le (snd s) (snd (snd (sp_expire k arg u s)))"
  "clock_le (snd s) (snd (snd (sp_ttl k in_ms s)))"
  "clock_le (snd s) (snd (snd (sp_persist k s)))"
  "clock_le (snd s) (snd (snd (sp_zadd k arg name s)))"
  "clock_le (snd s) (snd (snd (sp_zrem k name s)))"
  "clock_le (snd s) (snd (snd (sp_zscore k name s)))"
  "clock_le (snd s) (snd (snd (sp_zquery k arg name oarg larg s)))"
proof -
  obtain A c where e: "expire_key k s = (A, c)" by fastforce
  have c: "clock_le (snd s) c" using expire_key_clock [OF e] .
  obtain now c' where n: "get_monotonic_msec c = (now, c')" by fastforce
  have c': "clock_le (snd s) c'" using clock_le_trans [OF c clock_le_read [OF n]] .
  note sem = sp_get_def sp_set_def sp_del_def sp_expire_def sp_ttl_def sp_persist_def sp_zadd_def sp_zrem_def
    sp_zscore_def sp_zquery_def e n Let_def
  show "clock_le (snd s) (snd (snd (sp_get k s)))"
    "clock_le (snd s) (snd (snd (sp_set k v s)))"
    "clock_le (snd s) (snd (snd (sp_del k s)))"
    "clock_le (snd s) (snd (snd (sp_expire k arg u s)))"
    "clock_le (snd s) (snd (snd (sp_ttl k in_ms s)))"
    "clock_le (snd s) (snd (snd (sp_persist k s)))"
    "clock_le (snd s) (snd (snd (sp_zadd k arg name s)))"
    "clock_le (snd s) (snd (snd (sp_zrem k name s)))"
    "clock_le (snd s) (snd (snd (sp_zscore k name s)))"
    "clock_le (snd s) (snd (snd (sp_zquery k arg name oarg larg s)))"
    using c c' by (auto simp: sem split: option.splits prod.splits val.splits)
qed

lemma request_clock:
  assumes "request_spec cmd s r s'"
  shows "clock_le (snd s) (snd s')"
proof (cases "\<exists>verb. cmd = [verb] \<and> to_upper verb = ''KEYS''")
  case True
  with assms show ?thesis by (simp add: request_spec_def)
next
  case False
  with assms have "s' = snd (sp_request cmd s)" unfolding request_spec_def by (metis snd_conv)
  then show ?thesis
    using sp_clock by (auto simp: sp_request_def sp_unknown_def Let_def split: list.splits)
qed

lemma frames_clock: "frames_spec bs s rs s' \<Longrightarrow> clock_le (snd s) (snd s')"
  by (induction rule: frames_spec.induct) (auto simp: frame_spec_def intro: clock_le_trans request_clock)

subsection \<open>Reading and writing a connection\<close>

text \<open>A bound on the input that one \<open>read\<close> can leave to process, and so on the requests it can complete.\<close>

definition read_budget :: nat where
  "read_budget = 4 + MAX_MSG + 2 ^ 16"

text \<open>The bytes that a result of \<open>read\<close> hands over.\<close>

fun read_bytes :: "sys_read \<Rightarrow> byte list" where
  "read_bytes (ReadData data) = data"
| "read_bytes _ = []"

text \<open>A connection that is open between two iterations of the event loop: its input is an unfinished
  frame, and it waits for room to write exactly if it has output, and for input otherwise.\<close>

definition conn_good :: "conn \<Rightarrow> bool" where
  "conn_good c \<longleftrightarrow> partial_input (incoming c) \<and> \<not> want_close c \<and>
     want_read c = (outgoing c = []) \<and> want_write c = (outgoing c \<noteq> [])"

lemma handle_read_ok:
  assumes s: "serves n db s" and good: "conn_good c"
    and n: "n + read_budget < 2 ^ 31" and d: "\<And>data. rd = ReadData data \<Longrightarrow> length data \<le> 2 ^ 16"
  shows "\<exists>db' c' s' bodies rs. handle_read db c rd = Some (db', c') \<and> serves (n + read_budget) db' s' \<and> frames_spec bodies s rs s' \<and>
    incoming c @ read_bytes rd = concat (map frame bodies) @ incoming c' \<and> outgoing c' = outgoing c @ concat (map reply_frame rs) \<and>
    c_fd c' = c_fd c \<and> last_active_ms c' = last_active_ms c \<and> (want_close c' \<or> conn_good c')"
proof -
  have s': "serves (n + read_budget) db s" using serves_mono [OF s] by simp
  show ?thesis
  proof (cases "\<exists>data. rd = ReadData data \<and> data \<noteq> []")
    case False
    then have "\<exists>c'. handle_read db c rd = Some (db, c') \<and> incoming c @ read_bytes rd = incoming c' \<and> outgoing c' = outgoing c \<and>
        c_fd c' = c_fd c \<and> last_active_ms c' = last_active_ms c \<and> (want_close c' \<or> conn_good c')"
      using good by (cases rd) (auto simp: handle_read_def)
    then obtain c' where "handle_read db c rd = Some (db, c')" "incoming c @ read_bytes rd = incoming c'" "outgoing c' = outgoing c"
        "c_fd c' = c_fd c" "last_active_ms c' = last_active_ms c" "want_close c' \<or> conn_good c'" by blast
    with s' frames_spec.Nil show ?thesis
      by (intro exI [of _ db] exI [of _ c'] exI [of _ s] exI [of _ "[]"] exI [of _ "[]"]) simp
  next
    case True
    then obtain data where data: "rd = ReadData data" "data \<noteq> []" by blast
    let ?c = "c\<lparr>incoming := incoming c @ data\<rparr>"
    have l: "length (incoming ?c) \<le> read_budget"
      using good d [OF data(1)] partial_bound [of "incoming c"] by (simp add: read_budget_def conn_good_def)
    with n have "n + length (incoming ?c) < 2 ^ 31" by linarith
    from drain_ok [OF s this] obtain db' c' s' bodies rs where dr: "drain db ?c = Some (db', c')"
      "serves (n + length (incoming ?c)) db' s'" "drained ?c bodies rs c'" "frames_spec bodies s rs s'" by blast
    have sv: "serves (n + read_budget) db' s'" using dr(2) by (rule serves_mono) (use l in simp)
    let ?c' = "if outgoing c' \<noteq> [] then c'\<lparr>want_read := False, want_write := True\<rparr> else c'"
    have "handle_read db c rd = Some (db', ?c')"
      using dr(1) data by (simp add: handle_read_def buf_append_def)
    moreover have "incoming c @ data = concat (map frame bodies) @ incoming ?c'" "outgoing ?c' = outgoing c @ concat (map reply_frame rs)"
      "c_fd ?c' = c_fd c" "last_active_ms ?c' = last_active_ms c"
      using dr(3) by (cases c; cases c'; simp add: drained_def)+
    moreover have "want_close ?c' \<or> conn_good ?c'"
      using dr(3) good by (cases c; cases c') (auto simp: drained_def conn_good_def)
    ultimately show ?thesis using sv dr(4) data(1) by (metis read_bytes.simps(1))
  qed
qed

text \<open>The bytes that a call of \<open>handle_write\<close> hands over.\<close>

definition written_bytes :: "conn \<Rightarrow> (nat \<Rightarrow> sys_write) \<Rightarrow> byte list" where
  "written_bytes c wr =
     (if outgoing c = [] then [] else case wr (length (outgoing c)) of Written k \<Rightarrow> take k (outgoing c) | _ \<Rightarrow> [])"

definition write_ok :: "(nat \<Rightarrow> sys_write) \<Rightarrow> bool" where
  "write_ok wr \<longleftrightarrow> (\<forall>n k. wr n = Written k \<longrightarrow> k \<le> n)"

lemma handle_write_ok:
  assumes "write_ok wr"
  shows "\<exists>c'. handle_write c wr = Some c' \<and> c_fd c' = c_fd c \<and> last_active_ms c' = last_active_ms c \<and>
    incoming c' = incoming c \<and> outgoing c = written_bytes c wr @ outgoing c' \<and> (want_close c \<or> conn_good c \<longrightarrow> want_close c' \<or> conn_good c')"
  using assms
  by (cases "wr (length (outgoing c))")
    (auto simp: handle_write_def write_ok_def buf_consume_def written_bytes_def conn_good_def Let_def)

subsection \<open>Properties\<close>

text \<open>C7: Pipelining. The loop over the buffered requests always ends, and it splits the input of
  the connection into its complete frames and a rest. Every frame is answered, in order, by one
  reply frame appended to the output, each reply being the one that the keyspace left by the
  requests before it calls for; a frame that does not parse is answered by an error and changes
  nothing. The rest stays in the buffer: it is an unfinished frame, or it starts with a frame
  that is too long and the connection is to be closed.\<close>

theorem pipelined_requests:
  assumes "serves n db s" and "n + length (incoming c) < 2 ^ 31"
  shows "\<exists>db' c' s' bodies rs. drain db c = Some (db', c') \<and>
    incoming c = concat (map frame bodies) @ incoming c' \<and>
    outgoing c' = outgoing c @ concat (map reply_frame rs) \<and> frames_spec bodies s rs s' \<and>
    (partial_input (incoming c') \<and> want_close c' = want_close c \<or> oversize_input (incoming c') \<and> want_close c') \<and>
    serves (n + length (incoming c)) db' s'"
proof -
  from drain_ok [OF assms] obtain db' c' s' bodies rs where
    d: "drain db c = Some (db', c')" "serves (n + length (incoming c)) db' s'" "drained c bodies rs c'" "frames_spec bodies s rs s'"
    by blast
  have "outgoing c' = outgoing c @ concat (map reply_frame rs)"
    using d(3) unfolding drained_def by (cases c') simp
  with d show ?thesis unfolding drained_def by blast
qed

definition demo_conn :: "byte list \<Rightarrow> conn" where
  "demo_conn inp = \<lparr>c_fd = 5, want_read = True, want_write = False, want_close = False, incoming = inp, outgoing = [], last_active_ms = 0\<rparr>"

theorem pipelined_requests_witness:
  "\<exists>db' c' s' bodies rs. drain demo_db (demo_conn (frame [] @ frame [] @ [7])) = Some (db', c') \<and>
     frame [] @ frame [] @ [7] = concat (map frame bodies) @ incoming c' \<and>
     frames_spec bodies (demo_keys, demo_clock) rs s'"
  using pipelined_requests [OF serves_demo, of "demo_conn (frame [] @ frame [] @ [7])"]
  by (simp add: demo_conn_def del: split_paired_Ex) blast

end
