(* ===== verification/Server_Log.thy ===== *)
theory Server_Log
  imports Server_Requests
begin

text \<open>
  Histories of the server: what happens to the key space as one sequence of events, and what goes
  over each connection. \<open>kspec\<close> is the specification of a server with any number of clients: one
  key space, on which requests are executed one after the other and from which overdue keys may
  disappear. \<open>streams\<close> relates the bytes that went over the connections with the requests in that
  sequence.
\<close>

declare split_paired_Ex [simp del] split_paired_All [simp del]

subsection \<open>One sequence of events\<close>

datatype kevent =
    Served addr "byte list" reply    \<comment> \<open>a frame of the connection, and its reply\<close>
  | Tick                             \<comment> \<open>the clock is read\<close>
  | Reap "string set"                \<comment> \<open>the clock is read, and overdue keys are removed\<close>

inductive kspec :: "kstate \<Rightarrow> kevent list \<Rightarrow> kstate \<Rightarrow> bool" where
  Nil: "kspec s [] s"
| Served: "length b \<le> MAX_MSG \<Longrightarrow> frame_spec b s r s' \<Longrightarrow> kspec s' es s'' \<Longrightarrow> kspec s (Served p b r # es) s''"
| Tick: "get_monotonic_msec c = (now, k) \<Longrightarrow> kspec (A, k) es s'' \<Longrightarrow> kspec (A, c) (Tick # es) s''"
| Reap: "get_monotonic_msec c = (now, k) \<Longrightarrow> \<forall>key \<in> K. \<exists>v d. A key = Some (v, Some d) \<and> d \<le> now \<Longrightarrow>
    kspec (A |` (- K), k) es s'' \<Longrightarrow> kspec (A, c) (Reap K # es) s''"

lemma kspec_append: "kspec s es s' \<Longrightarrow> kspec s' es' s'' \<Longrightarrow> kspec s (es @ es') s''"
  by (induction rule: kspec.induct) (auto intro: kspec.intros)

lemma kspec_frames: "frames_spec bodies s rs s' \<Longrightarrow> kspec s (map2 (Served p) bodies rs) s'"
  by (induction rule: frames_spec.induct) (auto intro: kspec.intros)

lemma frames_spec_length: "frames_spec bodies s rs s' \<Longrightarrow> length rs = length bodies"
  by (induction rule: frames_spec.induct) simp_all

subsection \<open>The requests of one connection\<close>

fun event_frame :: "addr \<Rightarrow> kevent \<Rightarrow> (byte list \<times> reply) list" where
  "event_frame p (Served q b r) = (if q = p then [(b, r)] else [])"
| "event_frame p _ = []"

definition exchanges :: "addr \<Rightarrow> kevent list \<Rightarrow> (byte list \<times> reply) list" where
  "exchanges p hs = concat (map (event_frame p) hs)"

lemma exchanges_simps [simp]:
  "exchanges p [] = []"
  "exchanges p (e # hs) = event_frame p e @ exchanges p hs"
  "exchanges p (hs @ hs') = exchanges p hs @ exchanges p hs'"
  by (simp_all add: exchanges_def)

lemma exchanges_served:
  "length rs = length bodies \<Longrightarrow> exchanges p (map2 (Served q) bodies rs) = (if q = p then zip bodies rs else [])"
  by (induction bodies rs rule: list_induct2') auto

definition requests_bytes :: "addr \<Rightarrow> kevent list \<Rightarrow> byte list" where
  "requests_bytes p hs = concat (map (frame \<circ> fst) (exchanges p hs))"

definition replies_bytes :: "addr \<Rightarrow> kevent list \<Rightarrow> byte list" where
  "replies_bytes p hs = concat (map (\<lambda>(b, r). reply_frame r) (exchanges p hs))"

lemma exchange_bytes_append [simp]:
  "requests_bytes p (hs @ hs') = requests_bytes p hs @ requests_bytes p hs'"
  "replies_bytes p (hs @ hs') = replies_bytes p hs @ replies_bytes p hs'"
  by (simp_all add: requests_bytes_def replies_bytes_def)

lemma exchange_bytes_other [simp]:
  "requests_bytes p [Tick] = []" "replies_bytes p [Tick] = []" "requests_bytes p [Reap K] = []" "replies_bytes p [Reap K] = []"
  "requests_bytes p [] = []" "replies_bytes p [] = []"
  by (simp_all add: requests_bytes_def replies_bytes_def)

lemma exchange_bytes_served:
  assumes "length rs = length bodies"
  shows "requests_bytes p (map2 (Served q) bodies rs) = (if q = p then concat (map frame bodies) else [])"
    and "replies_bytes p (map2 (Served q) bodies rs) = (if q = p then concat (map reply_frame rs) else [])"
proof -
  have "map (frame \<circ> fst) (zip bodies rs) = map frame bodies"
    using assms by (metis list.map_comp map_fst_zip)
  then show "requests_bytes p (map2 (Served q) bodies rs) = (if q = p then concat (map frame bodies) else [])"
    using assms by (simp add: requests_bytes_def exchanges_served)
  have "map (\<lambda>(b, r). reply_frame r) (zip bodies rs) = map reply_frame rs"
    using assms by (induction bodies rs rule: list_induct2') auto
  then show "replies_bytes p (map2 (Served q) bodies rs) = (if q = p then concat (map reply_frame rs) else [])"
    using assms by (simp add: replies_bytes_def exchanges_served)
qed

subsection \<open>What goes over the connections\<close>

text \<open>All bytes received from and sent to each connection, by the address of its object.\<close>

type_synonym traffic = "(addr \<Rightarrow> byte list) \<times> (addr \<Rightarrow> byte list)"

definition add_traffic :: "addr \<Rightarrow> byte list \<times> byte list \<Rightarrow> traffic \<Rightarrow> traffic" where
  "add_traffic p io tr =
     ((fst tr)(p := fst tr p @ fst io), (snd tr)(p := snd tr p @ snd io))"

text \<open>What the calls of \<open>handle_read\<close> and \<open>handle_write\<close> for one event hand over.\<close>

definition conn_traffic :: "db \<Rightarrow> conn \<Rightarrow> event \<Rightarrow> byte list \<times> byte list" where
  "conn_traffic db c ev =
     (case ev of (re, rd, wr) \<Rightarrow>
        (if re_in re then read_bytes rd else [],
         if re_out re then written_bytes (if re_in re then snd (the (handle_read db c rd)) else c) wr else []))"

definition serve_traffic :: "server \<Rightarrow> nat \<Rightarrow> event \<Rightarrow> traffic \<Rightarrow> traffic" where
  "serve_traffic srv fd ev tr =
     (case vec_at (s_conns srv) fd of
        Some (Some p) \<Rightarrow>
          if re_in (fst ev) \<or> re_out (fst ev) \<or> re_hup (fst ev) \<or> re_other (fst ev) then
            let (now, srv') = srv_now srv
            in add_traffic p (conn_traffic (s_db srv') ((the (s_conn srv p))\<lparr>last_active_ms := now\<rparr>) ev) tr
          else tr
      | _ \<Rightarrow> tr)"

fun serve_all_traffic :: "server \<Rightarrow> nat list \<Rightarrow> event list \<Rightarrow> traffic \<Rightarrow> traffic" where
  "serve_all_traffic srv (fd # fds) (ev # evs) tr =
     (case serve_conn srv fd ev of
        None \<Rightarrow> tr
      | Some srv' \<Rightarrow> serve_all_traffic srv' fds evs (serve_traffic srv fd ev tr))"
| "serve_all_traffic srv _ _ tr = tr"

definition iteration_traffic :: "server \<Rightarrow> sys_poll \<Rightarrow> sys_accept \<Rightarrow> traffic \<Rightarrow> traffic" where
  "iteration_traffic srv res acc tr =
     (case res of
        PollReady listener evs \<Rightarrow>
          the (do {
            args \<leftarrow> poll_set srv (s_conns srv);
            (timeout, srv) \<leftarrow> next_timer_ms srv;
            srv \<leftarrow> (if listener then accept_new srv acc else Some srv);
            Some (serve_all_traffic srv (map fst args) evs tr) })
      | _ \<Rightarrow> tr)"

subsection \<open>Histories\<close>

text \<open>Each connection's input is the frames of its requests, in order, and then what is still in its
  input buffer; the replies, in order, are what was sent and then what is still in the output
  buffer. For a connection that is closed, the buffers are those it had at the end.\<close>

definition streams :: "server \<Rightarrow> kevent list \<Rightarrow> traffic \<Rightarrow> bool" where
  "streams srv hs tr \<longleftrightarrow>
     (\<forall>p. \<exists>inp out. fst tr p = requests_bytes p hs @ inp \<and> replies_bytes p hs = snd tr p @ out \<and>
        (\<forall>c. s_conn srv p = Some c \<longrightarrow> inp = incoming c \<and> out = outgoing c)) \<and>
     (\<forall>p \<ge> s_fresh srv. fst tr p = [] \<and> replies_bytes p hs = [])"

text \<open>Some sequence of events that starts with \<open>hs0\<close> leads from the key space \<open>s0\<close> to \<open>s\<close> and explains the traffic.\<close>

definition history :: "kstate \<Rightarrow> kevent list \<Rightarrow> server \<Rightarrow> kstate \<Rightarrow> traffic \<Rightarrow> bool" where
  "history s0 hs0 srv s tr \<longleftrightarrow> (\<exists>hs. kspec s0 (hs0 @ hs) s \<and> streams srv (hs0 @ hs) tr)"

lemma history_sub:
  assumes "history s0 hs0 srv s tr" and "s_conn srv' \<subseteq>\<^sub>m s_conn srv" and "s_fresh srv \<le> s_fresh srv'"
  shows "history s0 hs0 srv' s tr"
proof -
  from assms(1) obtain hs1 where "kspec s0 (hs0 @ hs1) s" "streams srv (hs0 @ hs1) tr" unfolding history_def by blast
  then obtain hs where hs: "kspec s0 hs s" "streams srv hs tr" and pre: "hs = hs0 @ hs1" by blast
  have "s_conn srv p = Some c" if "s_conn srv' p = Some c" for p c
    using assms(2) that by (metis domI map_le_def)
  then have "streams srv' hs tr" using hs(2) assms(3) unfolding streams_def by (meson le_trans)
  with hs(1) show ?thesis unfolding history_def pre by (metis append.assoc)
qed

lemma history_event:
  assumes "history s0 hs0 srv s tr" and "kspec s [e] s'" and "\<And>p. event_frame p e = []"
  shows "history s0 hs0 srv s' tr"
proof -
  from assms(1) obtain hs1 where "kspec s0 (hs0 @ hs1) s" "streams srv (hs0 @ hs1) tr" unfolding history_def by blast
  then obtain hs where hs: "kspec s0 hs s" "streams srv hs tr" and pre: "hs = hs0 @ hs1" by blast
  have "requests_bytes p [e] = []" "replies_bytes p [e] = []" for p
    by (simp_all add: requests_bytes_def replies_bytes_def assms(3))
  then have "streams srv (hs @ [e]) tr" using hs(2) unfolding streams_def by simp
  with kspec_append [OF hs(1) assms(2)] show ?thesis unfolding history_def pre by (metis append.assoc)
qed

lemma history_tick:
  assumes "history s0 hs0 srv (A, c) tr" and "get_monotonic_msec c = (now, k)"
  shows "history s0 hs0 srv (A, k) tr"
  using history_event [OF assms(1), of Tick] assms(2) by (blast intro: kspec.intros event_frame.simps)

lemma history_reap:
  assumes "history s0 hs0 srv (A, c) tr" and "get_monotonic_msec c = (now, k)"
    and "\<forall>key \<in> K. \<exists>v d. A key = Some (v, Some d) \<and> d \<le> now"
  shows "history s0 hs0 srv (A |` (- K), k) tr"
  using history_event [OF assms(1), of "Reap K"] assms(2,3) by (blast intro: kspec.intros event_frame.simps)

lemma history_served:
  assumes h: "history s0 hs0 srv s tr" and f: "frames_spec bodies s rs s'"
    and p: "s_conn srv p = Some c" "p < s_fresh srv"
    and io: "incoming c @ inb = concat (map frame bodies) @ inp" "outgoing c @ concat (map reply_frame rs) = outb @ out"
    and srv': "\<And>q. q \<noteq> p \<Longrightarrow> s_conn srv' q = s_conn srv q" "\<And>c'. s_conn srv' p = Some c' \<Longrightarrow> incoming c' = inp \<and> outgoing c' = out"
      "s_fresh srv' = s_fresh srv"
  shows "history s0 hs0 srv' s' (add_traffic p (inb, outb) tr)"
proof -
  from h obtain hs1 where "kspec s0 (hs0 @ hs1) s" "streams srv (hs0 @ hs1) tr" unfolding history_def by blast
  then obtain hs where hs: "kspec s0 hs s" "streams srv hs tr" and pre: "hs = hs0 @ hs1" by blast
  let ?es = "map2 (Served p) bodies rs"
  note b = exchange_bytes_served [OF frames_spec_length [OF f], where q = p]
  from hs(2) p(1) have old: "fst tr p = requests_bytes p hs @ incoming c" "replies_bytes p hs = snd tr p @ outgoing c"
    unfolding streams_def by blast+
  have "\<exists>inp out. fst (add_traffic p (inb, outb) tr) q = requests_bytes q (hs @ ?es) @ inp \<and>
      replies_bytes q (hs @ ?es) = snd (add_traffic p (inb, outb) tr) q @ out \<and>
      (\<forall>c. s_conn srv' q = Some c \<longrightarrow> inp = incoming c \<and> out = outgoing c)" for q
  proof (cases "q = p")
    case True
    have "fst (add_traffic p (inb, outb) tr) q = requests_bytes q (hs @ ?es) @ inp"
      "replies_bytes q (hs @ ?es) = snd (add_traffic p (inb, outb) tr) q @ out"
      using io old by (simp_all add: True add_traffic_def b)
    with True srv'(2) show ?thesis by metis
  next
    case False
    with hs(2) srv'(1) [OF False] show ?thesis unfolding streams_def by (simp add: add_traffic_def b)
  qed
  moreover have "fst (add_traffic p (inb, outb) tr) q = [] \<and> replies_bytes q (hs @ ?es) = []" if "q \<ge> s_fresh srv'" for q
    using hs(2) that p(2) srv'(3) unfolding streams_def by (auto simp: add_traffic_def b)
  ultimately have "streams srv' (hs @ ?es) (add_traffic p (inb, outb) tr)" unfolding streams_def by blast
  with kspec_append [OF hs(1) kspec_frames [OF f]] show ?thesis unfolding history_def pre by (metis append.assoc)
qed

lemma history_accept:
  assumes h: "history s0 hs0 srv s tr" and new: "s_conn srv' = (s_conn srv)(s_fresh srv \<mapsto> c)" "incoming c = []" "outgoing c = []"
    and fresh: "s_fresh srv' = Suc (s_fresh srv)"
  shows "history s0 hs0 srv' s tr"
proof -
  from h obtain hs1 where "kspec s0 (hs0 @ hs1) s" "streams srv (hs0 @ hs1) tr" unfolding history_def by blast
  then obtain hs where hs: "kspec s0 hs s" "streams srv hs tr" and pre: "hs = hs0 @ hs1" by blast
  let ?p = "s_fresh srv"
  have none: "fst tr ?p = []" "replies_bytes ?p hs = []" using hs(2) unfolding streams_def by blast+
  moreover obtain inp out where "fst tr ?p = requests_bytes ?p hs @ inp" "replies_bytes ?p hs = snd tr ?p @ out"
    using hs(2) unfolding streams_def by blast
  ultimately have "requests_bytes ?p hs = []" "snd tr ?p = []" by simp_all
  with none have "streams srv' hs tr"
    using hs(2) new fresh unfolding streams_def by (auto simp: Suc_le_eq)
  with hs(1) show ?thesis unfolding history_def pre by (metis append.assoc)
qed

end
