(* ===== verification/Server_Refine.thy ===== *)
theory Server_Refine
  imports Server_Log
begin

text \<open>
  The event loop keeps its invariant \<open>server_inv\<close>: the owning pointers of \<open>conns_\<close>, the
  connection objects and the idle list agree, the list is in the order of last activity, input
  buffers are bounded, and the database implements an abstract key space.
\<close>

subsection \<open>The connections\<close>

text \<open>The pointers of \<open>conns_\<close>, the connection objects and the idle list agree; \<open>xs\<close> lists the
  connections from the one that was idle longest to the one most recently active.\<close>

definition conns_ok :: "server \<Rightarrow> addr list \<Rightarrow> bool" where
  "conns_ok srv xs \<longleftrightarrow>
     ring (s_links srv) (s_idle_list srv) xs \<and> set xs = dom (s_conn srv) \<and>
     dom (s_links srv) = insert (s_idle_list srv) (dom (s_conn srv)) \<and>
     s_idle_list srv < s_fresh srv \<and> (\<forall>p \<in> dom (s_conn srv). p < s_fresh srv) \<and>
     (\<forall>fd p. vec_at (s_conns srv) fd = Some (Some p) \<longleftrightarrow> (\<exists>c. s_conn srv p = Some c \<and> c_fd c = fd))"

definition stamp :: "server \<Rightarrow> addr \<Rightarrow> u64" where
  "stamp srv p = last_active_ms (the (s_conn srv p))"

definition clock_mono :: "clock \<Rightarrow> bool" where
  "clock_mono c \<longleftrightarrow> mono (\<lambda>i. msec (readings c i))"

definition conns_good :: "server \<Rightarrow> addr list \<Rightarrow> bool" where
  "conns_good srv xs \<longleftrightarrow>
     (\<forall>p c. s_conn srv p = Some c \<longrightarrow> conn_good c) \<and>
     sorted (map (stamp srv) xs) \<and>
     (\<forall>p \<in> set xs. \<forall>i \<ge> n_read (d_clock (s_db srv)). stamp srv p \<le> msec (readings (d_clock (s_db srv)) i))"

lemma conns_okD:
  assumes "conns_ok srv xs"
  shows "ring (s_links srv) (s_idle_list srv) xs" "set xs = dom (s_conn srv)"
    "dom (s_links srv) = insert (s_idle_list srv) (dom (s_conn srv))" "s_idle_list srv < s_fresh srv"
    "p \<in> dom (s_conn srv) \<Longrightarrow> p < s_fresh srv"
    "vec_at (s_conns srv) fd = Some (Some p) \<longleftrightarrow> (\<exists>c. s_conn srv p = Some c \<and> c_fd c = fd)"
    "distinct xs" "s_idle_list srv \<notin> set xs"
  using assms unfolding conns_ok_def ring_def distinct.simps by blast+

lemma vec_at_update: "vec_at (xs[i := x]) j = (if j = i \<and> i < length xs then Some x else vec_at xs j)"
  by (auto simp: vec_at_def)

lemma conn_destroy_eff:
  assumes D: "ring (s_links srv) (s_idle_list srv) xs" "set xs = dom (s_conn srv)"
      "dom (s_links srv) = insert (s_idle_list srv) (dom (s_conn srv))" and p: "s_conn srv p = Some c"
  shows "\<exists>links. dlist_detach (s_links srv) p = Some links \<and> ring (links(p := None)) (s_idle_list srv) (remove1 p xs) \<and>
    dom (links(p := None)) = insert (s_idle_list srv) (dom ((s_conn srv)(p := None)))"
proof -
  have px: "p \<in> set xs" using D(2) p by blast
  have dist: "distinct xs" "s_idle_list srv \<notin> set xs" using D(1) by (simp_all add: ring_def)
  from detach_ok [OF D(1) px] obtain links where l: "dlist_detach (s_links srv) p = Some links"
    "ring links (s_idle_list srv) (remove1 p xs)" "dom links = dom (s_links srv)" by blast
  have "p \<noteq> s_idle_list srv" "p \<notin> set (remove1 p xs)" using px dist by auto
  then have "ring (links(p := None)) (s_idle_list srv) (remove1 p xs)" by (intro ring_frame [OF l(2)]) auto
  moreover have "dom (links(p := None)) = insert (s_idle_list srv) (dom ((s_conn srv)(p := None)))"
    using l(3) D(3) \<open>p \<noteq> s_idle_list srv\<close> by auto
  ultimately show ?thesis using l(1) by blast
qed

lemma conn_reset_ok:
  assumes ok: "conns_ok srv xs" and p: "s_conn srv p = Some c"
  shows "\<exists>links conns. conn_reset srv (c_fd c) = Some (srv\<lparr>s_conns := conns, s_conn := (s_conn srv)(p := None),
      s_links := links, s_closed := s_closed srv @ [c_fd c]\<rparr>) \<and>
    conns_ok (srv\<lparr>s_conns := conns, s_conn := (s_conn srv)(p := None),
      s_links := links, s_closed := s_closed srv @ [c_fd c]\<rparr>) (remove1 p xs)"
proof -
  note D = conns_okD [OF ok]
  from conn_destroy_eff [OF D(1-3) p] obtain l where l: "dlist_detach (s_links srv) p = Some l"
    "ring (l(p := None)) (s_idle_list srv) (remove1 p xs)"
    "dom (l(p := None)) = insert (s_idle_list srv) (dom ((s_conn srv)(p := None)))" by blast
  have v: "vec_at (s_conns srv) (c_fd c) = Some (Some p)" using D(6) p by blast
  let ?srv = "srv\<lparr>s_conns := (s_conns srv)[c_fd c := None], s_conn := (s_conn srv)(p := None),
      s_links := l(p := None), s_closed := s_closed srv @ [c_fd c]\<rparr>"
  have own: "vec_at ((s_conns srv)[c_fd c := None]) fd = Some (Some q) \<longleftrightarrow> (\<exists>c'. ((s_conn srv)(p := None)) q = Some c' \<and> c_fd c' = fd)" for fd q
  proof -
    have "c_fd c < length (s_conns srv)" using v by (simp add: vec_at_eq_Some_iff)
    then show ?thesis using D(6) [of fd q] D(6) [of "c_fd c" q] p v by (auto simp: vec_at_update)
  qed
  have "set (remove1 p xs) = dom ((s_conn srv)(p := None))" using D(2,7) by auto
  then have "conns_ok ?srv (remove1 p xs)"
    unfolding conns_ok_def using l(2,3) D(4,5) own by auto
  moreover have "conn_reset srv (c_fd c) = Some ?srv"
    using v p l(1) by (simp add: conn_reset_def conn_destroy_def)
  ultimately show ?thesis by blast
qed

lemma touch_ok:
  assumes ok: "conns_ok srv xs" and p: "s_conn srv p = Some c" and c': "c_fd c' = c_fd c"
  shows "\<exists>l1 l2. dlist_detach (s_links srv) p = Some l1 \<and> dlist_insert_before l1 (s_idle_list srv) p = Some l2 \<and>
    conns_ok (srv\<lparr>s_links := l2, s_db := db, s_conn := (s_conn srv)(p \<mapsto> c')\<rparr>) (remove1 p xs @ [p])"
proof -
  note D = conns_okD [OF ok]
  have px: "p \<in> set xs" using D(2) p by blast
  from dl.touch [OF D(1) px] obtain l1 l2 where l: "dlist_detach (s_links srv) p = Some l1"
    "dlist_insert_before l1 (s_idle_list srv) p = Some l2" "ring l2 (s_idle_list srv) (remove1 p xs @ [p])" "dom l2 = dom (s_links srv)" by blast
  have "set (remove1 p xs @ [p]) = set xs" using px D(7) by auto
  moreover have "dom ((s_conn srv)(p \<mapsto> c')) = dom (s_conn srv)" using p by auto
  moreover have "(\<exists>x. ((s_conn srv)(p \<mapsto> c')) q = Some x \<and> c_fd x = fd) \<longleftrightarrow> (\<exists>x. s_conn srv q = Some x \<and> c_fd x = fd)" for q fd
    using p c' by auto
  ultimately have "conns_ok (srv\<lparr>s_links := l2, s_db := db, s_conn := (s_conn srv)(p \<mapsto> c')\<rparr>) (remove1 p xs @ [p])"
    unfolding conns_ok_def using l(3,4) D(2-6) by simp
  with l(1,2) show ?thesis by blast
qed

text \<open>The kernel only returns descriptors that are not open.\<close>

definition accept_ok :: "server \<Rightarrow> sys_accept \<Rightarrow> bool" where
  "accept_ok srv acc \<longleftrightarrow> (\<forall>fd p c. acc = Accepted fd \<longrightarrow> s_conn srv p = Some c \<longrightarrow> c_fd c \<noteq> fd)"

lemma accept_new_ok:
  assumes ok: "conns_ok srv xs" and a: "accept_ok srv (Accepted fd)" and now: "srv_now srv = (now, srv1)"
  shows "\<exists>srv'. accept_new srv (Accepted fd) = Some srv' \<and> conns_ok srv' (xs @ [s_fresh srv]) \<and>
    s_conn srv' = (s_conn srv)(s_fresh srv \<mapsto> \<lparr>c_fd = fd, want_read = True, want_write = False, want_close = False,
      incoming = [], outgoing = [], last_active_ms = now\<rparr>) \<and>
    s_db srv' = s_db srv1 \<and> s_idle_timeout_ms srv' = s_idle_timeout_ms srv \<and> s_closed srv' = s_closed srv \<and>
    s_fresh srv' = Suc (s_fresh srv)"
proof -
  note D = conns_okD [OF ok]
  let ?p = "s_fresh srv" and ?n = "\<lparr>dl_prev = None, dl_next = None\<rparr>"
  let ?conn = "\<lparr>c_fd = fd, want_read = True, want_write = False, want_close = False,
      incoming = [], outgoing = [], last_active_ms = now\<rparr>"
  have fresh: "?p \<notin> dom (s_conn srv)" "?p \<noteq> s_idle_list srv" using D(4,5) by auto
  then have pd: "?p \<notin> dom (s_links srv)" using D(3) by auto
  from dlist_init_eff [of ?p "(s_links srv)(?p \<mapsto> ?n)"] obtain l1 where l1:
    "dlist_init ((s_links srv)(?p \<mapsto> ?n)) ?p = Some l1" "dom l1 = insert ?p (dom (s_links srv))"
    "\<forall>q. q \<noteq> ?p \<longrightarrow> l1 q = s_links srv q" by auto
  have "ring l1 (s_idle_list srv) xs"
  proof (rule ring_frame [OF D(1)])
    fix q assume "q \<in> set (s_idle_list srv # xs)"
    then have "q \<noteq> ?p" using fresh D(2) by auto
    then show "l1 q = s_links srv q" using l1(3) by blast
  qed
  from insert_before_ok [OF this, of ?p] fresh D(2) l1(2) obtain l2 where l2:
    "dlist_insert_before l1 (s_idle_list srv) ?p = Some l2" "ring l2 (s_idle_list srv) (xs @ [?p])" "dom l2 = dom l1" by auto
  define conns where "conns = (if fd \<ge> length (s_conns srv)
      then s_conns srv @ replicate (fd + 1 - length (s_conns srv)) None else s_conns srv)"
  have len: "fd < length conns" by (simp add: conns_def)
  have same: "vec_at conns i = Some (Some q) \<longleftrightarrow> vec_at (s_conns srv) i = Some (Some q)" for i q
    by (auto simp: conns_def vec_at_def nth_append)
  have none: "vec_at conns fd = Some None"
  proof (cases "vec_at conns fd")
    case None
    then show ?thesis using len by simp
  next
    case (Some x)
    then show ?thesis using same [of fd] D(6) [of fd] a by (cases x) (auto simp: accept_ok_def)
  qed
  let ?srv = "srv1\<lparr>s_fresh := ?p + 1, s_links := l2, s_conn := (s_conn srv)(?p \<mapsto> ?conn), s_conns := conns[fd := Some ?p]\<rparr>"
  have s1: "srv1 = srv\<lparr>s_db := s_db srv1\<rparr>" using now by (auto simp: srv_now_def Let_def split: prod.splits)
  have sel: "s_conns srv1 = s_conns srv" "s_conn srv1 = s_conn srv" "s_idle_list srv1 = s_idle_list srv"
    "s_idle_timeout_ms srv1 = s_idle_timeout_ms srv" "s_closed srv1 = s_closed srv"
    by (subst s1, simp)+
  have own: "vec_at (conns[fd := Some ?p]) i = Some (Some q) \<longleftrightarrow> (\<exists>c. ((s_conn srv)(?p \<mapsto> ?conn)) q = Some c \<and> c_fd c = i)" for i q
    using same [of i q] D(6) [of i q] fresh(1) len a by (auto simp: vec_at_update accept_ok_def)
  have "accept_new srv (Accepted fd) = Some ?srv"
    unfolding accept_new_def sys_accept.case Let_def now case_prod_conv sel conns_def [symmetric]
    using l1(1) l2(1) none by (simp del: vec_at_Some)
  moreover have fr: "q < ?p + 1" if "q \<in> dom ((s_conn srv)(?p \<mapsto> ?conn))" for q
    using D(5) [of q] that by (cases "q = ?p") auto
  have "conns_ok ?srv (xs @ [?p])"
    unfolding conns_ok_def using l2(2,3) l1(2) D(2-4) own fr by (simp add: sel insert_commute)
  ultimately show ?thesis using sel by simp
qed

subsection \<open>The invariant of the event loop\<close>

definition server_inv :: "nat \<Rightarrow> server \<Rightarrow> kstate \<Rightarrow> addr list \<Rightarrow> bool" where
  "server_inv n srv s xs \<longleftrightarrow>
     serves n (s_db srv) s \<and> clock_mono (snd s) \<and> conns_ok srv xs \<and> conns_good srv xs"

lemma server_invD:
  assumes "server_inv n srv s xs"
  shows "serves n (s_db srv) s" "clock_mono (snd s)" "conns_ok srv xs" "conns_good srv xs" "d_clock (s_db srv) = snd s"
  using assms by (simp_all add: server_inv_def serves_def)

lemma server_inv_mono: "server_inv n srv s xs \<Longrightarrow> n \<le> m \<Longrightarrow> server_inv m srv s xs"
  unfolding server_inv_def using serves_mono by blast

lemma clock_mono_le: "clock_mono c \<Longrightarrow> clock_le c c' \<Longrightarrow> clock_mono c'"
  by (simp add: clock_mono_def clock_le_def)

lemma sorted_map_remove1: "distinct xs \<Longrightarrow> sorted (map f xs) \<Longrightarrow> sorted (map f (remove1 p xs))"
  by (simp add: distinct_remove1_removeAll removeAll_filter_not_eq sorted_filter)

text \<open>The connection \<open>p\<close> is gone and time has passed.\<close>

lemma conns_good_remove:
  assumes g: "conns_good srv xs" and d: "distinct xs" and c: "s_conn srv' = (s_conn srv)(p := None)"
    and k: "clock_le (d_clock (s_db srv)) (d_clock (s_db srv'))"
  shows "conns_good srv' (remove1 p xs)"
proof -
  have st: "stamp srv' q = stamp srv q" if "q \<noteq> p" for q using c that by (simp add: stamp_def)
  have np: "q \<noteq> p" if "q \<in> set (remove1 p xs)" for q using d that by auto
  then have "map (stamp srv') (remove1 p xs) = map (stamp srv) (remove1 p xs)" using st by (intro map_cong) auto
  then have "sorted (map (stamp srv') (remove1 p xs))"
    using g d sorted_map_remove1 unfolding conns_good_def by metis
  moreover have "stamp srv' q \<le> msec (readings (d_clock (s_db srv')) i)"
    if "q \<in> set (remove1 p xs)" "i \<ge> n_read (d_clock (s_db srv'))" for q i
  proof -
    have "q \<in> set xs" using that(1) notin_set_remove1 by metis
    moreover have "readings (d_clock (s_db srv')) = readings (d_clock (s_db srv))" "n_read (d_clock (s_db srv)) \<le> i"
      using k that(2) by (simp_all add: clock_le_def)
    ultimately show ?thesis using g st [OF np [OF that(1)]] unfolding conns_good_def by simp
  qed
  ultimately show ?thesis using g c by (auto simp: conns_good_def)
qed

text \<open>The connection \<open>p\<close> is new or was active just now.\<close>

lemma conns_good_put:
  assumes g: "conns_good srv xs" and d: "distinct xs" and c: "s_conn srv' = (s_conn srv)(p \<mapsto> c')"
    and c': "last_active_ms c' = now" "conn_good c'"
    and now: "get_monotonic_msec (d_clock (s_db srv)) = (now, k)" and k: "clock_le k (d_clock (s_db srv'))"
    and m: "clock_mono (d_clock (s_db srv))"
  shows "conns_good srv' (remove1 p xs @ [p])"
proof -
  let ?k = "d_clock (s_db srv)" and ?k' = "d_clock (s_db srv')"
  have n: "now = msec (readings ?k (n_read ?k))" "readings ?k' = readings ?k" "n_read ?k < n_read ?k'"
    using now k by (auto simp: get_monotonic_msec_def clock_le_def)
  have st: "stamp srv' q = stamp srv q" if "q \<noteq> p" for q using c that by (simp add: stamp_def)
  have sp: "stamp srv' p = now" using c c'(1) by (simp add: stamp_def)
  have old: "stamp srv q \<le> msec (readings ?k i)" if "q \<in> set xs" "i \<ge> n_read ?k" for q i
    using g that by (simp add: conns_good_def)
  have np: "q \<noteq> p" if "q \<in> set (remove1 p xs)" for q using d that by auto
  then have "map (stamp srv') (remove1 p xs) = map (stamp srv) (remove1 p xs)" using st by (intro map_cong) auto
  then have "sorted (map (stamp srv') (remove1 p xs))"
    using g d sorted_map_remove1 unfolding conns_good_def by metis
  moreover have "stamp srv' q \<le> now" if "q \<in> set (remove1 p xs)" for q
    using old [of q "n_read ?k"] st [OF np [OF that]] that notin_set_remove1 [of q xs p] n(1) by auto
  ultimately have "sorted (map (stamp srv') (remove1 p xs @ [p]))" using sp by (auto simp: sorted_append)
  moreover have "stamp srv' q \<le> msec (readings ?k' i)" if "q \<in> set (remove1 p xs @ [p])" "i \<ge> n_read ?k'" for q i
  proof (cases "q = p")
    case True
    have "n_read ?k \<le> i" using n(3) that(2) by simp
    with True show ?thesis using sp n(1,2) m by (simp add: clock_mono_def mono_def)
  next
    case False
    then have "q \<in> set xs" using that(1) notin_set_remove1 [of q xs p] by auto
    then show ?thesis using old [of q i] st [OF False] n that(2) by simp
  qed
  ultimately show ?thesis using g c c' by (auto simp: conns_good_def)
qed

text \<open>What the kernel may answer: at most 64 KiB are read at once, and no more is written than
  was offered.\<close>

definition event_ok :: "event \<Rightarrow> bool" where
  "event_ok ev \<longleftrightarrow> (case ev of (re, rd, wr) \<Rightarrow> (\<forall>data. rd = ReadData data \<longrightarrow> length data \<le> 2 ^ 16) \<and> write_ok wr)"

lemma serves_clock: "serves n db (A, c) \<Longrightarrow> serves n (db\<lparr>d_clock := c'\<rparr>) (A, c')"
  by (simp add: serves_def)

lemma srv_now_eq:
  assumes "get_monotonic_msec (d_clock (s_db srv)) = (now, k)"
  shows "srv_now srv = (now, srv\<lparr>s_db := (s_db srv)\<lparr>d_clock := k\<rparr>\<rparr>)"
  using assms by (simp add: srv_now_def db_now_def)

text \<open>The calls that one event leads to.\<close>

lemma conn_events_ok:
  assumes s: "serves n db s" and good: "conn_good c"
    and n: "n + read_budget < 2 ^ 31" and ev: "event_ok (re, rd, wr)"
  shows "\<exists>db' c1 c2 s' bodies rs inb outb.
    (if re_in re then handle_read db c rd else Some (db, c)) = Some (db', c1) \<and>
    (if re_out re then handle_write c1 wr else Some c1) = Some c2 \<and>
    serves (n + read_budget) db' s' \<and> frames_spec bodies s rs s' \<and> conn_traffic db c (re, rd, wr) = (inb, outb) \<and>
    incoming c @ inb = concat (map frame bodies) @ incoming c2 \<and> outgoing c @ concat (map reply_frame rs) = outb @ outgoing c2 \<and>
    c_fd c2 = c_fd c \<and> last_active_ms c2 = last_active_ms c \<and> (want_close c2 \<or> conn_good c2)"
proof -
  let ?inb = "if re_in re then read_bytes rd else []"
  have "\<exists>db' c1 s' bodies rs. (if re_in re then handle_read db c rd else Some (db, c)) = Some (db', c1) \<and>
    serves (n + read_budget) db' s' \<and> frames_spec bodies s rs s' \<and> incoming c @ ?inb = concat (map frame bodies) @ incoming c1 \<and>
    outgoing c1 = outgoing c @ concat (map reply_frame rs) \<and>
    c_fd c1 = c_fd c \<and> last_active_ms c1 = last_active_ms c \<and> (want_close c1 \<or> conn_good c1)"
  proof (cases "re_in re")
    case True
    from handle_read_ok [OF s good n, of rd] ev show ?thesis by (simp add: True event_ok_def)
  next
    case False
    then show ?thesis using serves_mono [OF s, of "n + read_budget"] good frames_spec.Nil [of s]
      by (intro exI [of _ db] exI [of _ c] exI [of _ s] exI [of _ "[]"]) simp
  qed
  then obtain db' c1 s' bodies rs where r: "(if re_in re then handle_read db c rd else Some (db, c)) = Some (db', c1)"
    "serves (n + read_budget) db' s'" "frames_spec bodies s rs s'" "incoming c @ ?inb = concat (map frame bodies) @ incoming c1"
    "outgoing c1 = outgoing c @ concat (map reply_frame rs)" "c_fd c1 = c_fd c" "last_active_ms c1 = last_active_ms c"
    "want_close c1 \<or> conn_good c1" by blast
  let ?outb = "if re_out re then written_bytes c1 wr else []"
  have tr: "conn_traffic db c (re, rd, wr) = (?inb, ?outb)" using r(1) by (cases "re_in re") (simp_all add: conn_traffic_def)
  have "\<exists>c2. (if re_out re then handle_write c1 wr else Some c1) = Some c2 \<and> c_fd c2 = c_fd c1 \<and>
    last_active_ms c2 = last_active_ms c1 \<and> (want_close c1 \<or> conn_good c1 \<longrightarrow> want_close c2 \<or> conn_good c2) \<and> incoming c2 = incoming c1 \<and> outgoing c1 = ?outb @ outgoing c2"
    using handle_write_ok [of wr c1] ev by (cases "re_out re") (auto simp: event_ok_def)
  then obtain c2 where w: "(if re_out re then handle_write c1 wr else Some c1) = Some c2" "c_fd c2 = c_fd c1"
    "last_active_ms c2 = last_active_ms c1" "want_close c1 \<or> conn_good c1 \<longrightarrow> want_close c2 \<or> conn_good c2" "incoming c2 = incoming c1" "outgoing c1 = ?outb @ outgoing c2" by blast
  have "incoming c @ ?inb = concat (map frame bodies) @ incoming c2" unfolding w(5) by (rule r(4))
  moreover have "outgoing c @ concat (map reply_frame rs) = ?outb @ outgoing c2" using r(5) w(6) by metis
  moreover have "c_fd c2 = c_fd c" "last_active_ms c2 = last_active_ms c" "want_close c2 \<or> conn_good c2"
    using w(2-5) r(6-8) by auto
  ultimately show ?thesis using r(1-3) w(1) tr by blast
qed

text \<open>The connection \<open>p\<close> after its events, with the new buffers in \<open>c2\<close>: closed or kept.\<close>

lemma serve_finish:
  assumes inv: "server_inv n srv s xs" and p: "s_conn srv p = Some c" and now: "get_monotonic_msec (snd s) = (now, k)"
    and c2: "c_fd c2 = c_fd c" "last_active_ms c2 = now" "want_close c2 \<or> conn_good c2"
    and s': "serves m db' s'" "clock_le k (snd s')"
  shows "\<exists>l1 l2 srv' xs'. dlist_detach (s_links srv) p = Some l1 \<and> dlist_insert_before l1 (s_idle_list srv) p = Some l2 \<and>
    (let srv2 = srv\<lparr>s_links := l2, s_db := db', s_conn := (s_conn srv)(p \<mapsto> c2)\<rparr>
     in if want_close c2 \<or> hup then conn_reset srv2 (c_fd c) else Some srv2) = Some srv' \<and> server_inv m srv' s' xs' \<and>
    (s_conn srv' = (s_conn srv)(p \<mapsto> c2) \<or> s_conn srv' = (s_conn srv)(p := None)) \<and> s_fresh srv' = s_fresh srv"
proof -
  note D = server_invD [OF inv]
  have now': "get_monotonic_msec (d_clock (s_db srv)) = (now, k)" using D(5) now by simp
  have kdb: "d_clock db' = snd s'" using s'(1) by (simp add: serves_def)
  have kk: "clock_le (snd s) (snd s')" using clock_le_trans [OF clock_le_read [OF now] s'(2)] .
  have mono: "clock_mono (snd s')" using clock_mono_le [OF D(2) kk] .
  have dist: "distinct xs" using conns_okD(7) [OF D(3)] .
  from touch_ok [OF D(3) p c2(1), of db'] obtain l1 l2 where l: "dlist_detach (s_links srv) p = Some l1"
    "dlist_insert_before l1 (s_idle_list srv) p = Some l2"
    "conns_ok (srv\<lparr>s_links := l2, s_db := db', s_conn := (s_conn srv)(p \<mapsto> c2)\<rparr>) (remove1 p xs @ [p])" by blast
  let ?srv = "srv\<lparr>s_links := l2, s_db := db', s_conn := (s_conn srv)(p \<mapsto> c2)\<rparr>"
  show ?thesis
  proof (cases "want_close c2 \<or> hup")
    case True
    from conn_reset_ok [OF l(3), of p c2] c2(1) obtain links conns where c:
      "conn_reset ?srv (c_fd c) = Some (?srv\<lparr>s_conns := conns, s_conn := (s_conn srv)(p := None), s_links := links, s_closed := s_closed srv @ [c_fd c]\<rparr>)"
      "conns_ok (?srv\<lparr>s_conns := conns, s_conn := (s_conn srv)(p := None), s_links := links, s_closed := s_closed srv @ [c_fd c]\<rparr>) (remove1 p (remove1 p xs @ [p]))"
      by auto
    have "remove1 p (remove1 p xs @ [p]) = remove1 p xs" using dist by (simp add: remove1_append remove1_idem)
    moreover have "conns_good (?srv\<lparr>s_conns := conns, s_conn := (s_conn srv)(p := None), s_links := links, s_closed := s_closed srv @ [c_fd c]\<rparr>) (remove1 p xs)"
      using kk D(5) kdb by (intro conns_good_remove [OF D(4) dist]) simp_all
    ultimately show ?thesis using l(1,2) True c s'(1) mono by (auto simp: server_inv_def Let_def)
  next
    case False
    have "conns_good ?srv (remove1 p xs @ [p])"
      using c2 False s'(2) kdb D(2,5) by (intro conns_good_put [OF D(4) dist _ _ _ now']) auto
    then show ?thesis using l False s'(1) mono by (auto simp: server_inv_def Let_def)
  qed
qed

lemma serve_conn_ok:
  assumes inv: "server_inv n srv s xs" and n: "n + read_budget < 2 ^ 31" and ev: "event_ok ev"
  shows "\<exists>srv' s' xs'. serve_conn srv fd ev = Some srv' \<and> server_inv (n + read_budget) srv' s' xs' \<and>
    (\<forall>s0 hs0 tr. history s0 hs0 srv s tr \<longrightarrow> history s0 hs0 srv' s' (serve_traffic srv fd ev tr))"
proof -
  note D = server_invD [OF inv]
  obtain re rd wr where e: "ev = (re, rd, wr)" by (cases ev)
  show ?thesis
  proof (cases "(re_in re \<or> re_out re \<or> re_hup re \<or> re_other re) \<and> (\<exists>p. vec_at (s_conns srv) fd = Some (Some p))")
    case False
    then have "serve_conn srv fd ev = Some srv" and "serve_traffic srv fd ev tr = tr" for tr
      by (auto simp: serve_conn_def serve_traffic_def e vec_at_def split: option.splits)
    then show ?thesis using server_inv_mono [OF inv] by (metis le_add1)
  next
    case True
    then obtain p where v: "vec_at (s_conns srv) fd = Some (Some p)" by blast
    then obtain c where p: "s_conn srv p = Some c" "c_fd c = fd" using conns_okD(6) [OF D(3)] by blast
    obtain A c0 where s: "s = (A, c0)" by fastforce
    obtain now k where now: "get_monotonic_msec c0 = (now, k)" by fastforce
    let ?db = "(s_db srv)\<lparr>d_clock := k\<rparr>" and ?c = "c\<lparr>last_active_ms := now\<rparr>"
    have now': "srv_now srv = (now, srv\<lparr>s_db := ?db\<rparr>)" using D(5) s now by (intro srv_now_eq) simp
    have sv: "serves n ?db (A, k)" using D(1) s serves_clock by simp
    have "conn_good ?c" using D(4) p(1) by (auto simp: conns_good_def conn_good_def)
    from conn_events_ok [OF sv this n ev [unfolded e]] obtain db' c1 c2 s' bodies rs inb outb where r:
      "(if re_in re then handle_read ?db ?c rd else Some (?db, ?c)) = Some (db', c1)"
      "(if re_out re then handle_write c1 wr else Some c1) = Some c2"
      "serves (n + read_budget) db' s'" "frames_spec bodies (A, k) rs s'" "conn_traffic ?db ?c ev = (inb, outb)"
      "incoming c @ inb = concat (map frame bodies) @ incoming c2" "outgoing c @ concat (map reply_frame rs) = outb @ outgoing c2"
      "c_fd c2 = c_fd c" "last_active_ms c2 = now" "want_close c2 \<or> conn_good c2"
      unfolding e by auto
    have "clock_le k (snd s')" using frames_clock [OF r(4)] by simp
    from serve_finish [OF inv p(1) _ r(8-10) r(3) this, of "re_hup re"] now s obtain l1 l2 srv' xs' where f:
      "dlist_detach (s_links srv) p = Some l1" "dlist_insert_before l1 (s_idle_list srv) p = Some l2"
      "(let srv2 = srv\<lparr>s_links := l2, s_db := db', s_conn := (s_conn srv)(p \<mapsto> c2)\<rparr>
        in if want_close c2 \<or> re_hup re then conn_reset srv2 (c_fd c) else Some srv2) = Some srv'" "server_inv (n + read_budget) srv' s' xs'"
      "s_conn srv' = (s_conn srv)(p \<mapsto> c2) \<or> s_conn srv' = (s_conn srv)(p := None)" "s_fresh srv' = s_fresh srv" by auto
    have "serve_conn srv fd ev = Some srv'"
      using True v p f(1-3) r(1,2) now' by (auto simp: serve_conn_def e vec_at_eq_Some_iff Let_def)
    moreover have "history s0 hs0 srv' s' (serve_traffic srv fd ev tr)" if "history s0 hs0 srv s tr" for s0 hs0 tr
    proof -
      have "serve_traffic srv fd ev tr = add_traffic p (inb, outb) tr"
        using True v p(1) r(5) now' by (simp add: serve_traffic_def e)
      moreover have h: "history s0 hs0 srv (A, k) tr" using history_tick that s now by blast
      have lt: "p < s_fresh srv" using conns_okD(5) [OF D(3)] p(1) by blast
      have "history s0 hs0 srv' s' (add_traffic p (inb, outb) tr)"
        by (rule history_served [OF h r(4) p(1) lt r(6,7)]) (use f(5,6) in auto)
      ultimately show ?thesis by simp
    qed
    ultimately show ?thesis using f(4) by blast
  qed
qed

lemma accept_new_inv:
  assumes inv: "server_inv n srv (A, c) xs" and a: "accept_ok srv (Accepted fd)" and now: "get_monotonic_msec c = (now, k)"
  shows "\<exists>srv'. accept_new srv (Accepted fd) = Some srv' \<and> server_inv n srv' (A, k) (xs @ [s_fresh srv]) \<and>
    s_conn srv' = (s_conn srv)(s_fresh srv \<mapsto> \<lparr>c_fd = fd, want_read = True, want_write = False, want_close = False,
      incoming = [], outgoing = [], last_active_ms = now\<rparr>) \<and> s_idle_timeout_ms srv' = s_idle_timeout_ms srv \<and>
    s_fresh srv' = Suc (s_fresh srv)"
proof -
  note D = server_invD [OF inv]
  have now': "get_monotonic_msec (d_clock (s_db srv)) = (now, k)" using D(5) now by simp
  from accept_new_ok [OF D(3) a srv_now_eq [OF now']] obtain srv' where
    srv': "accept_new srv (Accepted fd) = Some srv'" "conns_ok srv' (xs @ [s_fresh srv])"
    "s_conn srv' = (s_conn srv)(s_fresh srv \<mapsto> \<lparr>c_fd = fd, want_read = True, want_write = False, want_close = False,
      incoming = [], outgoing = [], last_active_ms = now\<rparr>)"
    "s_db srv' = (s_db srv)\<lparr>d_clock := k\<rparr>" "s_idle_timeout_ms srv' = s_idle_timeout_ms srv" "s_fresh srv' = Suc (s_fresh srv)" by auto
  have "s_fresh srv \<notin> set xs" using conns_okD(2,5) [OF D(3)] by blast
  then have r: "remove1 (s_fresh srv) xs = xs" by (simp add: remove1_idem)
  have "conns_good srv' (remove1 (s_fresh srv) xs @ [s_fresh srv])"
    using D(2,5) srv'(4) by (intro conns_good_put [OF D(4) conns_okD(7) [OF D(3)] srv'(3) _ _ now']) (simp_all add: conn_good_def partial_input_def)
  moreover have "serves n (s_db srv') (A, k)" using D(1) srv'(4) serves_clock by simp
  ultimately have "server_inv n srv' (A, k) (xs @ [s_fresh srv])"
    using srv'(2) D(2) clock_mono_le [of c k] clock_le_read [OF now] unfolding server_inv_def r by simp
  with srv'(1,3,5,6) show ?thesis by blast
qed

lemma accept_inv:
  assumes inv: "server_inv n srv s xs" and a: "accept_ok srv acc"
  shows "\<exists>srv' s' xs'. accept_new srv acc = Some srv' \<and> server_inv n srv' s' xs' \<and>
    (\<forall>s0 hs0 tr. history s0 hs0 srv s tr \<longrightarrow> history s0 hs0 srv' s' tr)"
proof (cases acc)
  case AcceptFail
  with inv show ?thesis by (auto simp: accept_new_def)
next
  case (AcceptFcntlFail fd)
  let ?srv = "srv\<lparr>s_closed := s_closed srv @ [fd]\<rparr>"
  have "server_inv n ?srv s xs"
    using inv by (simp add: server_inv_def conns_ok_def conns_good_def stamp_def [abs_def])
  moreover have "history s0 hs0 ?srv s tr" if "history s0 hs0 srv s tr" for s0 hs0 tr using history_sub [OF that] by simp
  ultimately show ?thesis using AcceptFcntlFail by (auto simp: accept_new_def)
next
  case (Accepted fd)
  obtain A c where s: "s = (A, c)" by fastforce
  obtain now k where now: "get_monotonic_msec c = (now, k)" by fastforce
  from accept_new_inv [OF inv [unfolded s] a [unfolded Accepted] now] obtain srv' where r: "accept_new srv (Accepted fd) = Some srv'"
    "server_inv n srv' (A, k) (xs @ [s_fresh srv])"
    "s_conn srv' = (s_conn srv)(s_fresh srv \<mapsto> \<lparr>c_fd = fd, want_read = True, want_write = False, want_close = False,
      incoming = [], outgoing = [], last_active_ms = now\<rparr>)" "s_fresh srv' = Suc (s_fresh srv)" by blast
  have "history s0 hs0 srv' (A, k) tr" if "history s0 hs0 srv s tr" for s0 hs0 tr
    using history_accept [OF history_tick [OF that [unfolded s] now] r(3) _ _ r(4)] by simp
  with r(1,2) Accepted show ?thesis by blast
qed

lemma serve_all_ok:
  assumes "server_inv n srv s xs" and "n + length evs * read_budget < 2 ^ 31" and "\<forall>ev \<in> set evs. event_ok ev"
  shows "\<exists>srv' s' xs'. serve_all srv fds evs = Some srv' \<and> server_inv (n + length evs * read_budget) srv' s' xs' \<and>
    (\<forall>s0 hs0 tr. history s0 hs0 srv s tr \<longrightarrow> history s0 hs0 srv' s' (serve_all_traffic srv fds evs tr))"
  using assms
proof (induction srv fds evs arbitrary: n s xs rule: serve_all.induct)
  case (1 srv fd fds ev evs)
  have b: "n + read_budget < 2 ^ 31" "event_ok ev" using 1(3,4) by simp_all
  from serve_conn_ok [OF 1(2) b] obtain srv1 s1 xs1 where st: "serve_conn srv fd ev = Some srv1"
    "server_inv (n + read_budget) srv1 s1 xs1" "\<forall>s0 hs0 tr. history s0 hs0 srv s tr \<longrightarrow> history s0 hs0 srv1 s1 (serve_traffic srv fd ev tr)" by blast
  have "n + read_budget + length evs * read_budget < 2 ^ 31" "\<forall>ev \<in> set evs. event_ok ev" using 1(3,4) by (simp_all add: ac_simps)
  from 1(1) [OF st(1) st(2) this] obtain srv' s' xs' where r: "serve_all srv1 fds evs = Some srv'"
    "server_inv (n + read_budget + length evs * read_budget) srv' s' xs'"
    "\<forall>s0 hs0 tr. history s0 hs0 srv1 s1 tr \<longrightarrow> history s0 hs0 srv' s' (serve_all_traffic srv1 fds evs tr)" by blast
  have "history s0 hs0 srv' s' (serve_all_traffic srv (fd # fds) (ev # evs) tr)" if "history s0 hs0 srv s tr" for s0 hs0 tr
    using st(1,3) r(3) that by simp
  moreover have "server_inv (n + length (ev # evs) * read_budget) srv' s' xs'" using r(2) by (simp add: ac_simps)
  ultimately show ?case using st(1) r(1) by (metis bind.bind_lunit serve_all.simps(1))
next
  case "2_1"
  then show ?case using server_inv_mono by (metis le_add1 serve_all.simps(2) serve_all_traffic.simps(2))
next
  case "2_2"
  then show ?case by fastforce
qed

subsection \<open>Idle connections\<close>

lemma idle_front_ok:
  assumes "conns_ok srv (p # xs)"
  shows "\<exists>c. s_conn srv p = Some c \<and> idle_front srv = Some c \<and> dlist_empty (s_links srv) (s_idle_list srv) = Some False"
proof -
  note D = conns_okD [OF assms]
  from D(2) obtain c where "s_conn srv p = Some c" by (metis domD list.set_intros(1))
  moreover have "nx (s_links srv) (s_idle_list srv) = Some p" using ring_first [OF D(1)] .
  ultimately show ?thesis using dlist_empty_ok [OF D(1)] by (auto simp: idle_front_def nx_def bind_eq_Some_conv)
qed

lemma server_inv_reset:
  assumes inv: "server_inv n srv s xs" and p: "s_conn srv p = Some c"
  shows "\<exists>srv'. conn_reset srv (c_fd c) = Some srv' \<and> server_inv n srv' s (remove1 p xs) \<and> s_conn srv' = (s_conn srv)(p := None) \<and>
    s_db srv' = s_db srv \<and> s_idle_timeout_ms srv' = s_idle_timeout_ms srv \<and> s_closed srv' = s_closed srv @ [c_fd c] \<and>
    s_fresh srv' = s_fresh srv"
proof -
  note D = server_invD [OF inv]
  from conn_reset_ok [OF D(3) p] obtain srv' where r: "conn_reset srv (c_fd c) = Some srv'" "conns_ok srv' (remove1 p xs)"
    "s_conn srv' = (s_conn srv)(p := None)" "s_db srv' = s_db srv" "s_idle_timeout_ms srv' = s_idle_timeout_ms srv"
    "s_closed srv' = s_closed srv @ [c_fd c]" "s_fresh srv' = s_fresh srv" by fastforce
  have "conns_good srv' (remove1 p xs)"
    using r(4) by (intro conns_good_remove [OF D(4) conns_okD(7) [OF D(3)] r(3)]) simp
  with r D(1,2) show ?thesis by (auto simp: server_inv_def)
qed

lemma reap_idle_ok:
  assumes "server_inv n srv s xs"
  shows "\<exists>srv' ys zs. reap_idle srv now = Some srv' \<and> xs = ys @ zs \<and> server_inv n srv' s zs \<and>
    s_conn srv' = s_conn srv |` set zs \<and> s_db srv' = s_db srv \<and> s_idle_timeout_ms srv' = s_idle_timeout_ms srv \<and>
    s_fresh srv' = s_fresh srv \<and>
    s_closed srv' = s_closed srv @ map (\<lambda>p. c_fd (the (s_conn srv p))) ys \<and>
    (\<forall>p \<in> set ys. stamp srv p + s_idle_timeout_ms srv \<le> now) \<and>
    (zs \<noteq> [] \<longrightarrow> now < stamp srv (hd zs) + s_idle_timeout_ms srv)"
  using assms
proof (induction xs arbitrary: srv)
  case Nil
  note C = conns_okD [OF server_invD(3) [OF Nil]]
  have "reap_idle srv now = Some srv" by (subst reap_idle.simps) (simp add: dlist_empty_ok [OF C(1)])
  moreover have "s_conn srv = Map.empty" using C(2) by auto
  ultimately show ?case using Nil by simp
next
  case (Cons p xs)
  note C = conns_okD [OF server_invD(3) [OF Cons.prems]]
  from idle_front_ok [OF server_invD(3) [OF Cons.prems]] obtain c where c: "s_conn srv p = Some c" "idle_front srv = Some c"
    "dlist_empty (s_links srv) (s_idle_list srv) = Some False" by blast
  have st: "stamp srv p = last_active_ms c" using c(1) by (simp add: stamp_def)
  show ?case
  proof (cases "now < last_active_ms c + s_idle_timeout_ms srv")
    case True
    then have "reap_idle srv now = Some srv" by (subst reap_idle.simps) (simp add: c)
    moreover have "s_conn srv |` set (p # xs) = s_conn srv" unfolding C(2) by (simp add: restrict_map_def fun_eq_iff domIff) 
    ultimately show ?thesis using Cons.prems True st
      by (intro exI [of _ srv] exI [of _ "[]"] exI [of _ "p # xs"]) simp
  next
    case False
    from server_inv_reset [OF Cons.prems c(1)] obtain srv1 where r: "conn_reset srv (c_fd c) = Some srv1"
      "server_inv n srv1 s xs" "s_conn srv1 = (s_conn srv)(p := None)" "s_db srv1 = s_db srv"
      "s_idle_timeout_ms srv1 = s_idle_timeout_ms srv" "s_closed srv1 = s_closed srv @ [c_fd c]" "s_fresh srv1 = s_fresh srv" by auto
    from Cons.IH [OF r(2)] obtain srv' ys zs where IH: "reap_idle srv1 now = Some srv'" "xs = ys @ zs" "server_inv n srv' s zs"
      "s_conn srv' = s_conn srv1 |` set zs" "s_db srv' = s_db srv1" "s_idle_timeout_ms srv' = s_idle_timeout_ms srv1" "s_fresh srv' = s_fresh srv1"
      "s_closed srv' = s_closed srv1 @ map (\<lambda>p. c_fd (the (s_conn srv1 p))) ys"
      "\<forall>p \<in> set ys. stamp srv1 p + s_idle_timeout_ms srv1 \<le> now"
      "zs \<noteq> [] \<longrightarrow> now < stamp srv1 (hd zs) + s_idle_timeout_ms srv1" by blast
    have np: "p \<notin> set xs" using C(7) by simp
    then have same: "s_conn srv1 q = s_conn srv q" if "q \<in> set xs" for q using r(3) that by auto
    have "reap_idle srv now = Some srv'" by (subst reap_idle.simps) (use c r(1) IH(1) False in simp)
    moreover have "s_conn srv' = s_conn srv |` set zs"
      using IH(2,4) same by (auto simp: restrict_map_def fun_eq_iff)
    moreover have "map (\<lambda>p. c_fd (the (s_conn srv1 p))) ys = map (\<lambda>p. c_fd (the (s_conn srv p))) ys"
      using IH(2) same by auto
    moreover have "stamp srv1 q = stamp srv q" if "q \<in> set xs" for q using same [OF that] by (simp add: stamp_def)
    ultimately show ?thesis using IH r c(1) False st
      by (intro exI [of _ srv'] exI [of _ "p # ys"] exI [of _ zs]) (auto simp: not_less)
  qed
qed

subsection \<open>Expired keys\<close>

lemma deadline_timer:
  assumes "db_view db A" and "A k = Some (v, Some d)"
  shows "\<exists>p. lkeys db p = Some k \<and> timers (d_ttl db) p = Some d"
proof -
  have "k \<in> ran (lkeys db)" using assms db_abs_None by (metis option.distinct(1))
  then obtain p where p: "lkeys db p = Some k" by (auto simp: ran_def)
  from db_absD [OF assms(1) p] assms(2) p show ?thesis by auto
qed

lemma expire_first_ok:
  assumes s: "serves n db (A, c)" and t: "d_ttl db = item # rest"
  shows "\<exists>k v db'. A k = Some (v, Some (hi_val item)) \<and> expire_first db (hi_ref item) = Some db' \<and> serves n db' (A(k := None), c)"
proof -
  from s have w: "db_view db A" and i: "db_inv db" by (simp_all add: serves_def db_view_def)
  have "ttl_top (d_ttl db, d_idx db) = Some (hi_ref item, hi_val item)" using t by (simp add: ttl_top_def)
  with ttl_top_ok [OF db_invD(4) [OF i]] have tm: "timers (d_ttl db) (hi_ref item) = Some (hi_val item)" by simp
  then obtain k where k: "lkeys db (hi_ref item) = Some k" using db_invD(5) [OF i] by blast
  from db_absD [OF w k] obtain e v where e: "d_entries db (hi_ref item) = Some e" "e_key e = k"
    "A k = Some (v, timers (d_ttl db) (hi_ref item))" by blast
  have h: "e_hcode e = str_hash k" using entries_okD(1) [OF i e(1)] e(2) by simp
  have "compares (lkeys db) k (hnode_same (hi_ref item))" using same_compares [OF i k] by (simp add: hnode_same_def [abs_def])
  from entry_remove_ok [OF w k this] obtain m db' where r: "hm_delete (d_map db) (str_hash k) (hnode_same (hi_ref item)) = Some (m, Some (hi_ref item))"
    "entry_del (db\<lparr>d_map := m\<rparr>) (hi_ref item) = Some db'" "db_view db' (A(k := None))" "d_clock db' = d_clock db"
    "dom (d_entries db') \<subseteq> dom (d_entries db)" by blast
  have "serves n db' (A(k := None), c)"
    using s r(3,4) card_entries_mono [OF i r(5)] small_upd(1) by (simp add: serves_def)
  moreover have "expire_first db (hi_ref item) = Some db'" using e(1) h r(1,2) by (simp add: expire_first_def)
  ultimately show ?thesis using e(3) tm by auto
qed

lemma reap_keys_ok:
  assumes "serves n db (A, c)"
  shows "\<exists>db' K. reap_keys w db now = Some db' \<and> serves n db' (A |` (- K), c) \<and> finite K \<and> card K \<le> w \<and>
    (\<forall>k \<in> K. \<exists>v d. A k = Some (v, Some d) \<and> d \<le> now) \<and>
    (card K = w \<or> (\<forall>k v d. k \<notin> K \<longrightarrow> A k = Some (v, Some d) \<longrightarrow> now < d))"
  using assms
proof (induction w arbitrary: db A)
  case 0
  then show ?case
    by (intro exI [of _ db] exI [of _ "{}"]) (simp add: reap_keys.simps split: list.split)
next
  case (Suc w)
  from Suc.prems have v: "db_view db A" and i: "db_inv db" by (simp_all add: serves_def db_view_def)
  note top = ttl_top_ok [OF db_invD(4) [OF i]]
  show ?case
  proof (cases "\<exists>item rest. d_ttl db = item # rest \<and> hi_val item \<le> now")
    case False
    have none: "now < d" if "A k = Some (u, Some d)" for k u d
    proof -
      from deadline_timer [OF v that] obtain p where "timers (d_ttl db) p = Some d" by blast
      with top False show ?thesis by (cases "d_ttl db") (fastforce simp: ttl_top_def)+
    qed
    have "reap_keys (Suc w) db now = Some db" using False by (auto simp: reap_keys.simps split: list.split)
    with Suc.prems none show ?thesis by (intro exI [of _ db] exI [of _ "{}"]) auto
  next
    case True
    then obtain item rest where t: "d_ttl db = item # rest" "hi_val item \<le> now" by blast
    from expire_first_ok [OF Suc.prems t(1)] obtain k u db1 where k: "A k = Some (u, Some (hi_val item))"
      "expire_first db (hi_ref item) = Some db1" "serves n db1 (A(k := None), c)" by blast
    from Suc.IH [OF k(3)] obtain db' K where IH: "reap_keys w db1 now = Some db'" "serves n db' ((A(k := None)) |` (- K), c)" "finite K" "card K \<le> w"
      "\<forall>x \<in> K. \<exists>v d. (A(k := None)) x = Some (v, Some d) \<and> d \<le> now"
      "card K = w \<or> (\<forall>x v d. x \<notin> K \<longrightarrow> (A(k := None)) x = Some (v, Some d) \<longrightarrow> now < d)" by blast
    have "k \<notin> K" using IH(5) by auto
    then have "card (insert k K) = Suc (card K)" using IH(3) by simp
    moreover have "(A(k := None)) |` (- K) = A |` (- insert k K)" by (auto simp: restrict_map_def fun_eq_iff)
    moreover have "reap_keys (Suc w) db now = Some db'" using t k(2) IH(1) by (subst reap_keys.simps) simp
    moreover have "\<forall>x \<in> insert k K. \<exists>v d. A x = Some (v, Some d) \<and> d \<le> now" using IH(5) k(1) t(2) by (auto split: if_splits)
    ultimately show ?thesis using IH(2-4,6) by (intro exI [of _ db'] exI [of _ "insert k K"]) auto
  qed
qed

subsection \<open>The poll timeout\<close>

text \<open>All deadlines: of the connections, and of the keys.\<close>

definition deadlines :: "server \<Rightarrow> keyspace \<Rightarrow> u64 set" where
  "deadlines srv A = {stamp srv p + s_idle_timeout_ms srv | p. p \<in> dom (s_conn srv)} \<union> {d. \<exists>k v. A k = Some (v, Some d)}"

text \<open>No connection's deadline exceeds the range of \<open>uint64_t\<close>.\<close>

definition no_wrap :: "server \<Rightarrow> bool" where
  "no_wrap srv \<longleftrightarrow> (\<forall>p \<in> dom (s_conn srv). uint (stamp srv p) + uint (s_idle_timeout_ms srv) < 2 ^ 64)"

lemma plus_mono_no_wrap:
  fixes a b t :: u64
  assumes "a \<le> b" and "uint b + uint t < 2 ^ 64"
  shows "a + t \<le> b + t"
proof -
  have "uint a \<le> uint b" using assms(1) by (simp add: word_le_def)
  then have "uint (a + t) = uint a + uint t" "uint (b + t) = uint b + uint t"
    using assms(2) by (auto simp: uint_plus_if')
  with \<open>uint a \<le> uint b\<close> show ?thesis by (simp add: word_le_def)
qed

lemma idle_least:
  assumes g: "conns_good srv (p # xs)" and nw: "no_wrap srv" and s: "set (p # xs) = dom (s_conn srv)" and q: "q \<in> set (p # xs)"
  shows "stamp srv p + s_idle_timeout_ms srv \<le> stamp srv q + s_idle_timeout_ms srv"
proof (rule plus_mono_no_wrap)
  show "stamp srv p \<le> stamp srv q" using g q by (auto simp: conns_good_def)
  show "uint (stamp srv q) + uint (s_idle_timeout_ms srv) < 2 ^ 64" using nw s q by (auto simp: no_wrap_def)
qed

text \<open>The deadline the code computes: the smaller of the two candidates.\<close>

definition next_deadline :: "server \<Rightarrow> addr list \<Rightarrow> u64" where
  "next_deadline srv xs =
     (let d = (case xs of [] \<Rightarrow> - 1 | p # _ \<Rightarrow> stamp srv p + s_idle_timeout_ms srv)
      in case d_ttl (s_db srv) of [] \<Rightarrow> d | item # _ \<Rightarrow> min (hi_val item) d)"

lemma next_timer_eq:
  assumes inv: "server_inv n srv s xs" and now: "get_monotonic_msec (snd s) = (now, k)"
  shows "next_timer_ms srv =
    (let d = next_deadline srv xs; srv' = srv\<lparr>s_db := (s_db srv)\<lparr>d_clock := k\<rparr>\<rparr>
     in Some (if d = - 1 then (- 1, srv) else if d \<le> now then (0, srv') else (sint (ucast (d - now) :: 32 word), srv')))"
proof -
  note D = server_invD [OF inv] and C = conns_okD [OF server_invD(3) [OF inv]]
  have now': "srv_now srv = (now, srv\<lparr>s_db := (s_db srv)\<lparr>d_clock := k\<rparr>\<rparr>)"
    using now D(5) by (intro srv_now_eq) simp
  have mn: "(case d_ttl (s_db srv) of [] \<Rightarrow> d | item # _ \<Rightarrow> if hi_val item < d then hi_val item else d) =
    (case d_ttl (s_db srv) of [] \<Rightarrow> d | item # _ \<Rightarrow> min (hi_val item) d)" for d
    by (cases "d_ttl (s_db srv)") (auto simp: min_def)
  have "\<exists>e. dlist_empty (s_links srv) (s_idle_list srv) = Some e \<and>
    (if \<not> e then do { conn \<leftarrow> idle_front srv; Some (last_active_ms conn + s_idle_timeout_ms srv) } else Some (- 1)) =
      Some (case xs of [] \<Rightarrow> - 1 | p # _ \<Rightarrow> stamp srv p + s_idle_timeout_ms srv)"
  proof (cases xs)
    case Nil
    then show ?thesis using dlist_empty_ok [OF C(1)] by (intro exI [of _ True]) simp
  next
    case (Cons p ys)
    with idle_front_ok [of srv p ys] D(3) obtain c where "s_conn srv p = Some c" "idle_front srv = Some c"
      "dlist_empty (s_links srv) (s_idle_list srv) = Some False" by blast
    with Cons show ?thesis by (intro exI [of _ False]) (simp add: stamp_def)
  qed
  then obtain e where e: "dlist_empty (s_links srv) (s_idle_list srv) = Some e"
    "(if \<not> e then do { conn \<leftarrow> idle_front srv; Some (last_active_ms conn + s_idle_timeout_ms srv) } else Some (- 1)) =
      Some (case xs of [] \<Rightarrow> - 1 | p # _ \<Rightarrow> stamp srv p + s_idle_timeout_ms srv)" by blast
  have "next_timer_ms srv = (let next_ms = next_deadline srv xs in
      if next_ms = - 1 then Some (- 1, srv)
      else case srv_now srv of (now_ms, srv) \<Rightarrow>
        if next_ms \<le> now_ms then Some (0, srv) else Some (sint (ucast (next_ms - now_ms) :: 32 word), srv))"
    unfolding next_timer_ms_def e(1) bind.bind_lunit e(2) Let_def mn next_deadline_def ..
  then show ?thesis unfolding now' Let_def case_prod_conv by (simp only: if_distrib [of Some])
qed

lemma next_deadline_nearest:
  assumes inv: "server_inv n srv (A, c) xs" and nw: "no_wrap srv"
  shows "\<forall>d \<in> deadlines srv A. next_deadline srv xs \<le> d"
    and "next_deadline srv xs \<noteq> - 1 \<Longrightarrow> next_deadline srv xs \<in> deadlines srv A"
proof -
  note D = server_invD [OF inv] and C = conns_okD [OF server_invD(3) [OF inv]]
  have v: "db_view (s_db srv) A" and i: "db_inv (s_db srv)" using D(1) by (auto simp: serves_def db_view_def)
  note top = ttl_top_ok [OF db_invD(4) [OF i]]
  have keys: "next_deadline srv xs \<le> d" if "A key = Some (w, Some d)" for key w d
  proof -
    from deadline_timer [OF v that] obtain p where p: "timers (d_ttl (s_db srv)) p = Some d" by blast
    with top show ?thesis
      by (cases "d_ttl (s_db srv)") (fastforce simp: ttl_top_def next_deadline_def Let_def min.coboundedI1)+
  qed
  have conns: "next_deadline srv xs \<le> stamp srv q + s_idle_timeout_ms srv" if "q \<in> dom (s_conn srv)" for q
  proof -
    from that C(2) obtain p ys where xs: "xs = p # ys" by (cases xs) auto
    then have "stamp srv p + s_idle_timeout_ms srv \<le> stamp srv q + s_idle_timeout_ms srv"
      using D(4) nw C(2) that by (intro idle_least [of srv p ys]) auto
    then show ?thesis
      by (cases "d_ttl (s_db srv)") (auto simp: next_deadline_def xs Let_def min.coboundedI2)
  qed
  show "\<forall>d \<in> deadlines srv A. next_deadline srv xs \<le> d" using keys conns unfolding deadlines_def by blast
  assume n1: "next_deadline srv xs \<noteq> - 1"
  show "next_deadline srv xs \<in> deadlines srv A"
  proof (cases "\<exists>item rest. d_ttl (s_db srv) = item # rest \<and> next_deadline srv xs = hi_val item")
    case True
    then obtain item rest where t: "d_ttl (s_db srv) = item # rest" "next_deadline srv xs = hi_val item" by blast
    from expire_first_ok [OF D(1) t(1)] show ?thesis using t(2) by (auto simp: deadlines_def)
  next
    case False
    with n1 obtain p ys where xs: "xs = p # ys" "next_deadline srv xs = stamp srv p + s_idle_timeout_ms srv"
      by (cases xs; cases "d_ttl (s_db srv)") (auto simp: next_deadline_def Let_def min_def split: if_splits)
    moreover have "p \<in> dom (s_conn srv)" using C(2) xs(1) by auto
    ultimately show ?thesis by (auto simp: deadlines_def)
  qed
qed

lemma sint_ucast_small:
  fixes x :: u64
  assumes "uint x < 2 ^ 31"
  shows "sint (ucast x :: 32 word) = uint x"
proof -
  have "uint (ucast x :: 32 word) = uint x" using assms by (simp add: unsigned_ucast_eq take_bit_int_eq_self)
  moreover have "signed_take_bit 31 (uint x) = uint x"
    using assms uint_ge_0 [of x] by (intro signed_take_bit_int_eq_self) linarith+
  ultimately show ?thesis by (simp add: sint_uint)
qed

subsection \<open>One iteration\<close>

lemma srv_now_inv:
  assumes "server_inv n srv (A, c) xs" and "get_monotonic_msec c = (now, k)"
  shows "server_inv n (srv\<lparr>s_db := (s_db srv)\<lparr>d_clock := k\<rparr>\<rparr>) (A, k) xs"
proof -
  note D = server_invD [OF assms(1)]
  let ?srv = "srv\<lparr>s_db := (s_db srv)\<lparr>d_clock := k\<rparr>\<rparr>"
  have "conns_good ?srv xs"
    using D(4,5) clock_le_read [OF assms(2)] by (auto simp: conns_good_def stamp_def [abs_def] clock_le_def)
  moreover have "conns_ok ?srv xs" using D(3) by (simp add: conns_ok_def)
  moreover have "clock_mono k" using clock_mono_le D(2) clock_le_read [OF assms(2)] by simp
  ultimately show ?thesis using D(1) serves_clock by (simp add: server_inv_def)
qed

lemma next_timer_inv:
  assumes "server_inv n srv s xs"
  shows "\<exists>t srv' s'. next_timer_ms srv = Some (t, srv') \<and> server_inv n srv' s' xs \<and> s_conn srv' = s_conn srv \<and>
    (\<forall>s0 hs0 tr. history s0 hs0 srv s tr \<longrightarrow> history s0 hs0 srv' s' tr)"
proof -
  obtain A c where s: "s = (A, c)" by fastforce
  obtain now k where now: "get_monotonic_msec c = (now, k)" by fastforce
  note inv' = srv_now_inv [OF assms [unfolded s] now]
  from next_timer_eq [OF assms, of now k] now s have eq: "next_timer_ms srv =
    (let d = next_deadline srv xs; srv' = srv\<lparr>s_db := (s_db srv)\<lparr>d_clock := k\<rparr>\<rparr>
     in Some (if d = - 1 then (- 1, srv) else if d \<le> now then (0, srv') else (sint (ucast (d - now) :: 32 word), srv')))" by simp
  show ?thesis
  proof (cases "next_deadline srv xs = - 1")
    case True
    with eq assms show ?thesis by (auto simp: Let_def)
  next
    case False
    let ?srv = "srv\<lparr>s_db := (s_db srv)\<lparr>d_clock := k\<rparr>\<rparr>"
    have "\<exists>t. next_timer_ms srv = Some (t, ?srv)" using eq False by (simp add: Let_def)
    moreover have "s_conn ?srv = s_conn srv" by simp
    moreover have "history s0 hs0 ?srv (A, k) tr" if "history s0 hs0 srv s tr" for s0 hs0 tr
      using history_sub [OF history_tick [OF that [unfolded s] now]] by simp
    ultimately show ?thesis using inv' by blast
  qed
qed

lemma poll_set_ok:
  assumes "\<And>p. Some p \<in> set ps \<Longrightarrow> p \<in> dom (s_conn srv)"
  shows "\<exists>args. poll_set srv ps = Some args"
  using assms
proof (induction ps)
  case (Cons a ps)
  then obtain args where "poll_set srv ps = Some args" by auto
  then show ?case using Cons.prems by (cases a) fastforce+
qed simp

lemma conns_dom: "conns_ok srv xs \<Longrightarrow> Some p \<in> set (s_conns srv) \<Longrightarrow> p \<in> dom (s_conn srv)"
  using conns_okD(6) [of srv xs _ p] by (auto simp: in_set_conv_nth vec_at_eq_Some_iff)

lemma process_timers_ok:
  assumes inv: "server_inv n srv (A, c) xs" and now: "get_monotonic_msec c = (now, k)"
  shows "\<exists>srv' K ys zs. process_timers srv = Some srv' \<and> server_inv n srv' (A |` (- K), k) zs \<and> xs = ys @ zs \<and>
    s_conn srv' = s_conn srv |` set zs \<and> s_fresh srv' = s_fresh srv \<and>
    s_closed srv' = s_closed srv @ map (\<lambda>p. c_fd (the (s_conn srv p))) ys \<and>
    (\<forall>p \<in> set ys. stamp srv p + s_idle_timeout_ms srv \<le> now) \<and>
    (zs \<noteq> [] \<longrightarrow> now < stamp srv (hd zs) + s_idle_timeout_ms srv) \<and>
    finite K \<and> card K \<le> k_max_works \<and> (\<forall>key \<in> K. \<exists>v d. A key = Some (v, Some d) \<and> d \<le> now) \<and>
    (card K = k_max_works \<or> (\<forall>key v d. key \<notin> K \<longrightarrow> A key = Some (v, Some d) \<longrightarrow> now < d))"
proof -
  have nw: "srv_now srv = (now, srv\<lparr>s_db := (s_db srv)\<lparr>d_clock := k\<rparr>\<rparr>)"
    using now server_invD(5) [OF inv] by (intro srv_now_eq) simp
  let ?srv = "srv\<lparr>s_db := (s_db srv)\<lparr>d_clock := k\<rparr>\<rparr>"
  have st: "stamp ?srv = stamp srv" by (simp add: stamp_def [abs_def])
  from reap_idle_ok [OF srv_now_inv [OF inv now], of now] obtain srv1 ys zs where r:
    "reap_idle ?srv now = Some srv1" "xs = ys @ zs" "server_inv n srv1 (A, k) zs" "s_conn srv1 = s_conn srv |` set zs"
    "s_db srv1 = (s_db srv)\<lparr>d_clock := k\<rparr>" "s_closed srv1 = s_closed srv @ map (\<lambda>p. c_fd (the (s_conn srv p))) ys"
    "\<forall>p \<in> set ys. stamp srv p + s_idle_timeout_ms srv \<le> now"
    "zs \<noteq> [] \<longrightarrow> now < stamp srv (hd zs) + s_idle_timeout_ms srv" "s_fresh srv1 = s_fresh srv"
    unfolding st by auto
  note D = server_invD [OF r(3)]
  from reap_keys_ok [OF D(1), of k_max_works now] obtain db' K where d:
    "reap_keys k_max_works (s_db srv1) now = Some db'" "serves n db' (A |` (- K), k)" "finite K" "card K \<le> k_max_works"
    "\<forall>key \<in> K. \<exists>v d. A key = Some (v, Some d) \<and> d \<le> now"
    "card K = k_max_works \<or> (\<forall>key v d. key \<notin> K \<longrightarrow> A key = Some (v, Some d) \<longrightarrow> now < d)" by blast
  have "d_clock db' = d_clock (s_db srv1)" using d(2) D(5) by (simp add: serves_def)
  then have "server_inv n (srv1\<lparr>s_db := db'\<rparr>) (A |` (- K), k) zs"
    using r(3) d(2) by (simp add: server_inv_def conns_ok_def conns_good_def stamp_def [abs_def])
  moreover have "process_timers srv = Some (srv1\<lparr>s_db := db'\<rparr>)"
    using nw r(1) d(1) by (simp add: process_timers_def)
  ultimately show ?thesis using r d(3-6) by (intro exI [of _ "srv1\<lparr>s_db := db'\<rparr>"] exI [of _ K] exI [of _ ys] exI [of _ zs]) auto
qed

text \<open>The number of requests that the results of one \<open>poll\<close> can lead to is bounded.\<close>

definition poll_cost :: "sys_poll \<Rightarrow> nat" where
  "poll_cost res = (case res of PollReady _ evs \<Rightarrow> length evs * read_budget | _ \<Rightarrow> 0)"

definition poll_ok :: "sys_poll \<Rightarrow> bool" where
  "poll_ok res \<longleftrightarrow> (case res of PollIntr \<Rightarrow> True | PollFail \<Rightarrow> False | PollReady _ evs \<Rightarrow> \<forall>ev \<in> set evs. event_ok ev)"

lemma process_timers_history:
  assumes inv: "server_inv n srv s xs"
  shows "\<exists>srv' s' xs'. process_timers srv = Some srv' \<and> server_inv n srv' s' xs' \<and>
    (\<forall>s0 hs0 tr. history s0 hs0 srv s tr \<longrightarrow> history s0 hs0 srv' s' tr)"
proof -
  obtain A c where s: "s = (A, c)" by fastforce
  obtain now k where now: "get_monotonic_msec c = (now, k)" by fastforce
  from process_timers_ok [OF inv [unfolded s] now] obtain srv' K zs where p: "process_timers srv = Some srv'"
    "server_inv n srv' (A |` (- K), k) zs" "s_conn srv' = s_conn srv |` set zs" "s_fresh srv' = s_fresh srv"
    "\<forall>key \<in> K. \<exists>v d. A key = Some (v, Some d) \<and> d \<le> now" by blast
  have sub: "s_conn srv' \<subseteq>\<^sub>m s_conn srv" "s_fresh srv \<le> s_fresh srv'"
    using p(3,4) by (auto simp: map_le_def restrict_map_def split: if_splits)
  have "history s0 hs0 srv' (A |` (- K), k) tr" if "history s0 hs0 srv s tr" for s0 hs0 tr
    using history_sub [OF history_reap [OF that [unfolded s] now p(5)] sub] .
  with p(1,2) show ?thesis by blast
qed

lemma run_iteration_ok:
  assumes inv: "server_inv n srv s xs" and n: "n + poll_cost res < 2 ^ 31" and ok: "poll_ok res" "accept_ok srv acc"
  shows "\<exists>srv' s' xs'. run_iteration srv res acc = Some srv' \<and> server_inv (n + poll_cost res) srv' s' xs' \<and>
    (\<forall>s0 hs0 tr. history s0 hs0 srv s tr \<longrightarrow> history s0 hs0 srv' s' (iteration_traffic srv res acc tr))"
proof -
  from poll_set_ok [of "s_conns srv" srv] conns_dom [OF server_invD(3) [OF inv]] obtain args where
    a: "poll_set srv (s_conns srv) = Some args" by blast
  from next_timer_inv [OF inv] obtain t srv1 s1 where t: "next_timer_ms srv = Some (t, srv1)" "server_inv n srv1 s1 xs"
    "s_conn srv1 = s_conn srv" "\<forall>s0 hs0 tr. history s0 hs0 srv s tr \<longrightarrow> history s0 hs0 srv1 s1 tr" by blast
  show ?thesis
  proof (cases res)
    case (PollReady listener evs)
    have "accept_ok srv1 acc" using ok(2) t(3) by (simp add: accept_ok_def)
    from accept_inv [OF t(2) this] obtain srv2 s2 xs2 where c: "(if listener then accept_new srv1 acc else Some srv1) = Some srv2"
      "server_inv n srv2 s2 xs2" "\<forall>s0 hs0 tr. history s0 hs0 srv1 s1 tr \<longrightarrow> history s0 hs0 srv2 s2 tr" using t(2) by (cases listener) auto
    have b: "n + length evs * read_budget < 2 ^ 31" "\<forall>ev \<in> set evs. event_ok ev"
      using n ok(1) PollReady by (simp_all add: poll_cost_def poll_ok_def)
    from serve_all_ok [OF c(2) b, of "map fst args"] obtain srv3 s3 xs3 where e: "serve_all srv2 (map fst args) evs = Some srv3"
      "server_inv (n + length evs * read_budget) srv3 s3 xs3"
      "\<forall>s0 hs0 tr. history s0 hs0 srv2 s2 tr \<longrightarrow> history s0 hs0 srv3 s3 (serve_all_traffic srv2 (map fst args) evs tr)" by blast
    from process_timers_history [OF e(2)] obtain srv' s' xs' where p: "process_timers srv3 = Some srv'"
      "server_inv (n + length evs * read_budget) srv' s' xs'" "\<forall>s0 hs0 tr. history s0 hs0 srv3 s3 tr \<longrightarrow> history s0 hs0 srv' s' tr" by blast
    have "run_iteration srv res acc = Some srv'" using a t(1) c(1) e(1) p(1) PollReady by (simp add: run_iteration_def)
    moreover have "iteration_traffic srv res acc tr = serve_all_traffic srv2 (map fst args) evs tr" for tr
      using a t(1) c(1) PollReady by (simp add: iteration_traffic_def)
    moreover have "server_inv (n + poll_cost res) srv' s' xs'" using p(2) PollReady by (simp add: poll_cost_def)
    ultimately show ?thesis using t(4) c(3) e(3) p(3) by metis
  qed (use a t ok(1) in \<open>auto simp: run_iteration_def poll_cost_def poll_ok_def iteration_traffic_def\<close>)
qed

end
