(* ===== verification/Server_Run.thy ===== *)
theory Server_Run
  imports Server_Refine "HOL-Library.Code_Target_Nat"
begin

text \<open>
  Whole executions of the server: the event loop's iterations interleaved with the worker threads,
  and the properties of the server.
\<close>

declare split_paired_Ex [simp del] split_paired_All [simp del]

subsection \<open>Executions\<close>

text \<open>Counts are 32-bit words in the tree nodes: \<open>has_room m\<close> says that \<open>m\<close> more entries, and \<open>m\<close> more pairs in any
  sorted set of the key space, still can be counted.\<close>

definition has_room :: "nat \<Rightarrow> db \<Rightarrow> bool" where
  "has_room m db \<longleftrightarrow> card (dom (d_entries db)) + m < 2 ^ 31 \<and>
     (\<forall>p e. d_entries db p = Some e \<longrightarrow> p \<notin> set (queued db) \<longrightarrow> e_type e = T_ZSET \<longrightarrow> hm_size (z_hmap (e_zset e)) + m < 2 ^ 31)"

text \<open>Steps of the server; \<open>tr\<close> is all bytes that went over its connections. Between two iterations of the event
  loop a worker may execute any queued task; a task only touches an entry that is out of the reach of the event
  loop. An iteration starts with room for what the bytes it may process can add.\<close>

inductive server_steps :: "server \<times> traffic \<Rightarrow> server \<times> traffic \<Rightarrow> bool" for st where
  none: "server_steps st st"
| iterate: "server_steps st (srv, tr) \<Longrightarrow> poll_ok res \<Longrightarrow> accept_ok srv acc \<Longrightarrow> has_room (poll_cost res) (s_db srv) \<Longrightarrow>
    run_iteration srv res acc = Some srv' \<Longrightarrow> server_steps st (srv', iteration_traffic srv res acc tr)"
| worker: "server_steps st (srv, tr) \<Longrightarrow> worker_step (s_db srv) p = Some db \<Longrightarrow> server_steps st (srv\<lparr>s_db := db\<rparr>, tr)"

text \<open>The states of the server after it has been started on the monotonic clock \<open>clk\<close>.\<close>

definition server_run :: "clock \<Rightarrow> server \<Rightarrow> traffic \<Rightarrow> bool" where
  "server_run clk srv tr \<longleftrightarrow> clock_mono clk \<and>
     (\<exists>idle_timeout_ms srv0. server_init idle_timeout_ms clk = Some srv0 \<and>
       server_steps (srv0, (\<lambda>_. [], \<lambda>_. [])) (srv, tr))"

text \<open>Room is exactly what the bound of \<open>serves\<close> stands for.\<close>

lemma zset_view_size: "zset_view zs L \<Longrightarrow> hm_size (z_hmap zs) = length L"
proof -
  assume "zset_view zs L"
  then obtain t where t: "zset_ok zs t" "L = map (zpair_of zs) (inorder t)" by (auto simp: zset_view_def)
  then have "zset_rep zs (inorder t)" by (auto simp: zset_rep_def)
  from zset_rep_facts(1,2) [OF this] have "length L = card (dom (z_nodes zs))" using t(2) by (metis distinct_card length_map)
  moreover have "size (hm_mset (z_hmap zs)) = card (dom (znames zs))" using t(1) keyed_by_size unfolding zset_ok_def by blast
  moreover have "dom (znames zs) = dom (z_nodes zs)" by (auto simp: znames_def)
  moreover have "hm_size (z_hmap zs) = size (hm_mset (z_hmap zs))"
    using t(1) hm_size_ok by (simp add: zset_ok_def hm_inv_def hm_mset_def)
  ultimately show ?thesis by simp
qed

lemma serves_has_room: "serves n db s \<Longrightarrow> n + m < 2 ^ 31 \<Longrightarrow> has_room m db"
  unfolding has_room_def
proof (intro conjI allI impI)
  fix p e
  assume s: "serves n db s" "n + m < 2 ^ 31" and e: "d_entries db p = Some e" "p \<notin> set (queued db)" "e_type e = T_ZSET"
  have "db_abs db (fst s)" and small: "small n (fst s)" using s(1) by (simp_all add: serves_def db_view_def)
  then obtain v where v: "fst s (e_key e) = Some (v, timers (d_ttl db) p)" "val_of e v" using e(1,2) unfolding db_abs_def by blast
  then obtain L where "v = VZset L" "zset_view (e_zset e) L" using e(3) by (auto simp: val_of_def)
  with v(1) small zset_view_size show "hm_size (z_hmap (e_zset e)) + m < 2 ^ 31" using s(2) by (fastforce simp: small_def)
qed (simp add: serves_def)

lemma has_room_serves:
  assumes s: "serves n db s" and r: "has_room m db"
  shows "serves (2 ^ 31 - 1 - m) db s"
proof -
  have v: "db_view db (fst s)" "d_clock db = snd s" using s by (simp_all add: serves_def)
  have "length L \<le> 2 ^ 31 - 1 - m" if L: "fst s k = Some (VZset L, d)" for k L d
  proof -
    have "k \<in> ran (lkeys db)" using L v(1) unfolding db_view_def db_abs_def by blast
    then obtain p where "lkeys db p = Some k" by (auto simp: ran_def)
    then obtain e where e: "d_entries db p = Some e" "e_key e = k" "p \<notin> set (queued db)" by (auto simp: lkeys_Some)
    from v(1) e(1,3) obtain v' where "fst s k = Some (v', timers (d_ttl db) p)" "val_of e v'"
      unfolding db_view_def db_abs_def e(2) [symmetric] by blast
    with L have "val_of e (VZset L)" by simp
    then have "e_type e = T_ZSET" and z: "zset_view (e_zset e) L" by (auto simp: val_of_def split: etype.splits)
    with r e(1,3) have "hm_size (z_hmap (e_zset e)) + m < 2 ^ 31" unfolding has_room_def by blast
    with zset_view_size [OF z] show ?thesis by simp
  qed
  moreover have "card (dom (d_entries db)) \<le> 2 ^ 31 - 1 - m" using r unfolding has_room_def by linarith
  ultimately show ?thesis unfolding serves_def small_def using v by (intro conjI allI impI)
qed

lemma server_inv_room:
  assumes "server_inv n srv s xs" and "has_room m (s_db srv)"
  shows "server_inv (2 ^ 31 - 1 - m) srv s xs" "2 ^ 31 - 1 - m + m < (2 :: nat) ^ 31"
proof -
  show "server_inv (2 ^ 31 - 1 - m) srv s xs"
    using assms(1) has_room_serves [OF server_invD(1) [OF assms(1)] assms(2)] unfolding server_inv_def by blast
  show "2 ^ 31 - 1 - m + m < (2 :: nat) ^ 31" using assms(2) by (simp add: has_room_def)
qed

lemma server_inv_view: "server_inv n srv s xs \<Longrightarrow> db_view (s_db srv) (fst s)"
  by (simp add: server_inv_def serves_def)

lemma db_view_pool:
  assumes "db_view db A" and "d_pool db = None"
  shows "db_view (db\<lparr>d_pool := Some []\<rparr>) A"
proof -
  have "queued (db\<lparr>d_pool := Some []\<rparr>) = queued db" using assms(2) by (simp add: queued_def)
  moreover from this have "lkeys (db\<lparr>d_pool := Some []\<rparr>) = lkeys db" by (simp add: lkeys_def fun_eq_iff)
  ultimately show ?thesis using assms(1) unfolding db_view_def db_inv_def db_abs_def entries_ok_def by simp
qed

lemma server_init_ok:
  assumes "clock_mono clk"
  shows "\<exists>srv. server_init timeout clk = Some srv \<and> server_inv 0 srv (Map.empty, clk) []"
proof -
  have "ring [0 \<mapsto> \<lparr>dl_prev = Some 0, dl_next = Some 0\<rparr>] 0 []" by (simp add: ring_def edge_def nx_def pv_def)
  moreover have "serves 0 ((db_init clk)\<lparr>d_pool := Some []\<rparr>) (Map.empty, clk)"
    using db_view_pool [OF db_init_view, of clk] by (simp add: serves_def small_def) (simp add: db_init_def)
  ultimately show ?thesis using assms
    by (auto simp: server_init_def dlist_init_def dl_set_next_def dl_set_prev_def server_inv_def conns_ok_def conns_good_def
        vec_at_def intro!: exI)
qed

lemma worker_serves:
  assumes s: "serves n db s" and w: "worker_step db p = Some db'"
  shows "serves n db' s"
proof -
  from s have v: "db_view db (fst s)" and i: "db_inv db" by (simp_all add: serves_def db_view_def)
  have "p \<in> set (queued db)" using w by (auto simp: worker_step_def queued_def split: option.splits if_splits)
  from worker_step_ok [OF v this] w have d: "db_view db' (fst s)" "d_clock db' = d_clock db" "dom (d_entries db') \<subseteq> dom (d_entries db)" by auto
  with s card_entries_mono [OF i d(3)] show ?thesis by (simp add: serves_def)
qed

lemma worker_inv:
  assumes inv: "server_inv n srv s xs" and w: "worker_step (s_db srv) p = Some db"
  shows "server_inv n (srv\<lparr>s_db := db\<rparr>) s xs"
proof -
  from worker_serves [OF server_invD(1) [OF inv] w] have s: "serves n db s" .
  then have "d_clock db = d_clock (s_db srv)" using server_invD(5) [OF inv] by (simp add: serves_def)
  then show ?thesis using inv s by (simp add: server_inv_def conns_ok_def conns_good_def stamp_def [abs_def])
qed

text \<open>Steps keep the invariant, and they extend every sequence of events that explains the state before.\<close>

lemma server_steps_inv:
  assumes "server_steps (srv, tr) st'" and "server_inv n srv s xs" and "history s0 hs0 srv s tr"
  shows "\<exists>n' s' xs'. server_inv n' (fst st') s' xs' \<and> history s0 hs0 (fst st') s' (snd st')"
  using assms
proof (induction rule: server_steps.induct)
  case none
  then show ?case by auto
next
  case (iterate srv tr res acc srv')
  then obtain n s xs where h: "server_inv n srv s xs" "history s0 hs0 srv s tr" by auto
  note r = server_inv_room [OF h(1) iterate(4)]
  from run_iteration_ok [OF r iterate(2,3)] iterate(5) obtain n' s' xs' where "server_inv n' srv' s' xs'"
    "\<forall>s0 hs0 tr. history s0 hs0 srv s tr \<longrightarrow> history s0 hs0 srv' s' (iteration_traffic srv res acc tr)" by auto
  moreover from this(2) h(2) have "history s0 hs0 srv' s' (iteration_traffic srv res acc tr)" by blast
  ultimately show ?case unfolding fst_conv snd_conv by blast
next
  case (worker srv tr p db)
  then obtain n s xs where h: "server_inv n srv s xs" "history s0 hs0 srv s tr" by auto
  have "history s0 hs0 (srv\<lparr>s_db := db\<rparr>) s tr" by (rule history_sub [OF h(2)]) simp_all
  with worker_inv [OF h(1) worker(2)] show ?case unfolding fst_conv snd_conv by blast
qed

lemma server_run_inv:
  assumes "server_run clk srv tr"
  shows "\<exists>n s xs. server_inv n srv s xs \<and> history (Map.empty, clk) [] srv s tr"
proof -
  from assms obtain t srv0 where st: "clock_mono clk" "server_init t clk = Some srv0"
    "server_steps (srv0, (\<lambda>_. [], \<lambda>_. [])) (srv, tr)" unfolding server_run_def by blast
  from server_init_ok [OF st(1), of t] st(2) have inv: "server_inv 0 srv0 (Map.empty, clk) []" by simp
  then have "s_conn srv0 = Map.empty" using conns_okD(2) [OF server_invD(3)] by fastforce
  then have "history (Map.empty, clk) [] srv0 (Map.empty, clk) (\<lambda>_. [], \<lambda>_. [])"
    unfolding history_def by (intro exI [of _ "[]"]) (simp add: kspec.Nil streams_def)
  from server_steps_inv [OF st(3) inv this] show ?thesis by simp
qed

subsection \<open>A small server\<close>

lemma demo_clock_mono: "clock_mono demo_clock"
proof -
  have "uint (msec (readings demo_clock i)) = int (1000 * min i 1000 + 500)" for i
  proof -
    have "min i 1000 < 1001" by simp
    then have "uint (of_nat (min i 1000) :: u64) = int (min i 1000)"
      by (simp add: uint_nat unat_of_nat)
    moreover have "uint (500000000 div 1000 div 1000 :: u64) = 500" by simp
    ultimately show ?thesis
      using \<open>min i 1000 < 1001\<close> by (simp add: demo_clock_def msec_def uint_word_ariths)
  qed
  then show ?thesis by (simp add: clock_mono_def mono_def word_le_def min.coboundedI1)
qed

definition demo_server :: server where
  "demo_server = the (server_init 30000 demo_clock)"

lemma demo_server: "server_init 30000 demo_clock = Some demo_server" "server_inv 0 demo_server (Map.empty, demo_clock) []"
  using server_init_ok [OF demo_clock_mono, of 30000] by (auto simp: demo_server_def)

lemma demo_server_sel: "s_conn demo_server = Map.empty" "s_closed demo_server = []" "s_idle_timeout_ms demo_server = 30000"
  "s_db demo_server = (db_init demo_clock)\<lparr>d_pool := Some []\<rparr>"
  by (simp_all add: demo_server_def server_init_def dlist_init_def dl_set_next_def dl_set_prev_def)

lemma demo_now: "get_monotonic_msec demo_clock = (500, demo_clock\<lparr>n_read := 1\<rparr>)"
  "get_monotonic_msec (demo_clock\<lparr>n_read := 1\<rparr>) = (1500, demo_clock\<lparr>n_read := 2\<rparr>)"
  by (simp_all add: demo_clock_def get_monotonic_msec_def msec_def)

text \<open>The server with one connection on descriptor 5.\<close>

lemma demo_connected:
  "\<exists>srv. accept_new demo_server (Accepted 5) = Some srv \<and> server_inv 0 srv (Map.empty, demo_clock\<lparr>n_read := 1\<rparr>) [1] \<and>
     stamp srv 1 = 500 \<and> s_idle_timeout_ms srv = 30000 \<and> dom (s_conn srv) = {1}"
proof -
  have f: "s_fresh demo_server = 1" by (simp add: demo_server_def server_init_def dlist_init_def dl_set_next_def dl_set_prev_def)
  have "accept_ok demo_server (Accepted 5)" by (simp add: accept_ok_def demo_server_sel)
  from accept_new_inv [OF demo_server(2) this demo_now(1)] show ?thesis
    by (auto simp: f demo_server_sel stamp_def)
qed

lemma demo_run: "server_run demo_clock demo_server (\<lambda>_. [], \<lambda>_. [])"
  using demo_clock_mono demo_server(1) server_steps.none unfolding server_run_def by blast

text \<open>Two clients: one sets a key and the other one gets it, in the same iteration of the event loop.\<close>

definition demo_set :: "byte list" where
  "demo_set = [3, 0, 0, 0, 3, 0, 0, 0, 83, 69, 84, 1, 0, 0, 0, 107, 1, 0, 0, 0, 118]"

definition demo_get :: "byte list" where
  "demo_get = [2, 0, 0, 0, 3, 0, 0, 0, 71, 69, 84, 1, 0, 0, 0, 107]"

definition nothing :: event where
  "nothing = (\<lparr>re_in = False, re_out = False, re_hup = False, re_other = False\<rparr>, ReadAgain, \<lambda>_. WriteAgain)"

definition receives :: "byte list \<Rightarrow> event" where
  "receives data = (\<lparr>re_in = True, re_out = False, re_hup = False, re_other = False\<rparr>, ReadData data, \<lambda>_. WriteAgain)"

fun accept_free :: "server \<Rightarrow> sys_accept \<Rightarrow> bool" where
  "accept_free srv (Accepted fd) = (case vec_at (s_conns srv) fd of Some (Some p) \<Rightarrow> False | _ \<Rightarrow> True)"
| "accept_free srv _ = True"

lemma accept_free_ok: "accept_free srv acc \<Longrightarrow> conns_ok srv xs \<Longrightarrow> accept_ok srv acc"
proof -
  assume free: "accept_free srv acc" and ok: "conns_ok srv xs"
  have "c_fd c \<noteq> fd" if "acc = Accepted fd" "s_conn srv p = Some c" for fd p c
    using free that conns_okD(6) [OF ok, of "c_fd c" p] by auto
  then show "accept_ok srv acc" by (simp add: accept_ok_def)
qed

fun iterations :: "server \<times> traffic \<Rightarrow> (sys_poll \<times> sys_accept) list \<Rightarrow> (server \<times> traffic) option" where
  "iterations st [] = Some st"
| "iterations (srv, tr) ((res, acc) # rs) =
     (if accept_free srv acc then
        case run_iteration srv res acc of None \<Rightarrow> None | Some srv' \<Rightarrow> iterations (srv', iteration_traffic srv res acc tr) rs
      else None)"

lemma iterations_steps:
  assumes "iterations (srv, tr) rs = Some st'" and "server_steps st (srv, tr)" and "server_inv n srv s xs"
    and "\<forall>r \<in> set rs. poll_ok (fst r)" and "n + sum_list (map (poll_cost \<circ> fst) rs) < 2 ^ 31"
  shows "server_steps st st' \<and> (\<exists>s' xs'. server_inv (n + sum_list (map (poll_cost \<circ> fst) rs)) (fst st') s' xs')"
  using assms
proof (induction rs arbitrary: srv tr n s xs)
  case (Cons r rs)
  obtain res acc where r: "r = (res, acc)" by fastforce
  from Cons.prems(1) obtain srv' where it: "accept_free srv acc" "run_iteration srv res acc = Some srv'"
    "iterations (srv', iteration_traffic srv res acc tr) rs = Some st'" by (auto simp: r split: if_splits option.splits)
  have ok: "n + poll_cost res < 2 ^ 31" "poll_ok res" "accept_ok srv acc"
    using Cons.prems(4,5) accept_free_ok [OF it(1) server_invD(3) [OF Cons.prems(3)]] by (simp_all add: r)
  from run_iteration_ok [OF Cons.prems(3) ok] it(2) obtain s' xs' where inv: "server_inv (n + poll_cost res) srv' s' xs'" by auto
  have steps: "server_steps st (srv', iteration_traffic srv res acc tr)"
    using server_steps.iterate [OF Cons.prems(2) ok(2,3) serves_has_room [OF server_invD(1) [OF Cons.prems(3)] ok(1)] it(2)] .
  have "n + poll_cost res + sum_list (map (poll_cost \<circ> fst) rs) < 2 ^ 31" "\<forall>r \<in> set rs. poll_ok (fst r)"
    using Cons.prems(4,5) by (simp_all add: r comp_def)
  from Cons.IH [OF it(3) steps inv this(2,1)] show ?case by (simp add: r add.assoc)
next
  case Nil
  from Nil(1) have "st' = (srv, tr)" by simp
  with Nil(2,3) show ?case by (simp) blast
qed

definition demo_inputs :: "(sys_poll \<times> sys_accept) list" where
  "demo_inputs = [(PollReady True [], Accepted 5), (PollReady True [nothing], Accepted 6),
     (PollReady False [receives (frame demo_set), receives (frame demo_get)], AcceptFail)]"

text \<open>Then the first connection takes only four bytes of its reply.\<close>

definition sends :: "nat \<Rightarrow> event" where
  "sends k = (\<lparr>re_in = False, re_out = True, re_hup = False, re_other = False\<rparr>, ReadAgain, \<lambda>n. Written (min k n))"

definition demo_short :: "(sys_poll \<times> sys_accept) list" where
  "demo_short = [(PollReady False [sends 4, nothing], AcceptFail)]"

definition report :: "server \<times> traffic \<Rightarrow> (byte list \<times> byte list \<times> (nat \<times> byte list \<times> byte list) option) list" where
  "report st = map (\<lambda>p. (fst (snd st) p, snd (snd st) p, map_option (\<lambda>c. (c_fd c, incoming c, outgoing c)) (s_conn (fst st) p))) [1, 2]"

lemma demo_two_clients:
  "map_option (\<lambda>st. (report st, map_option (\<lambda>st'. (report st', poll_set (fst st') (s_conns (fst st')), s_fresh (fst st'))) (iterations st demo_short)))
     (iterations (demo_server, (\<lambda>_. [], \<lambda>_. [])) demo_inputs) =
   Some ([(frame demo_set, [], Some (5, [], reply_frame RNil)), (frame demo_get, [], Some (6, [], reply_frame (RStr ''v'')))],
     Some ([(frame demo_set, take 4 (reply_frame RNil), Some (5, [], [0])), (frame demo_get, [], Some (6, [], reply_frame (RStr ''v'')))],
       Some [(5, False, True), (6, False, True)], 3))"
  by code_simp

lemma demo_inputs_ok: "\<forall>r \<in> set demo_inputs. poll_ok (fst r)" "sum_list (map (poll_cost \<circ> fst) demo_inputs) = 3 * read_budget"
  "\<forall>r \<in> set demo_short. poll_ok (fst r)" "sum_list (map (poll_cost \<circ> fst) demo_short) = 2 * read_budget"
  by (simp_all add: demo_inputs_def demo_short_def poll_ok_def event_ok_def write_ok_def nothing_def receives_def sends_def frame_def
      demo_set_def demo_get_def poll_cost_def)

lemma demo_clients:
  obtains srv tr c1 c2 srv' tr' d1 s xs where "server_run demo_clock srv tr" "s_conn srv 1 = Some c1" "incoming c1 = []" "outgoing c1 = reply_frame RNil"
    "fst tr 1 = frame demo_set" "snd tr 1 = []" "s_conn srv 2 = Some c2" "incoming c2 = []" "outgoing c2 = reply_frame (RStr ''v'')"
    "fst tr 2 = frame demo_get" "snd tr 2 = []"
    "server_run demo_clock srv' tr'" "server_inv (5 * read_budget) srv' s xs" "s_conn srv' 1 = Some d1" "c_fd d1 = 5" "outgoing d1 = [0]"
    "poll_set srv' (s_conns srv') = Some [(5, False, True), (6, False, True)]" "s_fresh srv' = 3"
proof -
  obtain srv tr srv' tr' where it: "iterations (demo_server, (\<lambda>_. [], \<lambda>_. [])) demo_inputs = Some (srv, tr)"
    "iterations (srv, tr) demo_short = Some (srv', tr')"
    and r: "report (srv, tr) = [(frame demo_set, [], Some (5, [], reply_frame RNil)), (frame demo_get, [], Some (6, [], reply_frame (RStr ''v'')))]"
      "report (srv', tr') = [(frame demo_set, take 4 (reply_frame RNil), Some (5, [], [0])), (frame demo_get, [], Some (6, [], reply_frame (RStr ''v'')))]"
      "poll_set srv' (s_conns srv') = Some [(5, False, True), (6, False, True)]" "s_fresh srv' = 3"
    using demo_two_clients unfolding map_option_eq_Some by auto
  have n: "0 + sum_list (map (poll_cost \<circ> fst) demo_inputs) < 2 ^ 31" "0 + sum_list (map (poll_cost \<circ> fst) demo_inputs) + sum_list (map (poll_cost \<circ> fst) demo_short) < 2 ^ 31"
    unfolding demo_inputs_ok by (simp_all add: read_budget_def MAX_MSG_def)
  from iterations_steps [OF it(1) server_steps.none demo_server(2) demo_inputs_ok(1) n(1)] obtain s xs where
    1: "server_steps (demo_server, (\<lambda>_. [], \<lambda>_. [])) (srv, tr)" "server_inv (0 + sum_list (map (poll_cost \<circ> fst) demo_inputs)) srv s xs" by auto
  from iterations_steps [OF it(2) 1 demo_inputs_ok(3) n(2)] obtain s' xs' where
    2: "server_steps (demo_server, (\<lambda>_. [], \<lambda>_. [])) (srv', tr')" "server_inv (5 * read_budget) srv' s' xs'" by (auto simp: demo_inputs_ok)
  have run: "server_run demo_clock srv tr" "server_run demo_clock srv' tr'"
    using 1(1) 2(1) demo_clock_mono demo_server(1) unfolding server_run_def by blast+
  from r(1) obtain c1 c2 where c: "s_conn srv 1 = Some c1" "incoming c1 = []" "outgoing c1 = reply_frame RNil"
    "fst tr 1 = frame demo_set" "snd tr 1 = []" "s_conn srv 2 = Some c2" "incoming c2 = []" "outgoing c2 = reply_frame (RStr ''v'')"
    "fst tr 2 = frame demo_get" "snd tr 2 = []" by (auto simp: report_def)
  from r(2) obtain d1 where "s_conn srv' 1 = Some d1" "c_fd d1 = 5" "outgoing d1 = [0]" by (auto simp: report_def)
  from that [OF run(1) c run(2) 2(2) this r(3,4)] show thesis .
qed

subsection \<open>Properties\<close>

text \<open>C2: The server is linearizable. Whatever the clients send on any number of connections, in pieces of any size, and
  however the iterations of the event loop, the timers and the workers interleave, there is one sequence of events that
  explains everything: requests that are executed one after the other on one key space, which is empty at first, each with the reply
  that the specification of its command asks for, and overdue keys that disappear. For every open connection, what was
  received is exactly the frames of its own requests in this sequence, in order, followed by what is still in its input
  buffer, and their replies, in order, are exactly what was sent, followed by what is still in its output buffer; for a closed
  connection they begin with it. This holds for executions of any length on a monotonic clock that stay below $2^{31}$ entries and pairs.
  The key space that the database implements is the one at the end of the sequence. Whatever the server does next only
  adds events to the end of the sequence: what has been answered is never reordered or taken back.\<close>

theorem server_linearizable:
  assumes "server_run clk srv tr"
  shows "\<exists>hs s. kspec (Map.empty, clk) hs s \<and> db_view (s_db srv) (fst s) \<and> streams srv hs tr \<and>
    (\<forall>srv' tr'. server_steps (srv, tr) (srv', tr') \<longrightarrow>
       (\<exists>hs' s'. kspec (Map.empty, clk) (hs @ hs') s' \<and> db_view (s_db srv') (fst s') \<and> streams srv' (hs @ hs') tr'))"
proof -
  from server_run_inv [OF assms] obtain n s xs hs where h: "server_inv n srv s xs" "kspec (Map.empty, clk) hs s" "streams srv hs tr"
    unfolding history_def by auto
  have "history (Map.empty, clk) hs srv s tr" unfolding history_def by (rule exI [of _ "[]"]) (simp add: h)
  from server_steps_inv [OF _ h(1) this] have
    "\<exists>hs' s'. kspec (Map.empty, clk) (hs @ hs') s' \<and> db_view (s_db srv') (fst s') \<and> streams srv' (hs @ hs') tr'"
    if "server_steps (srv, tr) (srv', tr')" for srv' tr'
    using that server_inv_view unfolding history_def by fastforce
  with h server_inv_view show ?thesis by blast
qed

theorem server_linearizable_witness:
  "\<exists>srv tr hs s. server_run demo_clock srv tr \<and> kspec (Map.empty, demo_clock) hs s \<and> streams srv hs tr \<and>
     requests_bytes 1 hs = frame demo_set \<and> replies_bytes 1 hs = reply_frame RNil \<and>
     requests_bytes 2 hs = frame demo_get \<and> replies_bytes 2 hs = reply_frame (RStr ''v'')"
proof -
  from demo_clients obtain srv tr c1 c2 where run: "server_run demo_clock srv tr"
    and c: "s_conn srv 1 = Some c1" "incoming c1 = []" "outgoing c1 = reply_frame RNil" "fst tr 1 = frame demo_set" "snd tr 1 = []"
      "s_conn srv 2 = Some c2" "incoming c2 = []" "outgoing c2 = reply_frame (RStr ''v'')" "fst tr 2 = frame demo_get" "snd tr 2 = []" by metis
  from server_linearizable [OF run] obtain hs s where hs: "kspec (Map.empty, demo_clock) hs s" "streams srv hs tr" by blast
  then have "fst tr p = requests_bytes p hs @ incoming c \<and> replies_bytes p hs = snd tr p @ outgoing c" if "s_conn srv p = Some c" for p c
    using that unfolding streams_def by blast
  from this [OF c(1)] this [OF c(6)] c run hs show ?thesis by (metis append_Nil append_Nil2)
qed

text \<open>C6: the event loop never gets stuck. In every state the server can reach, whatever its clients send, and whatever the
  workers do in between, the next iteration succeeds, as long as there is room for fewer than $2^{31}$ entries and pairs: no null or dangling
  pointer is followed, no vector is indexed out of range, no assertion fails and every inner loop ends.
  The input buffer of an open connection holds nothing but an unfinished frame, and the next \<open>poll\<close> asks
  for room to write exactly if there is output left, and for input exactly if there is none.\<close>

theorem server_never_stuck:
  assumes "server_run clk srv tr" and "poll_ok res" and "accept_ok srv acc" and "has_room (poll_cost res) (s_db srv)"
  shows "(\<exists>srv'. run_iteration srv res acc = Some srv') \<and>
    (\<forall>p c. s_conn srv p = Some c \<longrightarrow> partial_input (incoming c) \<and> poll_events c = (outgoing c = [], outgoing c \<noteq> []))"
proof -
  from server_run_inv [OF assms(1)] obtain n s xs where inv: "server_inv n srv s xs" by blast
  from run_iteration_ok [OF server_inv_room [OF inv assms(4)] assms(2,3)] server_invD(4) [OF inv] show ?thesis by (auto simp: conns_good_def conn_good_def poll_events_def)
qed

theorem server_never_stuck_witness:
  "\<exists>srv'. run_iteration demo_server (PollReady True []) (Accepted 5) = Some srv'"
proof -
  from server_never_stuck [OF demo_run, of "PollReady True []" "Accepted 5"] show ?thesis
    using serves_has_room [OF server_invD(1) [OF demo_server(2)], of 0] by (simp add: poll_ok_def accept_ok_def poll_cost_def demo_server_sel)
qed

text \<open>C11: \<open>process_timers\<close> closes exactly the connections that have been idle for the timeout, in the order in which they
  became idle, and expires only overdue keys: all of them, or \<open>k_max_works\<close> (2000) if there are more.\<close>

theorem process_timers_reaps:
  assumes "server_inv n srv (A, c) xs" and "get_monotonic_msec c = (now, k)" and "no_wrap srv"
  shows "\<exists>srv' K ys zs. process_timers srv = Some srv' \<and> server_inv n srv' (A |` (- K), k) zs \<and> xs = ys @ zs \<and>
    s_closed srv' = s_closed srv @ map (\<lambda>p. c_fd (the (s_conn srv p))) ys \<and>
    (\<forall>p \<in> set ys. stamp srv p + s_idle_timeout_ms srv \<le> now) \<and>
    (\<forall>p \<in> set zs. now < stamp srv p + s_idle_timeout_ms srv) \<and>
    card K \<le> k_max_works \<and> (\<forall>key \<in> K. \<exists>v d. A key = Some (v, Some d) \<and> d \<le> now) \<and>
    (card K = k_max_works \<or> (\<forall>key v d. key \<notin> K \<longrightarrow> A key = Some (v, Some d) \<longrightarrow> now < d))"
proof -
  from process_timers_ok [OF assms(1,2)] obtain srv' K ys zs where r: "process_timers srv = Some srv'" "server_inv n srv' (A |` (- K), k) zs"
    "xs = ys @ zs" "s_closed srv' = s_closed srv @ map (\<lambda>p. c_fd (the (s_conn srv p))) ys"
    "\<forall>p \<in> set ys. stamp srv p + s_idle_timeout_ms srv \<le> now"
    "zs \<noteq> [] \<longrightarrow> now < stamp srv (hd zs) + s_idle_timeout_ms srv" "card K \<le> k_max_works"
    "\<forall>key \<in> K. \<exists>v d. A key = Some (v, Some d) \<and> d \<le> now"
    "card K = k_max_works \<or> (\<forall>key v d. key \<notin> K \<longrightarrow> A key = Some (v, Some d) \<longrightarrow> now < d)" by blast
  note D = server_invD [OF assms(1)] and C = conns_okD [OF server_invD(3) [OF assms(1)]]
  have "now < stamp srv p + s_idle_timeout_ms srv" if p: "p \<in> set zs" for p
  proof -
    have "sorted (map (stamp srv) zs)" using D(4) r(3) by (simp add: conns_good_def sorted_append)
    then have "stamp srv (hd zs) \<le> stamp srv p" using p by (cases zs) auto
    moreover have "p \<in> dom (s_conn srv)" using C(2) r(3) p by auto
    ultimately have "stamp srv (hd zs) + s_idle_timeout_ms srv \<le> stamp srv p + s_idle_timeout_ms srv"
      using assms(3) by (intro plus_mono_no_wrap) (auto simp: no_wrap_def)
    with r(6) p show ?thesis by (cases zs) auto
  qed
  with r show ?thesis by blast
qed

theorem process_timers_reaps_witness:
  "\<exists>srv srv'. accept_new demo_server (Accepted 5) = Some srv \<and> process_timers srv = Some srv' \<and> s_closed srv' = s_closed srv"
proof -
  from demo_connected obtain srv where srv: "accept_new demo_server (Accepted 5) = Some srv"
    "server_inv 0 srv (Map.empty, demo_clock\<lparr>n_read := 1\<rparr>) [1]" "stamp srv 1 = 500" "s_idle_timeout_ms srv = 30000" "dom (s_conn srv) = {1}" by blast
  then have "no_wrap srv" by (simp add: no_wrap_def)
  from process_timers_reaps [OF srv(2) demo_now(2) this] obtain srv' ys zs where r: "process_timers srv = Some srv'" "[1] = ys @ zs"
    "s_closed srv' = s_closed srv @ map (\<lambda>p. c_fd (the (s_conn srv p))) ys" "\<forall>p \<in> set ys. stamp srv p + s_idle_timeout_ms srv \<le> 1500" by blast
  have "ys = []" using r(2,4) srv(3,4) by (cases ys) auto
  with srv(1) r show ?thesis by auto
qed

text \<open>C21: \<open>next_timer_ms\<close> is the time to the nearest deadline of any connection or key, 0 if it has passed, provided it is less than
  $2^{31}$ milliseconds away: \<open>poll\<close> neither sleeps past a deadline nor wakes up early.\<close>

theorem next_timer_nearest:
  assumes "server_inv n srv (A, c) xs" and "get_monotonic_msec c = (now, k)" and "no_wrap srv"
    and "m \<in> deadlines srv A" and "\<forall>d \<in> deadlines srv A. m \<le> d" and "m \<noteq> - 1" and "uint m - uint now < 2 ^ 31"
  shows "\<exists>srv'. next_timer_ms srv = Some (max 0 (uint m - uint now), srv')"
proof -
  note near = next_deadline_nearest [OF assms(1,3)]
  have "next_deadline srv xs \<le> m" using near(1) assms(4) by blast
  with assms(6) have "next_deadline srv xs \<noteq> - 1" using word_order.extremum_uniqueI [of m] by auto
  with near(2) assms(5) \<open>next_deadline srv xs \<le> m\<close> have m: "next_deadline srv xs = m" by (meson antisym)
  show ?thesis
  proof (cases "m \<le> now")
    case True
    then have "uint m \<le> uint now" by (simp add: word_le_def)
    with True m assms(6) next_timer_eq [OF assms(1), of now k] assms(2) show ?thesis by (simp add: Let_def)
  next
    case False
    then have lt: "uint now < uint m" by (simp add: word_le_def)
    then have d: "uint (m - now) = uint m - uint now" by (simp add: uint_sub_if')
    then have "sint (ucast (m - now) :: 32 word) = uint m - uint now" using sint_ucast_small [of "m - now"] assms(7) by simp
    with False m lt assms(6) next_timer_eq [OF assms(1), of now k] assms(2) show ?thesis by (simp add: Let_def)
  qed
qed

theorem next_timer_nearest_witness:
  "\<exists>srv srv'. accept_new demo_server (Accepted 5) = Some srv \<and> next_timer_ms srv = Some (29000, srv')"
proof -
  from demo_connected obtain srv where srv: "accept_new demo_server (Accepted 5) = Some srv"
    "server_inv 0 srv (Map.empty, demo_clock\<lparr>n_read := 1\<rparr>) [1]" "stamp srv 1 = 500" "s_idle_timeout_ms srv = 30000" "dom (s_conn srv) = {1}" by blast
  then have nw: "no_wrap srv" and d: "deadlines srv Map.empty = {30500}" by (auto simp: no_wrap_def deadlines_def)
  from next_timer_nearest [OF srv(2) demo_now(2) nw, of 30500] d srv(1) show ?thesis by auto
qed

text \<open>A deadline more than $2^{31} - 1$ milliseconds away does not fit the \<open>int32_t\<close> result, which then is negative for half
  of the values: \<open>poll\<close> blocks without a timeout.\<close>

lemma next_timer_truncates:
  assumes "server_inv n srv (A, c) xs" and "get_monotonic_msec c = (now, k)" and "no_wrap srv"
    and "m \<in> deadlines srv A" and "\<forall>d \<in> deadlines srv A. m \<le> d" and "m \<noteq> - 1" and "m = now + 3000000000" and "now < m"
  shows "\<exists>srv'. next_timer_ms srv = Some (- 1294967296, srv')"
proof -
  note near = next_deadline_nearest [OF assms(1,3)]
  have "next_deadline srv xs \<le> m" using near(1) assms(4) by blast
  with assms(6) have "next_deadline srv xs \<noteq> - 1" using word_order.extremum_uniqueI [of m] by auto
  with near(2) assms(5) \<open>next_deadline srv xs \<le> m\<close> have m: "next_deadline srv xs = m" by (meson antisym)
  have "sint (ucast (m - now) :: 32 word) = - 1294967296" using assms(7) by simp
  with m assms(6,8) next_timer_eq [OF assms(1), of now k] assms(2) show ?thesis by (simp add: Let_def)
qed

end
