(* ===== verification/Thread_Pool.thy ===== *)
theory Thread_Pool
  imports Prelude "HOL-Library.Multiset"
begin

text \<open>
  The worker pool (\<open>include/threadpool/thread_pool.h\<close>, \<open>src/threadpool/thread_pool.cpp\<close>) as a step
  relation over the interleavings of its threads.

  A step of a worker or of the producer is one critical section of \<open>mu_\<close>, one notification or one
  task execution. A worker that finds the wait predicate false sleeps on \<open>not_empty_\<close> until a
  notification or a spurious wakeup; it then takes the lock again and re-evaluates the
  predicate. The pool has one producer, the thread that constructs it, calls \<open>queue\<close> and runs
  the destructor; its program counter says which call it is in. The task that runs is identified by
  its \<open>Work\<close> item, a value of an arbitrary type.
\<close>

datatype 'w worker =
    Ready         \<comment> \<open>about to take the lock and evaluate the predicate\<close>
  | Asleep        \<comment> \<open>in \<open>not_empty_.wait\<close>\<close>
  | Running 'w    \<comment> \<open>in \<open>w.f(w.arg)\<close>, without the lock\<close>
  | Exited

datatype producer =
    Outside       \<comment> \<open>not in a member function of the pool\<close>
  | Queued        \<comment> \<open>in \<open>queue\<close>, before \<open>notify_one\<close>\<close>
  | Stopping      \<comment> \<open>in the destructor, before \<open>notify_all\<close>\<close>
  | Joining       \<comment> \<open>in the destructor, joining the workers\<close>

record 'w pool =
  p_queue :: "'w list"
  p_stop :: bool
  p_threads :: "'w worker list"
  p_prod :: producer
  p_submitted :: "'w list"    \<comment> \<open>all work passed to \<open>queue\<close>, in order\<close>
  p_taken :: "'w list"        \<comment> \<open>all work popped from the queue, in order\<close>
  p_done :: "'w list"         \<comment> \<open>all work executed, in the order of completion\<close>

definition pool_init :: "nat \<Rightarrow> 'w pool" where
  "pool_init num_threads =
     (let n = (if num_threads = 0 then 1 else num_threads)
      in \<lparr>p_queue = [], p_stop = False, p_threads = replicate n Ready, p_prod = Outside,
          p_submitted = [], p_taken = [], p_done = []\<rparr>)"

definition set_worker :: "'w pool \<Rightarrow> nat \<Rightarrow> 'w worker \<Rightarrow> 'w pool" where
  "set_worker s i st = s\<lparr>p_threads := (p_threads s)[i := st]\<rparr>"

subsection \<open>The producer\<close>

definition queue_push :: "'w pool \<Rightarrow> 'w \<Rightarrow> 'w pool" where
  "queue_push s w = s\<lparr>p_queue := p_queue s @ [w], p_submitted := p_submitted s @ [w], p_prod := Queued\<rparr>"

definition wake :: "'w worker \<Rightarrow> 'w worker" where
  "wake st = (case st of Asleep \<Rightarrow> Ready | _ \<Rightarrow> st)"

definition stop_set :: "'w pool \<Rightarrow> 'w pool" where
  "stop_set s = s\<lparr>p_stop := True, p_prod := Stopping\<rparr>"

definition notify_all :: "'w pool \<Rightarrow> 'w pool" where
  "notify_all s = s\<lparr>p_threads := map wake (p_threads s), p_prod := Joining\<rparr>"

subsection \<open>A worker\<close>

text \<open>The critical section of \<open>worker_loop\<close>: wait, exit, or pop the front of the queue.\<close>

definition worker_check :: "'w pool \<Rightarrow> nat \<Rightarrow> 'w pool" where
  "worker_check s i =
     (if \<not> (p_queue s \<noteq> [] \<or> p_stop s) then set_worker s i Asleep
      else case p_queue s of
        [] \<Rightarrow> set_worker s i Exited
      | w # rest \<Rightarrow> set_worker (s\<lparr>p_queue := rest, p_taken := p_taken s @ [w]\<rparr>) i (Running w))"

definition worker_finish :: "'w pool \<Rightarrow> nat \<Rightarrow> 'w \<Rightarrow> 'w pool" where
  "worker_finish s i w = set_worker (s\<lparr>p_done := p_done s @ [w]\<rparr>) i Ready"

subsection \<open>Interleavings\<close>

inductive pool_step :: "'w pool \<Rightarrow> 'w pool \<Rightarrow> bool" where
  push: "p_prod s = Outside \<Longrightarrow> pool_step s (queue_push s w)"
| notify_one: "p_prod s = Queued \<Longrightarrow> i < length (p_threads s) \<Longrightarrow> p_threads s ! i = Asleep \<Longrightarrow>
    pool_step s ((set_worker s i Ready)\<lparr>p_prod := Outside\<rparr>)"
| notify_none: "p_prod s = Queued \<Longrightarrow> Asleep \<notin> set (p_threads s) \<Longrightarrow> pool_step s (s\<lparr>p_prod := Outside\<rparr>)"
| stop: "p_prod s = Outside \<Longrightarrow> pool_step s (stop_set s)"
| notify: "p_prod s = Stopping \<Longrightarrow> pool_step s (notify_all s)"
| check: "i < length (p_threads s) \<Longrightarrow> p_threads s ! i = Ready \<Longrightarrow> pool_step s (worker_check s i)"
| spurious: "i < length (p_threads s) \<Longrightarrow> p_threads s ! i = Asleep \<Longrightarrow> pool_step s (set_worker s i Ready)"
| finish: "i < length (p_threads s) \<Longrightarrow> p_threads s ! i = Running w \<Longrightarrow> pool_step s (worker_finish s i w)"

inductive pool_reach :: "nat \<Rightarrow> 'w pool \<Rightarrow> bool" for n where
  init: "pool_reach n (pool_init n)"
| step: "pool_reach n s \<Longrightarrow> pool_step s s' \<Longrightarrow> pool_reach n s'"

inductive_cases pool_stepE: "pool_step s s'"

text \<open>All workers have been joined: the destructor returns.\<close>

definition joined :: "'w pool \<Rightarrow> bool" where
  "joined s \<longleftrightarrow> p_prod s = Joining \<and> set (p_threads s) = {Exited}"

subsection \<open>Invariant\<close>

fun running :: "'w worker \<Rightarrow> 'w multiset" where
  "running (Running w) = {#w#}"
| "running _ = {#}"

definition in_progress :: "'w pool \<Rightarrow> 'w multiset" where
  "in_progress s = sum_list (map running (p_threads s))"

definition pool_inv :: "'w pool \<Rightarrow> bool" where
  "pool_inv s \<longleftrightarrow>
     p_threads s \<noteq> [] \<and>
     p_taken s @ p_queue s = p_submitted s \<and>
     mset (p_taken s) = mset (p_done s) + in_progress s \<and>
     (p_stop s \<longleftrightarrow> p_prod s \<in> {Stopping, Joining}) \<and>
     (Exited \<in> set (p_threads s) \<longrightarrow> p_stop s \<and> p_queue s = []) \<and>
     (p_prod s = Joining \<longrightarrow> Asleep \<notin> set (p_threads s)) \<and>
     (p_queue s \<noteq> [] \<longrightarrow> p_prod s \<in> {Queued, Stopping} \<or>
        (\<exists>st \<in> set (p_threads s). st \<noteq> Asleep \<and> st \<noteq> Exited))"

lemma sum_list_running_update:
  "i < length xs \<Longrightarrow> sum_list (map running (xs[i := st])) + running (xs ! i) = sum_list (map running xs) + running st"
  by (induction xs arbitrary: i) (auto simp: less_Suc_eq_0_disj ac_simps)

lemma in_progress_update:
  assumes "i < length (p_threads s)" and "p_threads s ! i = old"
  shows "in_progress (set_worker s i st) + running old = in_progress s + running st"
  using sum_list_running_update [OF assms(1), of st] assms(2) by (simp add: in_progress_def set_worker_def)

lemma in_progress_frame [simp]:
  "in_progress (s\<lparr>p_queue := a\<rparr>) = in_progress s" "in_progress (s\<lparr>p_taken := a\<rparr>) = in_progress s"
  "in_progress (s\<lparr>p_done := a\<rparr>) = in_progress s" "in_progress (s\<lparr>p_prod := p\<rparr>) = in_progress s"
  "in_progress (s\<lparr>p_submitted := a\<rparr>) = in_progress s" "in_progress (s\<lparr>p_stop := b\<rparr>) = in_progress s"
  by (simp_all add: in_progress_def)

lemma running_wake [simp]: "running (wake st) = running st"
  by (cases st) (simp_all add: wake_def)

lemma set_update_other: "i < length xs \<Longrightarrow> st \<in> set xs \<Longrightarrow> st \<noteq> xs ! i \<Longrightarrow> st \<in> set (xs[i := y])"
  by (metis in_set_conv_nth length_list_update nth_list_update_neq)

lemma sum_list_running_replicate: "sum_list (map running (replicate n Ready)) = {#}"
  by (induction n) simp_all

lemma pool_inv_init: "pool_inv (pool_init n)"
  using sum_list_running_replicate [of n] by (auto simp: pool_inv_def pool_init_def in_progress_def)

lemma pool_invD:
  assumes "pool_inv s"
  shows "p_threads s \<noteq> []" "p_taken s @ p_queue s = p_submitted s" "mset (p_taken s) = mset (p_done s) + in_progress s"
    "p_stop s \<longleftrightarrow> p_prod s \<in> {Stopping, Joining}" "Exited \<in> set (p_threads s) \<Longrightarrow> p_stop s"
    "Exited \<in> set (p_threads s) \<Longrightarrow> p_queue s = []" "p_prod s = Joining \<Longrightarrow> Asleep \<notin> set (p_threads s)"
    "p_queue s \<noteq> [] \<Longrightarrow> p_prod s \<in> {Queued, Stopping} \<or> (\<exists>st \<in> set (p_threads s). st \<noteq> Asleep \<and> st \<noteq> Exited)"
  using assms unfolding pool_inv_def by blast+

lemma set_worker_sel [simp]:
  "p_queue (set_worker s i st) = p_queue s" "p_stop (set_worker s i st) = p_stop s" "p_prod (set_worker s i st) = p_prod s"
  "p_submitted (set_worker s i st) = p_submitted s" "p_taken (set_worker s i st) = p_taken s" "p_done (set_worker s i st) = p_done s"
  "p_threads (set_worker s i st) = (p_threads s)[i := st]"
  by (simp_all add: set_worker_def)

lemma wake_eq [simp]: "wake st \<noteq> Asleep" "wake st = Exited \<longleftrightarrow> st = Exited"
  by (cases st; simp add: wake_def)+

lemma wake_sets [simp]:
  "Asleep \<notin> wake ` S" "Exited \<in> wake ` S \<longleftrightarrow> Exited \<in> S"
  by (metis image_iff wake_eq(1)) (metis image_iff wake_eq(2))

lemma inv_push: "pool_inv s \<Longrightarrow> p_prod s = Outside \<Longrightarrow> pool_inv (queue_push s w)"
  unfolding pool_inv_def queue_push_def by simp blast

lemma inv_stop: "pool_inv s \<Longrightarrow> p_prod s = Outside \<Longrightarrow> pool_inv (stop_set s)"
  unfolding pool_inv_def stop_set_def by simp

lemma inv_notify_none: "pool_inv s \<Longrightarrow> p_prod s = Queued \<Longrightarrow> Asleep \<notin> set (p_threads s) \<Longrightarrow> pool_inv (s\<lparr>p_prod := Outside\<rparr>)"
  unfolding pool_inv_def by simp (metis last_in_set)

lemma inv_notify_all:
  assumes i: "pool_inv s" and p: "p_prod s = Stopping"
  shows "pool_inv (notify_all s)"
proof -
  note D = pool_invD [OF i]
  have "in_progress (notify_all s) = in_progress s" by (simp add: in_progress_def notify_all_def comp_def)
  moreover have "\<exists>st \<in> wake ` set (p_threads s). st \<noteq> Asleep \<and> st \<noteq> Exited" if "p_queue s \<noteq> []"
  proof -
    have "Exited \<notin> set (p_threads s)" using D(6) that by blast
    moreover obtain st where "st \<in> set (p_threads s)" using D(1) by (metis list.set_intros(1) neq_Nil_conv)
    ultimately have "wake st \<in> wake ` set (p_threads s)" "wake st \<noteq> Exited" "wake st \<noteq> Asleep"
      by (auto simp: wake_def split: worker.splits)
    then show ?thesis by blast
  qed
  ultimately show ?thesis using D p by (auto simp: pool_inv_def notify_all_def)
qed

text \<open>A change of one worker.\<close>

lemma inv_worker:
  assumes i: "pool_inv s" "i < length (p_threads s)" and r: "running (p_threads s ! i) = running st"
    and e: "st = Exited \<Longrightarrow> p_stop s \<and> p_queue s = []"
    and a: "st = Asleep \<Longrightarrow> \<not> p_stop s \<and> p_queue s = []"
  shows "pool_inv (set_worker s i st)"
proof -
  note D = pool_invD [OF i(1)]
  have set: "set ((p_threads s)[i := st]) \<subseteq> insert st (set (p_threads s))" by (rule set_update_subset_insert)
  have mem: "st \<in> set ((p_threads s)[i := st])" using i(2) by (simp add: set_update_memI)
  have "in_progress (set_worker s i st) = in_progress s"
    using in_progress_update [OF i(2) refl, of st] r by simp
  moreover have "\<exists>x \<in> set ((p_threads s)[i := st]). x \<noteq> Asleep \<and> x \<noteq> Exited" if "p_queue s \<noteq> []"
    using that e a mem by blast
  moreover have "Asleep \<notin> set ((p_threads s)[i := st])" if "p_prod s = Joining"
    using that D(4,7) a set by auto
  moreover have "p_stop s \<and> p_queue s = []" if "Exited \<in> set ((p_threads s)[i := st])"
    using that D(5,6) e set by auto
  ultimately show ?thesis using D(1-4) by (auto simp: pool_inv_def)
qed

lemma inv_check:
  assumes i: "pool_inv s" "i < length (p_threads s)" "p_threads s ! i = Ready"
  shows "pool_inv (worker_check s i)"
proof (cases "p_queue s")
  case Nil
  with i show ?thesis by (auto simp: worker_check_def intro!: inv_worker)
next
  case (Cons w rest)
  note D = pool_invD [OF i(1)]
  let ?s = "s\<lparr>p_queue := rest, p_taken := p_taken s @ [w]\<rparr>"
  have "in_progress (set_worker ?s i (Running w)) = in_progress s + {#w#}"
    using in_progress_update [of i ?s Ready "Running w"] i(2,3) by simp
  moreover have "Running w \<in> set ((p_threads s)[i := Running w])" using i(2) by (simp add: set_update_memI)
  moreover have "set ((p_threads s)[i := Running w]) \<subseteq> insert (Running w) (set (p_threads s))" by (rule set_update_subset_insert)
  ultimately show ?thesis using D Cons by (auto simp: worker_check_def pool_inv_def)
qed

lemma inv_finish:
  assumes i: "pool_inv s" "i < length (p_threads s)" "p_threads s ! i = Running w"
  shows "pool_inv (worker_finish s i w)"
proof -
  note D = pool_invD [OF i(1)]
  let ?s = "s\<lparr>p_done := p_done s @ [w]\<rparr>"
  have "in_progress (set_worker ?s i Ready) + {#w#} = in_progress s"
    using in_progress_update [of i ?s "Running w" Ready] i(2,3) by simp
  then have "mset (p_taken s) = mset (p_done s @ [w]) + in_progress (set_worker ?s i Ready)" using D(3) by simp
  moreover have "Ready \<in> set ((p_threads s)[i := Ready])" using i(2) by (simp add: set_update_memI)
  moreover have "set ((p_threads s)[i := Ready]) \<subseteq> insert Ready (set (p_threads s))" by (rule set_update_subset_insert)
  ultimately show ?thesis using D by (auto simp: worker_finish_def pool_inv_def)
qed

lemma inv_notify_one:
  assumes i: "pool_inv s" "i < length (p_threads s)" "p_threads s ! i = Asleep" "p_prod s = Queued"
  shows "pool_inv ((set_worker s i Ready)\<lparr>p_prod := Outside\<rparr>)"
proof -
  have "pool_inv (set_worker s i Ready)" using i by (intro inv_worker) simp_all
  from pool_invD [OF this] i(4) show ?thesis
    using set_update_memI [OF i(2), of Ready] by (auto simp: pool_inv_def)
qed

lemma pool_step_inv: "pool_step s s' \<Longrightarrow> pool_inv s \<Longrightarrow> pool_inv s'"
  by (induction rule: pool_step.induct)
    (auto intro: inv_push inv_notify_one inv_notify_none inv_stop inv_notify_all inv_check inv_finish inv_worker)

lemma pool_reach_inv: "pool_reach n s \<Longrightarrow> pool_inv s"
  by (induction rule: pool_reach.induct) (auto intro: pool_inv_init pool_step_inv)

subsection \<open>Shutdown\<close>

fun weight :: "'w worker \<Rightarrow> nat" where
  "weight Ready = 1"
| "weight Asleep = 2"
| "weight (Running _) = 2"
| "weight Exited = 0"

definition pool_work :: "'w pool \<Rightarrow> nat" where
  "pool_work s = 2 * length (p_queue s) + sum_list (map weight (p_threads s))"

lemma weight_update:
  "i < length xs \<Longrightarrow> sum_list (map weight (xs[i := st])) + weight (xs ! i) = sum_list (map weight xs) + weight st"
  by (induction xs arbitrary: i) (auto simp: less_Suc_eq_0_disj)

lemma joining_step:
  assumes "pool_step s s'" and "pool_inv s" and "p_prod s = Joining"
  shows "p_prod s' = Joining \<and> p_submitted s' = p_submitted s \<and> pool_work s' < pool_work s"
  using assms(1)
proof cases
  case (check i)
  have st: "p_stop s" using pool_invD(4) [OF assms(2)] assms(3) by simp
  show ?thesis
  proof (cases "p_queue s")
    case Nil
    with weight_update [OF check(2), of Exited] check(3) st assms(3) show ?thesis
      by (simp add: check(1) worker_check_def pool_work_def)
  next
    case (Cons w rest)
    with weight_update [OF check(2), of "Running w"] check(3) st assms(3) show ?thesis
      by (simp add: check(1) worker_check_def pool_work_def)
  qed
next
  case (spurious i)
  then show ?thesis using pool_invD(7) [OF assms(2,3)] nth_mem by metis
next
  case (finish i w)
  from weight_update [OF finish(2), of Ready] finish(3) assms(3) show ?thesis
    by (simp add: finish(1) worker_finish_def pool_work_def)
qed (use assms(3) in simp_all)

lemma joining_progress:
  assumes "pool_inv s" and "p_prod s = Joining" and "\<not> joined s"
  shows "\<exists>s'. pool_step s s'"
proof -
  note D = pool_invD [OF assms(1)]
  have "set (p_threads s) \<noteq> {}" using D(1) by simp
  with assms(2,3) obtain st where "st \<in> set (p_threads s)" "st \<noteq> Exited" unfolding joined_def by (metis is_singletonI' is_singleton_the_elem singletonD insertI1)
  then obtain i where i: "i < length (p_threads s)" "p_threads s ! i \<noteq> Exited" by (metis in_set_conv_nth)
  have "p_threads s ! i \<noteq> Asleep" using D(7) [OF assms(2)] i(1) nth_mem by metis
  with i show ?thesis by (cases "p_threads s ! i") (auto intro: pool_step.check pool_step.finish)
qed

lemma joined_drained:
  assumes "pool_inv s" and "joined s"
  shows "p_queue s = []" and "mset (p_done s) = mset (p_submitted s)"
proof -
  note D = pool_invD [OF assms(1)]
  have ex: "set (p_threads s) = {Exited}" using assms(2) by (simp add: joined_def)
  then show q: "p_queue s = []" using D(6) by simp
  have "\<forall>st \<in> set (p_threads s). running st = {#}" using ex by simp
  then have "map running (p_threads s) = replicate (length (p_threads s)) {#}" by (intro replicate_eqI) auto
  then have "in_progress s = {#}" using sum_list_running_replicate [where 'a = 'a] by (simp add: in_progress_def map_replicate)
  with q D(2,3) show "mset (p_done s) = mset (p_submitted s)" by simp
qed

text \<open>An execution that starts in the destructor's loop of joins: the workers exit after finitely many steps.\<close>

lemma joining_ends:
  assumes "pool_inv (f 0)" and "p_prod (f 0) = Joining"
    and "\<And>i. pool_step (f i) (f (Suc i)) \<or> \<not> (\<exists>s. pool_step (f i) s) \<and> f (Suc i) = f i"
  shows "\<exists>i. joined (f i) \<and> p_queue (f i) = [] \<and> mset (p_done (f i)) = mset (p_submitted (f 0))"
proof -
  have inv: "pool_inv (f i) \<and> p_prod (f i) = Joining \<and> p_submitted (f i) = p_submitted (f 0)" for i
  proof (induction i)
    case 0
    then show ?case using assms(1,2) by simp
  next
    case (Suc i)
    then show ?case using assms(3) [of i] joining_step [of "f i" "f (Suc i)"] pool_step_inv by metis
  qed
  have "\<exists>i. joined (f i)"
  proof (rule ccontr)
    assume "\<nexists>i. joined (f i)"
    then have "pool_step (f i) (f (Suc i))" for i using assms(3) [of i] joining_progress inv by blast
    then have "(f (Suc i), f i) \<in> measure pool_work" for i using joining_step [of "f i" "f (Suc i)"] inv [of i] by simp
    then show False using wf_measure [of pool_work] by (metis wf_iff_no_infinite_down_chain)
  qed
  then show ?thesis using joined_drained inv by metis
qed

subsection \<open>Properties\<close>

text \<open>C14: in every reachable state of the pool, whatever the interleaving, the work is taken in the order
  in which it was queued, every item that was taken is either executed once or in the hands of exactly one
  worker, and no wakeup is lost: as long as work is queued, a notification is about to be sent or some
  worker is awake.\<close>

theorem pool_exactly_once:
  assumes "pool_reach n s"
  shows "p_taken s @ p_queue s = p_submitted s \<and>
    mset (p_taken s) = mset (p_done s) + in_progress s \<and>
    (p_queue s \<noteq> [] \<longrightarrow> p_prod s \<in> {Queued, Stopping} \<or> (\<exists>st \<in> set (p_threads s). st = Ready \<or> (\<exists>w. st = Running w)))"
proof -
  note D = pool_invD [OF pool_reach_inv [OF assms]]
  have "st = Ready \<or> (\<exists>w. st = Running w)" if "st \<noteq> Asleep" "st \<noteq> Exited" for st :: "'a worker"
    using that by (cases st) auto
  with D(2,3,8) show ?thesis by blast
qed

theorem pool_exactly_once_witness:
  "pool_reach 1 (queue_push (pool_init 1) (7 :: nat)) \<and>
   (p_prod (queue_push (pool_init 1) (7 :: nat)) \<in> {Queued, Stopping} \<or>
     (\<exists>st \<in> set (p_threads (queue_push (pool_init 1) (7 :: nat))). st = Ready \<or> (\<exists>w. st = Running w)))"
proof -
  have "p_prod (pool_init 1 :: nat pool) = Outside" by (simp add: pool_init_def)
  then have r: "pool_reach 1 (queue_push (pool_init 1) (7 :: nat))" by (blast intro: pool_reach.intros pool_step.push)
  from pool_exactly_once [OF this] r show ?thesis by (simp add: queue_push_def)
qed


text \<open>An execution with one worker and one item.\<close>

definition demo_pool :: "nat \<Rightarrow> nat worker \<Rightarrow> nat list \<Rightarrow> nat list \<Rightarrow> nat list \<Rightarrow> nat pool" where
  "demo_pool i st q t d = \<lparr>p_queue = q, p_stop = (i \<ge> 3), p_threads = [st],
     p_prod = (if i = 0 \<or> i = 2 then Outside else if i = 1 then Queued else if i = 3 then Stopping else Joining),
     p_submitted = (if i = 0 then [] else [0]), p_taken = t, p_done = d\<rparr>"

lemma demo_pool_reach: "pool_reach 1 (demo_pool 4 Ready [0] [] [])"
proof -
  have "pool_reach 1 (demo_pool 0 Ready [] [] [])"
    using pool_reach.init [where n = 1 and 'w = nat] by (simp add: pool_init_def demo_pool_def)
  moreover have "pool_step (demo_pool 0 Ready [] [] []) (demo_pool 1 Ready [0] [] [])"
    using pool_step.push [of "demo_pool 0 Ready [] [] []" 0] by (simp add: demo_pool_def queue_push_def)
  moreover have "pool_step (demo_pool 1 Ready [0] [] []) (demo_pool 2 Ready [0] [] [])"
    using pool_step.notify_none [of "demo_pool 1 Ready [0] [] []"] by (simp add: demo_pool_def)
  moreover have "pool_step (demo_pool 2 Ready [0] [] []) (demo_pool 3 Ready [0] [] [])"
    using pool_step.stop [of "demo_pool 2 Ready [0] [] []"] by (simp add: demo_pool_def stop_set_def)
  moreover have "pool_step (demo_pool 3 Ready [0] [] []) (demo_pool 4 Ready [0] [] [])"
    using pool_step.notify [of "demo_pool 3 Ready [0] [] []"] by (simp add: demo_pool_def notify_all_def wake_def)
  ultimately show ?thesis by (blast intro: pool_reach.step)
qed

definition demo_run :: "nat \<Rightarrow> nat pool" where
  "demo_run i = (if i = 0 then demo_pool 4 Ready [0] [] [] else if i = 1 then demo_pool 4 (Running 0) [] [0] []
     else if i = 2 then demo_pool 4 Ready [] [0] [0] else demo_pool 4 Exited [] [0] [0])"

lemma demo_run_step: "pool_step (demo_run i) (demo_run (Suc i)) \<or> \<not> (\<exists>s. pool_step (demo_run i) s) \<and> demo_run (Suc i) = demo_run i"
proof -
  consider "i = 0" | "i = 1" | "i = 2" | "i \<ge> 3" by linarith
  then show ?thesis
  proof cases
    case 1
    then show ?thesis using pool_step.check [of 0 "demo_run 0"]
      by (simp add: demo_run_def demo_pool_def worker_check_def set_worker_def)
  next
    case 2
    then show ?thesis using pool_step.finish [of 0 "demo_run 1" 0]
      by (simp add: demo_run_def demo_pool_def worker_finish_def set_worker_def)
  next
    case 3
    then show ?thesis using pool_step.check [of 0 "demo_run 2"]
      by (simp add: demo_run_def demo_pool_def worker_check_def set_worker_def)
  next
    case 4
    then show ?thesis by (auto simp: demo_run_def demo_pool_def elim!: pool_stepE)
  qed
qed


end
