(* ===== verification/Server_Shutdown.thy ===== *)
theory Server_Shutdown
  imports Server_Run Thread_Pool
begin

text \<open>
  The end of the server: its destructor, and the worker pool that finishes what the event loop handed
  to it. The pool of \<open>Thread_Pool\<close> and the database of \<open>Database\<close> are put together: the queue that the
  database keeps is the pool's work that is not done yet.
\<close>

subsection \<open>Destruction of the key space\<close>

text \<open>\<open>entry_del\<close> does not look at the index, so the entries can be destroyed while they are still
  linked in it.\<close>

lemma entry_del_map:
  assumes "entry_del (db\<lparr>d_map := m\<rparr>) p = Some db'"
  shows "entry_del (db\<lparr>d_map := m'\<rparr>) p = Some (db'\<lparr>d_map := m'\<rparr>)"
  using assms
  by (auto simp: entry_del_def entry_set_ttl_def entry_del_sync_def entry_free_def Let_def
      split: option.splits prod.splits if_splits bind_splits)

lemma entry_del_all_ok:
  assumes "db_view g A" and "distinct ps" and "\<forall>p \<in> set ps. p \<in> dom (lkeys g)"
  shows "\<exists>g' A'. entry_del_all (g\<lparr>d_map := m\<rparr>) ps = Some (g'\<lparr>d_map := m\<rparr>) \<and> db_view g' A' \<and>
    dom (lkeys g') = dom (lkeys g) - set ps"
  using assms
proof (induction ps arbitrary: g A)
  case Nil
  then show ?case by auto
next
  case (Cons p ps)
  then obtain k where k: "lkeys g p = Some k" by auto
  have i: "db_inv g" using Cons.prems(1) by (simp add: db_view_def)
  from hm.del_key [OF db_invD(2,3) [OF i] entry_eq_compares k] obtain m1 where
    m1: "hm_inv m1" "keyed_by (hm_mset m1) ((lkeys g)(p := None))" by blast
  from entry_del_ok [OF Cons.prems(1) k m1] obtain g1 where g1: "entry_del (g\<lparr>d_map := m1\<rparr>) p = Some g1"
    "db_view g1 (A(k := None))" "lkeys g1 = (lkeys g)(p := None)" by blast
  have "\<forall>q \<in> set ps. q \<in> dom (lkeys g1)" using Cons.prems(2,3) g1(3) by auto
  from Cons.IH [OF g1(2) _ this] Cons.prems(2) obtain g' A' where g': "entry_del_all (g1\<lparr>d_map := m\<rparr>) ps = Some (g'\<lparr>d_map := m\<rparr>)"
    "db_view g' A'" "dom (lkeys g') = dom (lkeys g1) - set ps" by auto
  have "entry_del_all (g\<lparr>d_map := m\<rparr>) (p # ps) = Some (g'\<lparr>d_map := m\<rparr>)"
    using entry_del_map [OF g1(1), of m] g'(1) by simp
  moreover have "dom (lkeys g') = dom (lkeys g) - set (p # ps)" using g'(3) g1(3) by auto
  ultimately show ?case using g'(2) by blast
qed

lemma collect_all: "chain_foreach collect_node ns acc = (True, acc @ map owner ns)"
  by (induction ns arbitrary: acc) (simp_all add: collect_node_def)

lemma server_destroy_ok:
  assumes v: "db_view db A"
  shows "\<exists>db'. server_destroy_db db = Some db' \<and> db_view db' Map.empty \<and> dom (d_entries db') = set (queued db')"
proof -
  have i: "db_inv db" using v by (simp add: db_view_def)
  note D = db_invD [OF i]
  let ?ns = "hm_nodes (d_map db)"
  have hi: "hmap_inv (d_map db)" using D(2) by (simp add: hm_inv_def)
  have fin: "finite (dom (lkeys db))" and m: "mset ?ns = image_mset (key_node (lkeys db)) (mset_set (dom (lkeys db)))"
    using D(3) by (simp_all add: keyed_by_def hm_mset_def)
  have "mset (map owner ?ns) = mset_set (dom (lkeys db))" using m by (simp add: multiset.map_comp comp_def)
  then have o: "distinct (map owner ?ns)" "set (map owner ?ns) = dom (lkeys db)"
    using fin by (metis count_mset_set(1,3) distinct_count_atmost_1 set_mset_mset finite_set_mset_mset_set)+
  have "\<forall>p \<in> set (map owner ?ns). p \<in> dom (lkeys db)" unfolding o(2) by blast
  from entry_del_all_ok [OF v o(1) this, of "d_map db"] obtain g' A' where g':
    "entry_del_all db (map owner ?ns) = Some (g'\<lparr>d_map := d_map db\<rparr>)" "db_view g' A'" "dom (lkeys g') = dom (lkeys db) - set (map owner ?ns)"
    by auto
  have l: "lkeys g' = Map.empty" using g'(3) unfolding o(2) by simp
  note G = db_invD [of g'] and inv' = g'(2) [unfolded db_view_def]
  let ?db = "g'\<lparr>d_map := hm_clear (d_map db)\<rparr>"
  have "server_destroy_db db = Some ?db"
    using g'(1) by (simp add: server_destroy_db_def hm_foreach_ok [OF hi] collect_all)
  moreover have "db_view ?db Map.empty"
    using inv' l unfolding db_view_def db_inv_def db_abs_def entries_ok_def by (auto simp: hm_clear_def keyed_by_def lkeys_Some)
  moreover have "dom (d_entries ?db) = set (queued ?db)"
  proof -
    have "p \<in> set (queued g')" if "d_entries g' p = Some e" for p e using l that lkeys_Some [of g' p "e_key e"] by auto
    moreover have "set (queued g') \<subseteq> dom (d_entries g')" using G(8) inv' by blast
    ultimately show ?thesis by auto
  qed
  ultimately show ?thesis by blast
qed

subsection \<open>Destruction of the connections\<close>

definition owned :: "addr option list \<Rightarrow> addr list" where
  "owned ps = concat (map (\<lambda>x. case x of None \<Rightarrow> [] | Some p \<Rightarrow> [p]) ps)"

lemma owned_simps [simp]: "owned [] = []" "owned (None # ps) = owned ps" "owned (Some p # ps) = p # owned ps"
  by (simp_all add: owned_def)

lemma set_owned: "set (owned ps) = {p. Some p \<in> set ps}"
proof (induction ps)
  case (Cons x ps)
  then show ?case by (cases x) auto
qed simp

lemma conns_destroy_ok:
  assumes "ring (s_links srv) (s_idle_list srv) xs" and "set xs = dom (s_conn srv)"
    and "dom (s_links srv) = insert (s_idle_list srv) (dom (s_conn srv))"
    and "distinct (owned ps)" and "set (owned ps) = dom (s_conn srv)"
  shows "\<exists>srv'. conns_destroy srv ps = Some srv' \<and> s_conn srv' = Map.empty \<and> s_db srv' = s_db srv \<and>
    s_closed srv' = s_closed srv @ map (\<lambda>p. c_fd (the (s_conn srv p))) (owned ps)"
  using assms
proof (induction ps arbitrary: srv xs)
  case Nil
  then have "s_conn srv = Map.empty" by (metis dom_eq_empty_conv list.set(1) owned_simps(1))
  then show ?case by simp
next
  case (Cons x ps)
  show ?case
  proof (cases x)
    case None
    with Cons show ?thesis by simp
  next
    case (Some p)
    with Cons.prems(5) obtain c where p: "s_conn srv p = Some c" by auto
    from conn_destroy_eff [OF Cons.prems(1-3) p] obtain l where l: "dlist_detach (s_links srv) p = Some l"
      "ring (l(p := None)) (s_idle_list srv) (remove1 p xs)"
      "dom (l(p := None)) = insert (s_idle_list srv) (dom ((s_conn srv)(p := None)))" by blast
    let ?srv = "srv\<lparr>s_closed := s_closed srv @ [c_fd c], s_links := l(p := None), s_conn := (s_conn srv)(p := None)\<rparr>"
    have d: "conn_destroy srv p = Some ?srv" using p l(1) by (simp add: conn_destroy_def)
    have dist: "distinct xs" using Cons.prems(1) by (simp add: ring_def)
    have xs: "set (remove1 p xs) = dom ((s_conn srv)(p := None))" using Cons.prems(2) dist by simp
    have ps: "p \<notin> set (owned ps)" "distinct (owned ps)" "set (owned ps) = dom ((s_conn srv)(p := None))"
      using Cons.prems(4,5) Some by auto
    have "ring (s_links ?srv) (s_idle_list ?srv) (remove1 p xs)" "set (remove1 p xs) = dom (s_conn ?srv)"
      "dom (s_links ?srv) = insert (s_idle_list ?srv) (dom (s_conn ?srv))" "set (owned ps) = dom (s_conn ?srv)"
      using l(2,3) xs ps(3) by simp_all
    from Cons.IH [OF this(1-3) ps(2) this(4)] obtain srv' where r: "conns_destroy ?srv ps = Some srv'"
      "s_conn srv' = Map.empty" "s_db srv' = s_db srv"
      "s_closed srv' = s_closed srv @ [c_fd c] @ map (\<lambda>q. c_fd (the (((s_conn srv)(p := None)) q))) (owned ps)" by auto
    have "map (\<lambda>q. c_fd (the (((s_conn srv)(p := None)) q))) (owned ps) = map (\<lambda>q. c_fd (the (s_conn srv q))) (owned ps)"
      using ps(1) by (intro map_cong) auto
    with r d p Some show ?thesis by simp
  qed
qed

lemma owned_index:
  assumes "\<And>i p. i < length ps \<Longrightarrow> ps ! i = Some p \<Longrightarrow> g p = i + k"
  shows "map g (owned ps) = map (\<lambda>i. i + k) (filter (\<lambda>i. ps ! i \<noteq> None) [0..<length ps])"
  using assms
proof (induction ps arbitrary: k)
  case (Cons x ps)
  have shift: "[0..<length (x # ps)] = 0 # map Suc [0..<length ps]" by (simp add: upt_conv_Cons map_Suc_upt del: upt_Suc)
  have "g p = i + Suc k" if "i < length ps" "ps ! i = Some p" for i p using Cons.prems [of "Suc i" p] that by simp
  from Cons.IH [OF this] have "map g (owned ps) = map (\<lambda>i. i + k) (filter (\<lambda>i. (x # ps) ! i \<noteq> None) (map Suc [0..<length ps]))"
    by (simp add: filter_map comp_def)
  moreover have "g p = k" if "x = Some p" for p using Cons.prems [of 0 p] that by simp
  ultimately show ?case unfolding shift by (cases x) simp_all
qed simp

lemma owned_conns:
  assumes ok: "conns_ok srv xs"
  shows "distinct (map (\<lambda>p. c_fd (the (s_conn srv p))) (owned (s_conns srv)))" and "set (owned (s_conns srv)) = dom (s_conn srv)"
proof -
  note D = conns_okD(6) [OF ok]
  have own: "(\<exists>i. vec_at (s_conns srv) i = Some (Some p)) \<longleftrightarrow> p \<in> dom (s_conn srv)" for p unfolding D by auto
  then show "set (owned (s_conns srv)) = dom (s_conn srv)"
    unfolding set_owned by (auto simp: in_set_conv_nth vec_at_eq_Some_iff)
  have "c_fd (the (s_conn srv p)) = i + 0" if "i < length (s_conns srv)" "s_conns srv ! i = Some p" for i p
  proof -
    have "vec_at (s_conns srv) i = Some (Some p)" using that by (simp add: vec_at_eq_Some_iff)
    then show ?thesis unfolding D by auto
  qed
  from owned_index [of "s_conns srv", OF this] show "distinct (map (\<lambda>p. c_fd (the (s_conn srv p))) (owned (s_conns srv)))"
    by simp
qed

subsection \<open>The pool and the database\<close>

text \<open>The threads of the program. The event loop takes the database from one consistent state to another and may
  hand an entry to the pool (\<open>loop\<close>, \<open>queue\<close>); the pool makes a step that runs no task (\<open>thread\<close>); a
  worker runs its task, which is \<open>entry_del_task\<close> on the entry it has taken (\<open>task\<close>).\<close>

inductive system_step :: "addr pool \<times> db \<Rightarrow> addr pool \<times> db \<Rightarrow> bool" where
  loop: "p_prod s = Outside \<Longrightarrow> db_view db' A \<Longrightarrow> queued db' = queued db \<Longrightarrow> system_step (s, db) (s, db')"
| queue: "p_prod s = Outside \<Longrightarrow> db_view db' A \<Longrightarrow> queued db' = queued db @ [ent] \<Longrightarrow> system_step (s, db) (queue_push s ent, db')"
| thread: "pool_step s s' \<Longrightarrow> p_submitted s' = p_submitted s \<Longrightarrow> p_done s' = p_done s \<Longrightarrow> system_step (s, db) (s', db)"
| task: "i < length (p_threads s) \<Longrightarrow> p_threads s ! i = Running ent \<Longrightarrow> worker_step db ent = Some db' \<Longrightarrow>
    system_step (s, db) (worker_finish s i ent, db')"

inductive system_reach :: "nat \<Rightarrow> addr pool \<times> db \<Rightarrow> bool" for n where
  start: "db_view db A \<Longrightarrow> queued db = [] \<Longrightarrow> system_reach n (pool_init n, db)"
| step: "system_reach n x \<Longrightarrow> system_step x y \<Longrightarrow> system_reach n y"

definition system_inv :: "addr pool \<times> db \<Rightarrow> bool" where
  "system_inv x \<longleftrightarrow> pool_inv (fst x) \<and> (\<exists>A. db_view (snd x) A) \<and>
     mset (p_submitted (fst x)) = mset (p_done (fst x)) + mset (queued (snd x))"

lemma running_queued:
  assumes inv: "system_inv (s, db)" and w: "i < length (p_threads s)" "p_threads s ! i = Running ent"
  shows "ent \<in> set (queued db)"
proof -
  have p: "pool_inv s" and q: "mset (p_submitted s) = mset (p_done s) + mset (queued db)"
    using inv by (simp_all add: system_inv_def)
  from in_progress_update [OF w, of Ready] have "ent \<in># in_progress s" by (metis add_mset_add_single add.right_neutral running.simps(1,2) union_single_eq_member)
  moreover have "mset (p_submitted s) = mset (p_done s) + in_progress s + mset (p_queue s)"
    using pool_invD(2,3) [OF p] by (metis mset_append)
  ultimately have "ent \<in># mset (queued db)" using q by auto
  then show ?thesis by simp
qed

lemma system_step_inv:
  assumes "system_step x y" and "system_inv x"
  shows "system_inv y"
  using assms
proof (induction rule: system_step.induct)
  case (task i s ent db db')
  note q = running_queued [OF task(4,1,2)]
  from task(4) obtain A where v: "db_view db A" and p: "pool_inv s" and m: "mset (p_submitted s) = mset (p_done s) + mset (queued db)"
    by (auto simp: system_inv_def)
  from worker_step_ok [OF v q] task(3) have d: "db_view db' A" "queued db' = remove1 ent (queued db)" by auto
  have "mset (queued db) = add_mset ent (mset (queued db'))" using q d(2) by simp
  moreover have "pool_inv (worker_finish s i ent)" using pool_step_inv [OF pool_step.finish [OF task(1,2)] p] .
  ultimately show ?case using d(1) m by (auto simp: system_inv_def worker_finish_def set_worker_def)
next
  case (queue s db' A db ent)
  then show ?case using pool_step_inv [OF pool_step.push [OF queue(1), of ent]]
    by (auto simp: system_inv_def queue_push_def)
qed (auto simp: system_inv_def intro: pool_step_inv)

lemma system_reach_inv: "system_reach n x \<Longrightarrow> system_inv x"
proof (induction rule: system_reach.induct)
  case (start db A)
  then show ?case using pool_inv_init [of n] by (auto simp: system_inv_def) (simp add: pool_init_def Let_def)
qed (rule system_step_inv)

text \<open>While the destructor joins the workers, every step of the system is one of the pool, and every step
  that the pool can make the system can make.\<close>

lemma joining_system_step:
  assumes "system_step (s, db) y" and "p_prod s = Joining"
  shows "pool_step s (fst y)"
  using assms by (cases rule: system_step.cases) (auto intro: pool_step.finish)

lemma joining_pool_step:
  assumes "pool_step s s'" and "system_inv (s, db)" and "p_prod s = Joining"
  shows "\<exists>y. system_step (s, db) y"
  using assms(1)
proof (cases rule: pool_step.cases)
  case (finish i w)
  from assms(2) obtain A where v: "db_view db A" by (auto simp: system_inv_def)
  from worker_step_ok [OF v running_queued [OF assms(2) finish(2,3)]] system_step.task [OF finish(2,3)] show ?thesis by blast
next
  case (check i)
  have "p_submitted s' = p_submitted s" "p_done s' = p_done s"
    unfolding check(1) by (simp_all add: worker_check_def set_worker_def split: list.splits)
  with system_step.thread [OF assms(1)] show ?thesis by blast
qed (use assms(1,3) system_step.thread [of s s' db] in \<open>auto simp: set_worker_def\<close>)

text \<open>The entries that are left are freed by the workers.\<close>

lemma joining_frees:
  assumes "system_step (s, db) (s', db')" and "system_inv (s, db)" and "p_prod s = Joining" and "dom (d_entries db) = set (queued db)"
  shows "dom (d_entries db') = set (queued db')"
  using assms(1)
proof (cases rule: system_step.cases)
  case (task i ent)
  from assms(2) obtain A where v: "db_view db A" and i: "db_inv db" by (auto simp: system_inv_def db_view_def)
  note q = running_queued [OF assms(2) task(2,3)]
  from worker_step_ok [OF v q] task(4) have "queued db' = remove1 ent (queued db)" "dom (d_entries db') = dom (d_entries db) - {ent}" by auto
  with assms(4) db_invD(7) [OF i] show ?thesis by simp
qed (use assms(3,4) in simp_all)

lemma joining_execution:
  assumes inv: "system_inv (f 0)" and j: "p_prod (fst (f 0)) = Joining" and d: "dom (d_entries (snd (f 0))) = set (queued (snd (f 0)))"
    and step: "\<And>i. system_step (f i) (f (Suc i)) \<or> \<not> (\<exists>y. system_step (f i) y) \<and> f (Suc i) = f i"
  shows "\<exists>i. joined (fst (f i)) \<and> d_entries (snd (f i)) = Map.empty"
proof -
  have all: "system_inv (f i) \<and> p_prod (fst (f i)) = Joining \<and> p_submitted (fst (f i)) = p_submitted (fst (f 0)) \<and>
    dom (d_entries (snd (f i))) = set (queued (snd (f i)))" for i
  proof (induction i)
    case (Suc i)
    obtain s db where f: "f i = (s, db)" by fastforce
    obtain s' db' where f': "f (Suc i) = (s', db')" by fastforce
    show ?case
    proof (cases "f (Suc i) = f i")
      case False
      then have st: "system_step (s, db) (s', db')" using step [of i] f f' by auto
      from Suc f have s: "system_inv (s, db)" "p_prod s = Joining" "dom (d_entries db) = set (queued db)" by simp_all
      have "pool_step s s'" using joining_system_step [OF st s(2)] by simp
      from joining_step [OF this] s have "p_prod s' = Joining" "p_submitted s' = p_submitted s" by (simp_all add: system_inv_def)
      with system_step_inv [OF st s(1)] joining_frees [OF st s] Suc f f' show ?thesis by simp
    qed (use Suc in simp)
  qed (use inv j d in simp)
  have "pool_step (fst (f i)) (fst (f (Suc i))) \<or> \<not> (\<exists>s. pool_step (fst (f i)) s) \<and> fst (f (Suc i)) = fst (f i)" for i
    using step [of i] joining_system_step [of "fst (f i)" "snd (f i)"] joining_pool_step [of "fst (f i)" _ "snd (f i)"] all [of i]
    by (metis prod.collapse)
  with joining_ends [of "fst \<circ> f"] inv j obtain i where i: "joined (fst (f i))" "mset (p_done (fst (f i))) = mset (p_submitted (fst (f 0)))"
    by (auto simp: system_inv_def)
  with all [of i] have "queued (snd (f i)) = []" unfolding system_inv_def by (metis add_cancel_right_right mset_zero_iff)
  with all [of i] i(1) show ?thesis by auto
qed

subsection \<open>Properties\<close>



text \<open>C22: Nothing is leaked at the end. The destructor of the server destroys every entry of the key space and every
  connection exactly once: each descriptor of a connection is closed once, and the entries that are still allocated are
  exactly those handed to the worker pool.\<close>

theorem server_destroy_frees_all:
  assumes "server_run clk srv tr"
  shows "\<exists>srv' fds. server_destroy srv = Some srv' \<and> s_conn srv' = Map.empty \<and> d_map (s_db srv') = hmap_empty \<and>
    dom (d_entries (s_db srv')) = set (queued (s_db srv')) \<and> distinct (queued (s_db srv')) \<and>
    s_closed srv' = s_closed srv @ fds \<and> distinct fds \<and> set fds = {c_fd c | p c. s_conn srv p = Some c}"
proof -
  from server_run_inv [OF assms] obtain n s xs where inv: "server_inv n srv s xs" by blast
  from server_invD(1) [OF inv] have v: "db_view (s_db srv) (fst s)" by (simp add: serves_def)
  from server_destroy_ok [OF v] obtain db' where d: "server_destroy_db (s_db srv) = Some db'" "db_view db' Map.empty"
    "dom (d_entries db') = set (queued db')" by blast
  have m: "d_map db' = hmap_empty" using d(1) by (auto simp: server_destroy_db_def hm_clear_def split: bind_splits)
  have q: "distinct (queued db')" using d(2) db_invD(7) unfolding db_view_def by blast
  note ok = server_invD(3) [OF inv] and C = conns_okD [OF server_invD(3) [OF inv]] and O = owned_conns [OF server_invD(3) [OF inv]]
  let ?fds = "map (\<lambda>p. c_fd (the (s_conn srv p))) (owned (s_conns srv))"
  from conns_destroy_ok [of "srv\<lparr>s_db := db'\<rparr>" xs "s_conns srv"] C(1-3) O obtain srv' where
    c: "conns_destroy (srv\<lparr>s_db := db'\<rparr>) (s_conns srv) = Some srv'" "s_conn srv' = Map.empty" "s_db srv' = db'" "s_closed srv' = s_closed srv @ ?fds"
    by (auto simp: distinct_map)
  have "set ?fds = {c_fd c | p c. s_conn srv p = Some c}" using O(2) by (auto simp: image_iff) force+
  with c d(1,3) m q O(1) show ?thesis by (intro exI [of _ "srv'\<lparr>s_conns := []\<rparr>"] exI [of _ ?fds]) (simp add: server_destroy_def)
qed

theorem server_destroy_frees_all_witness:
  "\<exists>srv'. server_destroy demo_server = Some srv' \<and> dom (d_entries (s_db srv')) = set (queued (s_db srv'))"
  using server_destroy_frees_all [OF demo_run] by blast

text \<open>C19: The workers free the rest. Once the destructor of the pool joins its workers, every execution, however it is scheduled,
  reaches a state in which all workers have exited and no entry is allocated any more.\<close>

theorem shutdown_frees_all:
  assumes "db_view db A" and "server_destroy_db db = Some db'" and "f 0 = (s, db')"
    and "pool_reach n s" and "p_prod s = Joining" and "mset (p_submitted s) = mset (p_done s) + mset (queued db')"
    and "\<And>i. system_step (f i) (f (Suc i)) \<or> \<not> (\<exists>y. system_step (f i) y) \<and> f (Suc i) = f i"
  shows "\<exists>i. joined (fst (f i)) \<and> d_entries (snd (f i)) = Map.empty"
proof (rule joining_execution)
  from server_destroy_ok [OF assms(1)] assms(2) have d: "db_view db' Map.empty" "dom (d_entries db') = set (queued db')" by auto
  show "system_inv (f 0)" using d(1) pool_reach_inv [OF assms(4)] assms(3,6) by (auto simp: system_inv_def)
  show "dom (d_entries (snd (f 0))) = set (queued (snd (f 0)))" using d(2) assms(3) by simp
qed (use assms in auto)

lemma demo_destroy: "server_destroy_db demo_queued = Some demo_queued"
proof -
  have "hm_foreach collect_node hmap_empty [] = Some []" by (simp add: hm_foreach_ok hmap_inv_empty)
  then show ?thesis by (simp add: server_destroy_db_def demo_queued_def db_init_def entry_new_def hm_clear_def)
qed

theorem shutdown_frees_all_witness:
  "\<exists>db i. server_destroy_db demo_queued = Some demo_queued \<and> worker_step demo_queued 0 = Some db \<and>
     joined (demo_run i) \<and> d_entries db = Map.empty"
proof -
  from worker_step_ok [OF demo_queued_view, of 0] obtain db where db: "worker_step demo_queued 0 = Some db"
    by (auto simp: demo_queued_def)
  let ?f = "\<lambda>i. (demo_run i, if i \<le> 1 then demo_queued else db)"
  have "system_step (?f i) (?f (Suc i)) \<or> \<not> (\<exists>y. system_step (?f i) y) \<and> ?f (Suc i) = ?f i" for i
  proof (cases "i = 1")
    case True
    have "system_step (?f 1) (worker_finish (demo_run 1) 0 0, db)"
      using system_step.task [of 0 "demo_run 1" 0, OF _ _ db] by (simp add: demo_run_def demo_pool_def)
    moreover have "worker_finish (demo_run 1) 0 0 = demo_run 2"
      by (simp add: demo_run_def demo_pool_def worker_finish_def set_worker_def)
    ultimately show ?thesis using True by (simp add: numeral_2_eq_2)
  next
    case False
    then have same: "snd (?f (Suc i)) = snd (?f i)" by auto
    have j: "p_prod (demo_run i) = Joining" by (simp add: demo_run_def demo_pool_def)
    show ?thesis using demo_run_step [of i]
    proof
      assume "pool_step (demo_run i) (demo_run (Suc i))"
      moreover have "p_submitted (demo_run (Suc i)) = p_submitted (demo_run i)" "p_done (demo_run (Suc i)) = p_done (demo_run i)"
        using False by (auto simp: demo_run_def demo_pool_def)
      ultimately show ?thesis using system_step.thread same by auto
    next
      assume "\<not> (\<exists>s. pool_step (demo_run i) s) \<and> demo_run (Suc i) = demo_run i"
      with same joining_system_step [OF _ j] show ?thesis by auto
    qed
  qed
  moreover have "demo_run 0 = demo_pool 4 Ready [0] [] []" by (simp add: demo_run_def)
  ultimately obtain i where i: "joined (fst (?f i))" "d_entries (snd (?f i)) = Map.empty"
    using shutdown_frees_all [OF demo_queued_view demo_destroy, of ?f "demo_run 0" 1] demo_pool_reach
    by (auto simp: demo_pool_def demo_queued_def queued_def)
  moreover have "\<not> i \<le> 1" using i(1) by (auto simp: joined_def demo_run_def demo_pool_def split: if_splits)
  ultimately show ?thesis using demo_destroy db by auto
qed

end
