(* ===== verification/Socket.thy ===== *)
theory Socket
  imports Prelude
begin

unbundle bit_operations_syntax

text \<open>
  The owner of a file descriptor (\<open>include/net/socket.h\<close>, \<open>src/net/socket.cpp\<close>).
  The state has the live \<open>Socket\<close> objects with their member \<open>fd_\<close>, and of the system the
  open descriptors with their status flags. Closing a descriptor that is not open is the double
  close that the class exists to rule out: the model returns \<open>None\<close> there, as it does for an
  operation on an object that is not alive and for \<open>die\<close>.
\<close>

record sock_state =
  fd_of :: "addr \<Rightarrow> int option"
  fd_flags :: "int \<Rightarrow> u32 option"

definition sys_close :: "int \<Rightarrow> sock_state \<Rightarrow> sock_state option" where
  "sys_close fd st =
     (case fd_flags st fd of None \<Rightarrow> None | Some _ \<Rightarrow> Some (st\<lparr>fd_flags := (fd_flags st)(fd := None)\<rparr>))"

subsection \<open>The operations\<close>

text \<open>The constructors: empty, and adopting a descriptor.\<close>

definition socket_empty :: "addr \<Rightarrow> sock_state \<Rightarrow> sock_state option" where
  "socket_empty a st =
     (if fd_of st a = None then Some (st\<lparr>fd_of := (fd_of st)(a \<mapsto> -1)\<rparr>) else None)"

definition socket_adopt :: "addr \<Rightarrow> int \<Rightarrow> sock_state \<Rightarrow> sock_state option" where
  "socket_adopt a fd st =
     (if fd_of st a = None then Some (st\<lparr>fd_of := (fd_of st)(a \<mapsto> fd)\<rparr>) else None)"

text \<open>The move constructor: take the descriptor and leave the other socket empty.\<close>

definition socket_move :: "addr \<Rightarrow> addr \<Rightarrow> sock_state \<Rightarrow> sock_state option" where
  "socket_move a other st =
     (if fd_of st a \<noteq> None then None
      else do {
        fd \<leftarrow> fd_of st other;
        Some (st\<lparr>fd_of := (fd_of st)(a \<mapsto> fd, other \<mapsto> -1)\<rparr>)
      })"

definition socket_destroy :: "addr \<Rightarrow> sock_state \<Rightarrow> sock_state option" where
  "socket_destroy a st = do {
     fd \<leftarrow> fd_of st a;
     st \<leftarrow> (if fd \<ge> 0 then sys_close fd st else Some st);
     Some (st\<lparr>fd_of := (fd_of st)(a := None)\<rparr>)
   }"

text \<open>\<open>operator=\<close> for moves, with its check for self-assignment.\<close>

definition socket_assign :: "addr \<Rightarrow> addr \<Rightarrow> sock_state \<Rightarrow> sock_state option" where
  "socket_assign a other st = do {
     fd \<leftarrow> fd_of st a;
     ofd \<leftarrow> fd_of st other;
     if a \<noteq> other then do {
       st \<leftarrow> (if fd \<ge> 0 then sys_close fd st else Some st);
       Some (st\<lparr>fd_of := (fd_of st)(a \<mapsto> ofd, other \<mapsto> -1)\<rparr>)
     } else Some st
   }"

definition socket_valid :: "addr \<Rightarrow> sock_state \<Rightarrow> bool option" where
  "socket_valid a st = map_option (\<lambda>fd. fd \<ge> 0) (fd_of st a)"

definition socket_release :: "addr \<Rightarrow> sock_state \<Rightarrow> (int \<times> sock_state) option" where
  "socket_release a st = do {
     t \<leftarrow> fd_of st a;
     Some (t, st\<lparr>fd_of := (fd_of st)(a \<mapsto> -1)\<rparr>)
   }"

definition socket_reset :: "addr \<Rightarrow> int \<Rightarrow> sock_state \<Rightarrow> sock_state option" where
  "socket_reset a fd st = do {
     old \<leftarrow> fd_of st a;
     st \<leftarrow> (if old \<ge> 0 then sys_close old st else Some st);
     Some (st\<lparr>fd_of := (fd_of st)(a \<mapsto> fd)\<rparr>)
   }"

text \<open>\<open>set_nonblocking\<close>, with the value of \<open>O_NONBLOCK\<close> and whether setting the flags succeeds;
  reading the flags fails exactly on a descriptor that is not open.\<close>

definition socket_set_nonblocking :: "u32 \<Rightarrow> bool \<Rightarrow> addr \<Rightarrow> sock_state \<Rightarrow> sock_state option" where
  "socket_set_nonblocking o_nonblock setfl_ok a st = do {
     fd \<leftarrow> fd_of st a;
     flags \<leftarrow> fd_flags st fd;
     if \<not> setfl_ok then None
     else Some (st\<lparr>fd_flags := (fd_flags st)(fd \<mapsto> flags OR o_nonblock)\<rparr>)
   }"

subsection \<open>Programs that use sockets\<close>

text \<open>What a program does: the operations above, and the system handing out a new descriptor
  or the program closing one by itself.\<close>

datatype sock_op =
    Open int u32
  | Close int
  | Empty addr
  | Adopt addr int
  | Move addr addr
  | Destroy addr
  | Assign addr addr
  | Release addr
  | Reset addr int
  | Nonblock u32 addr

fun sock_exec :: "sock_op \<Rightarrow> sock_state \<Rightarrow> sock_state option" where
  "sock_exec (Open fd fl) st = Some (st\<lparr>fd_flags := (fd_flags st)(fd \<mapsto> fl)\<rparr>)"
| "sock_exec (Close fd) st = sys_close fd st"
| "sock_exec (Empty a) st = socket_empty a st"
| "sock_exec (Adopt a fd) st = socket_adopt a fd st"
| "sock_exec (Move a b) st = socket_move a b st"
| "sock_exec (Destroy a) st = socket_destroy a st"
| "sock_exec (Assign a b) st = socket_assign a b st"
| "sock_exec (Release a) st = map_option snd (socket_release a st)"
| "sock_exec (Reset a fd) st = socket_reset a fd st"
| "sock_exec (Nonblock fl a) st = socket_set_nonblocking fl True a st"

text \<open>A descriptor that is open and that no socket owns.\<close>

definition unowned :: "sock_state \<Rightarrow> int \<Rightarrow> bool" where
  "unowned st fd \<longleftrightarrow> 0 \<le> fd \<and> fd_flags st fd \<noteq> None \<and> (\<forall>a. fd_of st a \<noteq> Some fd)"

text \<open>What the class asks of its user: live objects where one is used, memory that is free where
  one is made, and descriptors to adopt that are open and owned by nobody. Nothing is asked about
  the order of moves, assignments, resets, releases and destructions.\<close>

fun allowed :: "sock_op \<Rightarrow> sock_state \<Rightarrow> bool" where
  "allowed (Open fd fl) st \<longleftrightarrow> 0 \<le> fd \<and> fd_flags st fd = None"
| "allowed (Close fd) st \<longleftrightarrow> unowned st fd"
| "allowed (Empty a) st \<longleftrightarrow> fd_of st a = None"
| "allowed (Adopt a fd) st \<longleftrightarrow> fd_of st a = None \<and> unowned st fd"
| "allowed (Move a b) st \<longleftrightarrow> fd_of st a = None \<and> fd_of st b \<noteq> None"
| "allowed (Destroy a) st \<longleftrightarrow> fd_of st a \<noteq> None"
| "allowed (Assign a b) st \<longleftrightarrow> fd_of st a \<noteq> None \<and> fd_of st b \<noteq> None"
| "allowed (Release a) st \<longleftrightarrow> fd_of st a \<noteq> None"
| "allowed (Reset a fd) st \<longleftrightarrow> fd_of st a \<noteq> None \<and> (fd < 0 \<or> unowned st fd)"
| "allowed (Nonblock fl a) st \<longleftrightarrow> socket_valid a st = Some True"

inductive sock_reach :: "sock_state \<Rightarrow> bool" where
  start: "sock_reach \<lparr>fd_of = Map.empty, fd_flags = fl\<rparr>"
| step: "sock_reach st \<Longrightarrow> allowed op st \<Longrightarrow> sock_exec op st = Some st' \<Longrightarrow> sock_reach st'"

subsection \<open>Ownership\<close>

text \<open>Every descriptor a socket owns is open, and no two sockets own the same one.\<close>

definition sock_inv :: "sock_state \<Rightarrow> bool" where
  "sock_inv st \<longleftrightarrow>
     (\<forall>a fd. fd_of st a = Some fd \<longrightarrow> 0 \<le> fd \<longrightarrow>
       fd_flags st fd \<noteq> None \<and> (\<forall>b. fd_of st b = Some fd \<longrightarrow> b = a))"

lemmas socket_defs = socket_empty_def socket_adopt_def socket_move_def socket_destroy_def socket_assign_def
  socket_release_def socket_reset_def socket_set_nonblocking_def socket_valid_def sys_close_def unowned_def

lemma sock_invD:
  assumes "sock_inv st" and "fd_of st a = Some fd" and "0 \<le> fd"
  shows "\<exists>fl. fd_flags st fd = Some fl" and "fd_of st b = Some fd \<Longrightarrow> b = a"
  using assms unfolding sock_inv_def by auto

lemma sock_invI:
  assumes "\<And>a fd. fd_of st a = Some fd \<Longrightarrow> 0 \<le> fd \<Longrightarrow> fd_flags st fd \<noteq> None"
    and "\<And>a b fd. fd_of st a = Some fd \<Longrightarrow> fd_of st b = Some fd \<Longrightarrow> 0 \<le> fd \<Longrightarrow> b = a"
  shows "sock_inv st"
  using assms unfolding sock_inv_def by blast

text \<open>Closing what a socket owns succeeds, and what every other socket owns stays open: the
  socket may then be given any descriptor that no other one has.\<close>

lemma close_owned:
  assumes "sock_inv st" and "fd_of st a = Some old"
  shows "\<exists>st1. (if old \<ge> 0 then sys_close old st else Some st) = Some st1 \<and> fd_of st1 = fd_of st \<and>
    (\<forall>fd. fd \<noteq> old \<longrightarrow> fd_flags st1 fd = fd_flags st fd)"
  using sock_invD(1) [OF assms] by (auto simp: sys_close_def)

lemma give_inv:
  assumes inv: "sock_inv st" and a: "fd_of st a = Some old \<or> fd_of st a = None \<and> old = -1"
    and fl: "\<And>fd. fd \<noteq> old \<Longrightarrow> fd_flags st1 fd = fd_flags st fd"
    and new: "new = None \<or> (\<exists>fd. new = Some fd \<and> (fd < 0 \<or> unowned st fd))"
  shows "sock_inv (st1\<lparr>fd_of := (fd_of st)(a := new)\<rparr>)"
proof (rule sock_invI)
  fix b fd assume b: "fd_of (st1\<lparr>fd_of := (fd_of st)(a := new)\<rparr>) b = Some fd" "0 \<le> fd"
  show "fd_flags (st1\<lparr>fd_of := (fd_of st)(a := new)\<rparr>) fd \<noteq> None"
  proof (cases "b = a")
    case True
    with b new have u: "unowned st fd" by auto
    with a b(2) have "fd \<noteq> old" by (auto simp: unowned_def)
    with u fl show ?thesis by (simp add: unowned_def)
  next
    case False
    with b have own: "fd_of st b = Some fd" by simp
    with a b(2) False sock_invD(2) [OF inv own b(2), of a] have "fd \<noteq> old" by auto
    with fl sock_invD(1) [OF inv own b(2)] show ?thesis by simp
  qed
  fix c assume "fd_of (st1\<lparr>fd_of := (fd_of st)(a := new)\<rparr>) c = Some fd"
  with b new show "c = b" using sock_invD(2) [OF inv] by (auto simp: unowned_def split: if_splits)
qed

text \<open>The socket \<open>b\<close> gives up its descriptor, which no socket owns from then on.\<close>

lemma take_inv:
  assumes inv: "sock_inv st" and b: "fd_of st b = Some fd"
  shows "sock_inv (st\<lparr>fd_of := (fd_of st)(b \<mapsto> -1)\<rparr>)"
    and "fd < 0 \<or> unowned (st\<lparr>fd_of := (fd_of st)(b \<mapsto> -1)\<rparr>) fd"
  using give_inv [OF inv disjI1 [OF b], of st "Some (-1)"] sock_invD [OF inv b]
  by (auto simp: unowned_def not_le)

lemma socket_assign_inv:
  assumes inv: "sock_inv st" and a: "fd_of st a = Some old" and b: "fd_of st b = Some new"
  shows "\<exists>st'. socket_assign a b st = Some st' \<and> sock_inv st'"
proof (cases "a = b")
  case True
  with a inv show ?thesis by (simp add: socket_assign_def)
next
  case False
  let ?st = "st\<lparr>fd_of := (fd_of st)(b \<mapsto> -1)\<rparr>"
  have a': "fd_of ?st a = Some old" using a False by simp
  from close_owned [OF inv a] obtain st1 where 1: "(if old \<ge> 0 then sys_close old st else Some st) = Some st1"
    "fd_of st1 = fd_of st" "\<forall>fd. fd \<noteq> old \<longrightarrow> fd_flags st1 fd = fd_flags st fd" by blast
  have "sock_inv (st1\<lparr>fd_of := (fd_of ?st)(a := Some new)\<rparr>)"
    by (rule give_inv [OF take_inv(1) [OF inv b] disjI1 [OF a']]) (use 1(3) take_inv(2) [OF inv b] in simp_all)
  moreover have "(fd_of st)(a \<mapsto> new, b \<mapsto> -1) = (fd_of ?st)(a := Some new)" using False by auto
  ultimately show ?thesis using 1 a b False by (simp add: socket_assign_def)
qed

lemma socket_move_inv:
  assumes inv: "sock_inv st" and a: "fd_of st a = None" and b: "fd_of st b = Some new"
  shows "\<exists>st'. socket_move a b st = Some st' \<and> sock_inv st'"
proof -
  let ?st = "st\<lparr>fd_of := (fd_of st)(b \<mapsto> -1)\<rparr>"
  have ab: "a \<noteq> b" using a b by auto
  have "sock_inv (st\<lparr>fd_of := (fd_of ?st)(a := Some new)\<rparr>)"
    by (rule give_inv [OF take_inv(1) [OF inv b], of _ "-1"]) (use a ab take_inv(2) [OF inv b] in simp_all)
  moreover have "(fd_of st)(a \<mapsto> new, b \<mapsto> -1) = (fd_of ?st)(a := Some new)" using ab by auto
  ultimately show ?thesis using a b by (simp add: socket_move_def)
qed

lemma socket_close_inv:
  assumes inv: "sock_inv st" and a: "fd_of st a = Some old"
  shows "\<exists>st'. socket_destroy a st = Some st' \<and> sock_inv st'"
    and "fd < 0 \<or> unowned st fd \<Longrightarrow> \<exists>st'. socket_reset a fd st = Some st' \<and> sock_inv st'"
proof -
  from close_owned [OF inv a] obtain st1 where 1: "(if old \<ge> 0 then sys_close old st else Some st) = Some st1"
    "fd_of st1 = fd_of st" "\<forall>fd. fd \<noteq> old \<longrightarrow> fd_flags st1 fd = fd_flags st fd" by blast
  note give = give_inv [OF inv disjI1 [OF a], of st1]
  show "\<exists>st'. socket_destroy a st = Some st' \<and> sock_inv st'"
    using 1 give [of None] a by (simp add: socket_destroy_def)
  assume "fd < 0 \<or> unowned st fd"
  then show "\<exists>st'. socket_reset a fd st = Some st' \<and> sock_inv st'"
    using 1 give [of "Some fd"] a by (simp add: socket_reset_def)
qed

lemma sock_exec_inv:
  assumes inv: "sock_inv st" and ok: "allowed op st"
  shows "\<exists>st'. sock_exec op st = Some st' \<and> sock_inv st'"
proof (cases op)
  case (Release a)
  with ok obtain old where a: "fd_of st a = Some old" by auto
  with take_inv(1) [OF inv a] Release show ?thesis by (simp add: socket_release_def)
next
  case (Adopt a fd)
  with ok give_inv [OF inv, of a "-1" st "Some fd"] show ?thesis by (simp add: socket_adopt_def)
next
  case (Empty a)
  with ok give_inv [OF inv, of a "-1" st "Some (-1)"] show ?thesis by (simp add: socket_empty_def)
next
  case (Nonblock fl a)
  with ok obtain fd where a: "fd_of st a = Some fd" "0 \<le> fd" by (auto simp: socket_valid_def)
  with sock_invD(1) [OF inv a] obtain fl' where fl': "fd_flags st fd = Some fl'" by blast
  have "sock_inv (st\<lparr>fd_flags := (fd_flags st)(fd \<mapsto> fl' OR fl)\<rparr>)"
    using inv by (simp add: sock_inv_def)
  with Nonblock a fl' show ?thesis by (simp add: socket_set_nonblocking_def)
next
  case (Open fd fl)
  with inv show ?thesis by (simp add: sock_inv_def)
next
  case (Close fd)
  with ok obtain fl where "fd_flags st fd = Some fl" "\<forall>a. fd_of st a \<noteq> Some fd" by (auto simp: unowned_def)
  with Close inv show ?thesis by (simp add: sock_inv_def sys_close_def)
next
  case (Assign a b)
  with ok socket_assign_inv [OF inv] show ?thesis by fastforce
next
  case (Move a b)
  with ok socket_move_inv [OF inv] show ?thesis by fastforce
next
  case (Destroy a)
  with ok socket_close_inv(1) [OF inv] show ?thesis by fastforce
next
  case (Reset a fd)
  with ok socket_close_inv(2) [OF inv] show ?thesis by fastforce
qed

lemma sock_reach_inv: "sock_reach st \<Longrightarrow> sock_inv st"
proof (induction rule: sock_reach.induct)
  case (step st op st')
  then show ?case using sock_exec_inv [of st op] by auto
qed (simp add: sock_inv_def)

subsection \<open>Properties\<close>



end
