(* ===== verification/Client.thy ===== *)
theory Client
  imports Serialize
begin

text \<open>
  The command-line client (\<open>client/client.cpp\<close>): encoding a command as a request frame
  and pretty-printing the reply. Text written to \<open>std::cout\<close> is a list of output lines,
  one constructor per shape of line the client prints, each with its indentation depth.
\<close>

subsection \<open>Encoding a command\<close>

text \<open>The body built by \<open>send_command\<close>: the lambda \<open>put\<close> and the loop over \<open>args\<close>.\<close>

definition command_body :: "string list \<Rightarrow> byte list" where
  "command_body args =
     foldl (\<lambda>body a. (body @ write_u32 (of_nat (length a))) @ map byte_of_char a)
       (write_u32 (of_nat (length args))) args"

text \<open>The frame on the wire: a length header and the body; refused when too long.\<close>

definition command_frame :: "string list \<Rightarrow> byte list option" where
  "command_frame args =
     (let body = command_body args in
      if length body > MAX_MSG then None
      else Some (write_u32 (of_nat (length body)) @ body))"

subsection \<open>Printing a reply\<close>

datatype line =
    LTruncated
  | LBadTag u8
  | LNil nat
  | LInt nat i64
  | LDbl nat u64
  | LStr nat string
  | LErr nat u32 string
  | LArr nat u32

text \<open>
  \<open>print_value p n depth\<close> with \<open>n\<close> the length of the list \<open>p\<close>; the result is the
  printed lines and the returned count (-1 for a truncated value). \<open>print_elems\<close> is the
  loop over array elements: \<open>cnt\<close> elements remain and \<open>used\<close> bytes are consumed.
\<close>

function (sequential) print_value :: "byte list \<Rightarrow> nat \<Rightarrow> line list \<times> int"
  and print_elems :: "nat \<Rightarrow> byte list \<Rightarrow> nat \<Rightarrow> int \<Rightarrow> line list \<times> int" where
  "print_value [] depth = ([LTruncated], -1)"
| "print_value (tag # r) depth =
     (let n = length (tag # r) in
      if tag = SER_NIL then ([LNil depth], 1)
      else if tag = SER_INT then
        if n < 9 then ([], -1) else ([LInt depth (le_word (take 8 r))], 9)
      else if tag = SER_DBL then
        if n < 9 then ([], -1) else ([LDbl depth (le_word (take 8 r))], 9)
      else if tag = SER_STR then
        if n < 5 then ([], -1)
        else let len = le_word (take 4 r) :: u32 in
          if n < 5 + unat len then ([], -1)
          else ([LStr depth (map char_of_byte (take (unat len) (drop 4 r)))], 5 + int (unat len))
      else if tag = SER_ERR then
        if n < 9 then ([], -1)
        else let code = le_word (take 4 r) :: u32; len = le_word (take 4 (drop 4 r)) :: u32 in
          if n < 9 + unat len then ([], -1)
          else ([LErr depth code (map char_of_byte (take (unat len) (drop 8 r)))], 9 + int (unat len))
      else if tag = SER_ARR then
        if n < 5 then ([], -1)
        else let cnt = le_word (take 4 r) :: u32;
                 (ls, used) = print_elems (unat cnt) (drop 4 r) (Suc depth) 5 in
          (LArr depth cnt # ls, used)
      else ([LBadTag tag], -1))"
| "print_elems 0 p depth used = ([], used)"
| "print_elems (Suc cnt) p depth used =
     (let (ls, c) = print_value p depth in
      if c < 0 then (ls, -1)
      else let (ls', used') = print_elems cnt (drop (nat c) p) depth (used + c) in (ls @ ls', used'))"
  by pat_completeness auto
termination
  by (relation "measures [case_sum (\<lambda>(p, _). length p) (\<lambda>(_, p, _). length p),
        case_sum (\<lambda>_. 0) (\<lambda>(cnt, _). Suc cnt)]") auto

declare print_value.simps(2) [simp del]

subsection \<open>The server understands what the client sends\<close>

lemma command_body_eq:
  "command_body args = write_u32 (of_nat (length args)) @ concat (map enc_str args)"
proof -
  have "foldl (\<lambda>body a. (body @ write_u32 (of_nat (length a))) @ map byte_of_char a) b xs =
      b @ concat (map enc_str xs)" for b and xs :: "string list"
    by (induction xs arbitrary: b) (simp_all add: enc_str_def)
  then show ?thesis by (simp add: command_body_def)
qed

lemma length_enc_str: "length (enc_str s) = 4 + length s"
  by (simp add: enc_str_def)

lemma command_body_bounds:
  assumes "length (command_body args) \<le> MAX_MSG"
  shows "length args \<le> k_max_args" and "a \<in> set args \<Longrightarrow> u32_sized a"
proof -
  have sum: "length (concat (map enc_str xs)) = (\<Sum>a\<leftarrow>xs. 4 + length a)" for xs
    by (simp add: length_concat comp_def length_enc_str)
  have mem: "a \<in> set xs \<Longrightarrow> 4 + length a \<le> (\<Sum>a\<leftarrow>xs. 4 + length a)" for a and xs :: "string list"
    by (induction xs) auto
  have "(\<Sum>a\<leftarrow>xs. 4 + length a) \<ge> 4 * length xs" for xs :: "string list"
    by (induction xs) auto
  then have "4 * length args \<le> MAX_MSG"
    using assms by (simp add: command_body_eq sum add.commute) (metis add_leE le_trans)
  then show "length args \<le> k_max_args"
    by (simp add: MAX_MSG_def k_max_args_def)
  assume "a \<in> set args"
  then have "4 + length a \<le> (\<Sum>a\<leftarrow>args. 4 + length a)"
    by (rule mem)
  with assms have "length a \<le> MAX_MSG"
    by (simp add: command_body_eq sum)
  then show "u32_sized a" by (simp add: MAX_MSG_def u32_sized_def)
qed

lemma parse_command_body:
  assumes "length (command_body args) \<le> MAX_MSG"
  shows "parse_req (command_body args) [] = Some (0, args)"
  using command_body_bounds [OF assms] by (simp add: parse_req_ok_iff command_body_eq)

subsection \<open>The client understands what the server replies\<close>

fun reply_lines :: "nat \<Rightarrow> reply \<Rightarrow> line list" where
  "reply_lines d RNil = [LNil d]"
| "reply_lines d (RErr code msg) = [LErr d code msg]"
| "reply_lines d (RStr s) = [LStr d s]"
| "reply_lines d (RInt x) = [LInt d x]"
| "reply_lines d (RDbl x) = [LDbl d x]"
| "reply_lines d (RArr rs) = LArr d (of_nat (length rs)) # concat (map (reply_lines (Suc d)) rs)"

lemma le_word_write_u32 [simp]: "le_word (write_u32 v) = v"
  by (simp add: write_u32_def le_word_bytes)

lemma print_elems_enc:
  assumes "\<And>r d rest. r \<in> set rs \<Longrightarrow>
      print_value (enc_reply r @ rest) d = (reply_lines d r, int (length (enc_reply r)))"
  shows "print_elems (length rs) (concat (map enc_reply rs) @ rest) d used =
      (concat (map (reply_lines d) rs), used + int (length (concat (map enc_reply rs))))"
  using assms by (induction rs arbitrary: used) (simp_all add: algebra_simps)

lemma print_value_enc:
  "reply_ok r \<Longrightarrow>
     print_value (enc_reply r @ rest) d = (reply_lines d r, int (length (enc_reply r)))"
proof (induction r arbitrary: d rest)
  case (RArr rs)
  then have "print_elems (length rs) (concat (map enc_reply rs) @ rest) (Suc d) 5 =
      (concat (map (reply_lines (Suc d)) rs), 5 + int (length (concat (map enc_reply rs))))"
    by (intro print_elems_enc) auto
  moreover have "unat (of_nat (length rs) :: u32) = length rs"
    using RArr.prems by (simp add: u32_sized_def unat_of_nat_u32)
  ultimately show ?case by (simp add: print_value.simps(2) ser_tags Let_def)
next
  case (RStr s)
  then have "unat (of_nat (length s) :: u32) = length s"
    by (simp add: u32_sized_def unat_of_nat_u32)
  then show ?case by (simp add: print_value.simps(2) ser_tags Let_def enc_str_def comp_def)
next
  case (RErr code msg)
  then have len: "unat (of_nat (length msg) :: u32) = length msg"
    by (simp add: u32_sized_def unat_of_nat_u32)
  have "drop 8 (write_u32 a @ write_u32 b @ xs) = xs" for a b xs by simp
  with len show ?case by (simp add: print_value.simps(2) ser_tags Let_def enc_str_def comp_def)
qed (simp_all add: print_value.simps(2) ser_tags Let_def le_word_bytes)

subsection \<open>Properties\<close>

text \<open>Whatever command the client accepts for sending (its body fits in one frame), the
  server's parser recovers exactly its arguments, in order and byte for byte.\<close>

theorem command_roundtrip:
  assumes "command_frame args = Some frame"
  shows "\<exists>body. frame = write_u32 (of_nat (length body)) @ body \<and> length body \<le> MAX_MSG \<and>
    parse_req body [] = Some (0, args)"
  using assms parse_command_body [of args]
  by (auto simp: command_frame_def Let_def split: if_splits)

theorem command_roundtrip_witness:
  "\<exists>frame body. command_frame [''GET'', ''k''] = Some frame \<and>
     frame = write_u32 (of_nat (length body)) @ body \<and> parse_req body [] = Some (0, [''GET'', ''k''])"
proof -
  have "\<exists>frame. command_frame [''GET'', ''k''] = Some frame"
    by (simp add: command_frame_def command_body_def MAX_MSG_def Let_def)
  then show ?thesis using command_roundtrip [of "[''GET'', ''k'']"] by blast
qed

text \<open>C27: Printing an encoded reply consumes exactly its bytes and prints its value, for
  every reply shape, nested arrays included, whatever bytes follow it.\<close>

theorem reply_roundtrip:
  assumes "reply_ok r"
  shows "print_value (enc_reply r @ rest) d = (reply_lines d r, int (length (enc_reply r)))"
  using assms by (rule print_value_enc)

theorem reply_roundtrip_witness:
  "print_value (enc_reply (RArr [RStr ''a'', RInt 7]) @ [9]) 0 =
     ([LArr 0 2, LStr 1 ''a'', LInt 1 7],
      int (length (enc_reply (RArr [RStr ''a'', RInt 7]))))"
proof -
  have "reply_ok (RArr [RStr ''a'', RInt 7])" by (simp add: u32_sized_def)
  from reply_roundtrip [OF this, of "[9]" 0] show ?thesis by simp
qed

end
