(* ===== verification/Net_IO.thy ===== *)
theory Net_IO
  imports Client Number_Parse
begin

text \<open>
  Blocking transfers (\<open>src/net/io_helpers.cpp\<close>) and the client that is built on them (the
  rest of \<open>client/client.cpp\<close>: \<open>send_command\<close>, \<open>split\<close>, \<open>main\<close>).

  The system calls are arguments: \<open>rd f n\<close> is \<open>read\<close> on a descriptor in the state \<open>f\<close> with
  room for \<open>n\<close> bytes, \<open>wr f data\<close> is \<open>write\<close>. Their result is \<open>None\<close> when the call fails
  (a negative return value) and otherwise the bytes read (none at the end of the stream) or the
  number of bytes taken. A call that reports more than it was given room for leaves the loops
  of the code without a defined meaning; the model returns \<open>None\<close> there.
\<close>

type_synonym 'f sys_rd = "'f \<Rightarrow> nat \<Rightarrow> byte list option \<times> 'f"
type_synonym 'f sys_wr = "'f \<Rightarrow> byte list \<Rightarrow> nat option \<times> 'f"

subsection \<open>The loops\<close>

text \<open>\<open>read_full rd f n buf\<close>: \<open>buf\<close> is what is already filled and \<open>n\<close> what is left to fill.
  The result has the return code, the filled part of the buffer and the descriptor.\<close>

function read_full :: "'f sys_rd \<Rightarrow> 'f \<Rightarrow> nat \<Rightarrow> byte list \<Rightarrow> (int \<times> byte list \<times> 'f) option" where
  "read_full rd f n buf =
     (if n > 0 then
        case rd f n of
          (None, f') \<Rightarrow> Some (-1, buf, f')
        | (Some bs, f') \<Rightarrow>
            if bs = [] then Some (-1, buf, f')
            else if length bs > n then None
            else read_full rd f' (n - length bs) (buf @ bs)
      else Some (0, buf, f))"
  by pat_completeness auto
termination
  by (relation "measure (\<lambda>(_, _, n, _). n)") auto

function write_all :: "'f sys_wr \<Rightarrow> 'f \<Rightarrow> byte list \<Rightarrow> (int \<times> 'f) option" where
  "write_all wr f buf =
     (if length buf > 0 then
        case wr f buf of
          (None, f') \<Rightarrow> Some (-1, f')
        | (Some rv, f') \<Rightarrow>
            if rv = 0 then Some (-1, f')
            else if rv > length buf then None
            else write_all wr f' (drop rv buf)
      else Some (0, f))"
  by pat_completeness auto
termination
  by (relation "measure (\<lambda>(_, _, buf). length buf)") auto

declare read_full.simps [simp del] write_all.simps [simp del]

subsection \<open>One command of the client\<close>

text \<open>The return code, what is printed on the standard output, and the descriptor.\<close>

definition send_command ::
  "'f sys_rd \<Rightarrow> 'f sys_wr \<Rightarrow> 'f \<Rightarrow> string list \<Rightarrow> (int \<times> line list \<times> 'f) option" where
  "send_command rd wr f args =
     (let body = command_body args in
      if length body > MAX_MSG then Some (-1, [], f)
      else do {
        (rc, f) \<leftarrow> write_all wr f (write_u32 (of_nat (length body)));
        if rc \<noteq> 0 then Some (-1, [], f) else do {
        (rc, f) \<leftarrow> write_all wr f body;
        if rc \<noteq> 0 then Some (-1, [], f) else do {
        (rc, hdr, f) \<leftarrow> read_full rd f 4 [];
        if rc \<noteq> 0 then Some (-1, [], f) else do {
        total \<leftarrow> read_u32 hdr;
        if unat total < 1 \<or> unat total > MAX_MSG then Some (-1, [], f) else do {
        (rc, resp, f) \<leftarrow> read_full rd f (unat total) [];
        if rc \<noteq> 0 then Some (-1, [], f)
        else Some (0, fst (print_value resp 0), f)
      }}}}})"

subsection \<open>The command line\<close>

text \<open>Extraction with \<open>>>\<close> skips what \<open>isspace\<close> accepts, and stops there.\<close>

function split_line :: "string \<Rightarrow> string list" where
  "split_line line =
     (case dropWhile isspace line of
        [] \<Rightarrow> []
      | rest \<Rightarrow> takeWhile (\<lambda>c. \<not> isspace c) rest # split_line (dropWhile (\<lambda>c. \<not> isspace c) rest))"
  by pat_completeness auto
termination
proof (relation "measure length")
  fix line :: string and c cs
  assume eq: "dropWhile isspace line = c # cs"
  then have "\<not> isspace c" by (metis hd_dropWhile list.distinct(1) list.sel(1))
  then have "length (dropWhile (\<lambda>c. \<not> isspace c) (c # cs)) \<le> length cs"
    by (simp add: length_dropWhile_le)
  also have "\<dots> < length line" using eq length_dropWhile_le [of isspace line] by simp
  finally show "(dropWhile (\<lambda>c. \<not> isspace c) (c # cs), line) \<in> measure length" by simp
qed simp

declare split_line.simps [simp del]

datatype shown = Banner | Prompt | Printed "line list"

text \<open>The interactive loop over the lines of the standard input, until it ends.\<close>

fun repl ::
  "'f sys_rd \<Rightarrow> 'f sys_wr \<Rightarrow> 'f \<Rightarrow> string list \<Rightarrow> (shown list \<times> 'f) option" where
  "repl rd wr f [] = Some ([Prompt], f)"
| "repl rd wr f (line # lines) =
     (if line = ''exit'' then Some ([Prompt], f)
      else let args = split_line line in
        if args = [] then do { (out, f) \<leftarrow> repl rd wr f lines; Some (Prompt # out, f) }
        else do {
          (rc, ls, f) \<leftarrow> send_command rd wr f args;
          if rc \<noteq> 0 then Some ([Prompt, Printed ls], f)
          else do { (out, f) \<leftarrow> repl rd wr f lines; Some (Prompt # Printed ls # out, f) }})"

text \<open>\<open>main\<close>, with the result of \<open>connect_to\<close> and the arguments after the program's name.\<close>

definition client_main ::
  "'f sys_rd \<Rightarrow> 'f sys_wr \<Rightarrow> 'f option \<Rightarrow> string list \<Rightarrow> string list \<Rightarrow> (int \<times> shown list) option" where
  "client_main rd wr conn argv stdin =
     (case conn of
        None \<Rightarrow> Some (1, [])
      | Some f \<Rightarrow>
          if argv \<noteq> [] then do {
            (rc, ls, f) \<leftarrow> send_command rd wr f argv;
            Some (if rc = 0 then 0 else 1, [Printed ls])
          } else do {
            (out, f) \<leftarrow> repl rd wr f stdin;
            Some (0, Banner # out)
          })"

subsection \<open>What a connection does\<close>

text \<open>\<open>delivers rd f bs\<close>: reads on \<open>f\<close> return the bytes \<open>bs\<close> in pieces of any size, nonempty
  and no longer than asked for, and possibly more bytes after them.\<close>

inductive delivers :: "'f sys_rd \<Rightarrow> 'f \<Rightarrow> byte list \<Rightarrow> bool" for rd where
  nothing: "delivers rd f []"
| piece: "(\<And>n. 0 < n \<Longrightarrow> \<exists>a f'. rd f n = (Some a, f') \<and> a \<noteq> [] \<and> length a \<le> n \<and>
      ((\<exists>rest. bs = a @ rest \<and> delivers rd f' rest) \<or> (\<exists>more. a = bs @ more \<and> more \<noteq> []))) \<Longrightarrow> delivers rd f bs"

text \<open>\<open>takes wr sent P\<close>: in the states \<open>P\<close>, which writing keeps, a write takes a nonempty part of
  what it is given; \<open>sent\<close> is what the other side has been sent.\<close>

definition takes :: "'f sys_wr \<Rightarrow> ('f \<Rightarrow> byte list) \<Rightarrow> ('f \<Rightarrow> bool) \<Rightarrow> bool" where
  "takes wr sent P \<longleftrightarrow>
     (\<forall>f data. P f \<longrightarrow> data \<noteq> [] \<longrightarrow>
       (\<exists>k f'. wr f data = (Some k, f') \<and> 0 < k \<and> k \<le> length data \<and> P f' \<and> sent f' = sent f @ take k data))"

text \<open>Calls that never report more than they were given room for.\<close>

definition rd_bounded :: "'f sys_rd \<Rightarrow> bool" where
  "rd_bounded rd \<longleftrightarrow> (\<forall>f n bs f'. rd f n = (Some bs, f') \<longrightarrow> length bs \<le> n)"

definition wr_bounded :: "'f sys_wr \<Rightarrow> bool" where
  "wr_bounded wr \<longleftrightarrow> (\<forall>f data k f'. wr f data = (Some k, f') \<longrightarrow> k \<le> length data)"

lemma read_full_delivers:
  assumes "delivers rd f bs" and "n \<le> length bs"
  shows "\<exists>f'. read_full rd f n buf = Some (0, buf @ take n bs, f') \<and> delivers rd f' (drop n bs)"
  using assms
proof (induction arbitrary: n buf)
  case (nothing f)
  then show ?case by (auto simp: read_full.simps intro: delivers.nothing)
next
  case (piece f bs)
  show ?case
  proof (cases "n = 0")
    case True
    have "delivers rd f bs" by (rule delivers.piece) (use piece.IH in blast)
    with True show ?thesis by (simp add: read_full.simps)
  next
    case False
    with piece.IH [of n] obtain a f1 where a: "rd f n = (Some a, f1)" "a \<noteq> []" "length a \<le> n"
      and *: "(\<exists>rest. bs = a @ rest \<and> delivers rd f1 rest \<and>
          (\<forall>n buf. n \<le> length rest \<longrightarrow> (\<exists>f'. read_full rd f1 n buf = Some (0, buf @ take n rest, f') \<and> delivers rd f' (drop n rest))))
        \<or> (\<exists>more. a = bs @ more \<and> more \<noteq> [])" by blast
    from a(3) piece.prems have "length a \<le> length bs" by (rule le_trans)
    with * obtain rest where rest: "bs = a @ rest"
      "\<And>n buf. n \<le> length rest \<Longrightarrow> \<exists>f'. read_full rd f1 n buf = Some (0, buf @ take n rest, f') \<and> delivers rd f' (drop n rest)"
      by auto
    have "n - length a \<le> length rest" using piece.prems rest(1) by simp
    from rest(2) [OF this, of "buf @ a"] a False rest(1) show ?thesis
      by (subst read_full.simps) simp
  qed
qed

lemma write_all_takes:
  assumes "takes wr sent P" and "P f"
  shows "\<exists>f'. write_all wr f data = Some (0, f') \<and> P f' \<and> sent f' = sent f @ data"
  using assms(2)
proof (induction "length data" arbitrary: f data rule: less_induct)
  case less
  show ?case
  proof (cases "data = []")
    case True
    with less.prems show ?thesis by (simp add: write_all.simps)
  next
    case False
    with assms(1) less.prems obtain k f1 where k: "wr f data = (Some k, f1)" "0 < k" "k \<le> length data" "P f1"
      "sent f1 = sent f @ take k data" unfolding takes_def by blast
    from k False have "length (drop k data) < length data" by simp
    from less.hyps [OF this k(4)] k False show ?thesis
      by (subst write_all.simps) auto
  qed
qed

text \<open>A blocking read returns 0 exactly with all the bytes asked for and -1 with fewer.\<close>

lemma read_full_total:
  assumes "rd_bounded rd"
  shows "\<exists>rc got f'. read_full rd f n buf = Some (rc, buf @ got, f') \<and>
    (rc = 0 \<and> length got = n \<or> rc = -1 \<and> length got < n)"
proof (induction n arbitrary: f buf rule: less_induct)
  case (less n)
  show ?case
  proof (cases "n = 0")
    case False
    obtain res f1 where r: "rd f n = (res, f1)" by fastforce
    show ?thesis
    proof (cases "res = None \<or> res = Some []")
      case True
      with r False show ?thesis by (subst read_full.simps) auto
    next
      case no: False
      then obtain bs where bs: "res = Some bs" "bs \<noteq> []" by auto
      with r assms have len: "length bs \<le> n" by (auto simp: rd_bounded_def)
      with bs False have "n - length bs < n" by simp
      from less.IH [OF this, of f1 "buf @ bs"] obtain rc got f' where
        "read_full rd f1 (n - length bs) (buf @ bs) = Some (rc, (buf @ bs) @ got, f')"
        "rc = 0 \<and> length got = n - length bs \<or> rc = -1 \<and> length got < n - length bs" by blast
      with r bs len False show ?thesis
        by (subst read_full.simps) (auto intro!: exI [of _ "bs @ got"])
    qed
  qed (simp add: read_full.simps)
qed

lemma write_all_total:
  assumes "wr_bounded wr"
  shows "\<exists>rc f'. write_all wr f data = Some (rc, f') \<and> (rc = 0 \<or> rc = -1)"
proof (induction "length data" arbitrary: f data rule: less_induct)
  case less
  obtain res f1 where r: "wr f data = (res, f1)" by fastforce
  show ?case
  proof (cases "data = [] \<or> res = None \<or> res = Some 0")
    case True
    with r show ?thesis by (subst write_all.simps) auto
  next
    case False
    then obtain k where k: "res = Some k" "0 < k" by auto
    with r assms have "k \<le> length data" by (auto simp: wr_bounded_def)
    moreover from this False k have "length (drop k data) < length data" by simp
    ultimately show ?thesis using less [of "drop k data" f1] r k False by (subst write_all.simps) auto
  qed
qed

lemma send_command_total:
  assumes "rd_bounded rd" and "wr_bounded wr"
  shows "\<exists>rc ls f'. send_command rd wr f args = Some (rc, ls, f') \<and> (rc = 0 \<or> rc = -1 \<and> ls = [])"
proof -
  let ?hdr = "write_u32 (of_nat (length (command_body args)))"
  from write_all_total [OF assms(2)] obtain rc1 f1 where 1: "write_all wr f ?hdr = Some (rc1, f1)" by blast
  from write_all_total [OF assms(2)] obtain rc2 f2 where
    2: "write_all wr f1 (command_body args) = Some (rc2, f2)" by blast
  from read_full_total [OF assms(1), of f2 4 "[]"] obtain rc3 hdr f3 where
    3: "read_full rd f2 4 [] = Some (rc3, hdr, f3)" "rc3 = 0 \<Longrightarrow> length hdr = 4" by auto
  have "\<exists>total. read_u32 hdr = Some total" if "rc3 = 0" using 3(2) [OF that] by (simp add: read_u32_def)
  moreover have "\<exists>rc4 resp f4. read_full rd f3 k [] = Some (rc4, resp, f4)" for k
    using read_full_total [OF assms(1), of f3 k "[]"] by auto
  then obtain rc4 resp f4 where "\<And>k. read_full rd f3 k [] = Some (rc4 k, resp k, f4 k)" by metis
  ultimately show ?thesis using 1 2 3(1) by (auto simp: send_command_def Let_def)
qed

text \<open>A reply of any length that a frame can announce has parts that their own length words announce.\<close>

lemma small_reply_ok: "length (enc_reply r) < 2 ^ 32 \<Longrightarrow> reply_ok r"
proof (induction r)
  case (RArr rs)
  have mem: "x \<in> set rs \<Longrightarrow> length (enc_reply x) \<le> (\<Sum>r\<leftarrow>rs. length (enc_reply r))" for x
    by (induction rs) auto
  have "0 < length (enc_reply x)" for x by (cases x) auto
  then have "1 \<le> length (enc_reply x)" for x by (simp add: Suc_leI)
  then have "length rs \<le> (\<Sum>r\<leftarrow>rs. length (enc_reply r))"
    using sum_list_mono [of rs "\<lambda>_. 1" "\<lambda>r. length (enc_reply r)"] by (simp add: sum_list_triv)
  with RArr mem show ?case
    by (fastforce simp: u32_sized_def length_concat comp_def)
qed (simp_all add: u32_sized_def enc_str_def)

text \<open>A whole command: when the connection takes the request frame and then brings the reply
  frame, the client prints that reply.\<close>

lemma send_command_delivers:
  assumes wr: "takes wr sent P" "P f" and args: "command_frame args = Some frame"
    and rd: "\<And>f'. P f' \<Longrightarrow> sent f' = sent f @ frame \<Longrightarrow>
      delivers rd f' (write_u32 (of_nat (length (enc_reply r))) @ enc_reply r)"
    and r: "length (enc_reply r) \<le> MAX_MSG"
  shows "\<exists>f'. send_command rd wr f args = Some (0, reply_lines 0 r, f')"
proof -
  let ?n = "of_nat (length (enc_reply r)) :: u32"
  have ok: "reply_ok r" using r by (intro small_reply_ok) (simp add: MAX_MSG_def)
  have n: "unat ?n = length (enc_reply r)" using r by (simp add: unat_of_nat MAX_MSG_def)
  have pos: "0 < length (enc_reply r)" by (cases r) auto
  let ?hdr = "write_u32 (of_nat (length (command_body args)))"
  have body: "length (command_body args) \<le> MAX_MSG" "frame = ?hdr @ command_body args"
    using args by (auto simp: command_frame_def Let_def split: if_splits)
  from write_all_takes [OF wr] obtain f1 where
    1: "write_all wr f ?hdr = Some (0, f1)" "P f1" "sent f1 = sent f @ ?hdr" by blast
  from write_all_takes [OF wr(1) 1(2)] obtain f2 where
    2: "write_all wr f1 (command_body args) = Some (0, f2)" "P f2" "sent f2 = sent f1 @ command_body args" by blast
  have "sent f2 = sent f @ frame" using 1(3) 2(3) body(2) by simp
  from read_full_delivers [OF rd [OF 2(2) this], of 4 "[]"] obtain f3 where
    3: "read_full rd f2 4 [] = Some (0, write_u32 ?n, f3)" "delivers rd f3 (enc_reply r)" by auto
  from read_full_delivers [OF 3(2), of "length (enc_reply r)" "[]"] obtain f4 where
    4: "read_full rd f3 (length (enc_reply r)) [] = Some (0, enc_reply r, f4)" by auto
  have "read_u32 (write_u32 ?n) = Some ?n" using read_u32_eq_Some_iff by (metis append_Nil2)
  with 1(1) 2(1) 3(1) 4 n pos body(1) r show ?thesis
    using print_value_enc [OF ok, of "[]" 0] by (simp add: send_command_def Let_def)
qed

lemma repl_total:
  assumes "rd_bounded rd" and "wr_bounded wr"
  shows "\<exists>out f'. repl rd wr f stdin = Some (out, f')"
proof (induction stdin arbitrary: f)
  case (Cons line stdin)
  from send_command_total [OF assms, of f "split_line line"] obtain rc ls f1 where
    "send_command rd wr f (split_line line) = Some (rc, ls, f1)" by blast
  with Cons [of f] Cons [of f1] show ?case by (auto simp: Let_def)
qed simp

text \<open>The tokens of a line: it is split exactly at its white space.\<close>

lemma split_line_tokens: "t \<in> set (split_line line) \<Longrightarrow> t \<noteq> [] \<and> (\<forall>c \<in> set t. \<not> isspace c)"
proof (induction line rule: split_line.induct)
  case (1 line)
  show ?case
  proof (cases "dropWhile isspace line")
    case Nil
    with 1(2) show ?thesis by (subst (asm) split_line.simps) (simp del: dropWhile_eq_Nil_conv)
  next
    case (Cons c cs)
    then have "\<not> isspace c" by (metis hd_dropWhile list.distinct(1) list.sel(1))
    from 1(2) Cons consider "t = takeWhile (\<lambda>c. \<not> isspace c) (c # cs)"
      | "t \<in> set (split_line (dropWhile (\<lambda>c. \<not> isspace c) (c # cs)))"
      by (subst (asm) split_line.simps) (simp only: list.case set_simps insert_iff, blast)
    then show ?thesis
    proof cases
      case 1
      with \<open>\<not> isspace c\<close> show ?thesis by (auto dest: set_takeWhileD)
    next
      case 2
      from "1.IH" [OF Cons this] show ?thesis .
    qed
  qed
qed

lemma split_line_concat: "concat (split_line line) = filter (\<lambda>c. \<not> isspace c) line"
proof (induction line rule: split_line.induct)
  case (1 line)
  have drop: "filter (\<lambda>c. \<not> isspace c) (dropWhile isspace l) = filter (\<lambda>c. \<not> isspace c) l" for l
    by (induction l) auto
  have split: "takeWhile (\<lambda>c. \<not> isspace c) l @ filter (\<lambda>c. \<not> isspace c) (dropWhile (\<lambda>c. \<not> isspace c) l) = filter (\<lambda>c. \<not> isspace c) l" for l
    by (induction l) auto
  show ?case
  proof (cases "dropWhile isspace line")
    case Nil
    then show ?thesis using drop [of line] by (subst split_line.simps) (simp del: dropWhile_eq_Nil_conv)
  next
    case (Cons c cs)
    with 1 [OF Cons] show ?thesis using drop [of line] split [of "c # cs"] by (subst split_line.simps) simp
  qed
qed

subsection \<open>Properties\<close>

text \<open>A descriptor that holds the segments still to arrive, and the end of the stream after them.\<close>

fun demo_rd :: "byte list list sys_rd" where
  "demo_rd [] n = (Some [], [])"
| "demo_rd (seg # segs) n = (Some (take n seg), if length seg \<le> n then segs else drop n seg # segs)"

lemma demo_rd_bounded: "rd_bounded demo_rd"
proof -
  have "demo_rd f n = (Some bs, f') \<Longrightarrow> length bs \<le> n" for f n bs f' by (cases f) auto
  then show ?thesis by (simp add: rd_bounded_def)
qed



end
