(* ===== verification/Startup.thy ===== *)
theory Startup
  imports Server_Run Socket Net_IO
begin

text \<open>
  Starting the programs: \<open>main\<close> of the server (\<open>src/main.cpp\<close>), the set-up of the listening socket in the
  constructor of \<open>Server\<close> (\<open>src/server/server.cpp\<close>) and \<open>connect_to\<close> of the client. The results
  of the system calls are arguments; the descriptors are those of \<open>Socket\<close>.
  An exception that nobody catches and \<open>die\<close> end the program: the result is \<open>None\<close>.
\<close>

subsection \<open>The command line of the server\<close>

text \<open>\<open>std::stoi\<close> and \<open>std::stoull\<close>: they skip white space, accept a sign and ignore what follows the
  digits; they throw when there is no digit or the value is out of range. \<open>stoull\<close> negates modulo
  $2^{64}$, as \<open>strtoull\<close> does.\<close>

definition stoi :: "string \<Rightarrow> int option" where
  "stoi s =
     (let (v, rest) = strtoll s
      in if rest = s then None else if v < - (2 ^ 31) \<or> v \<ge> 2 ^ 31 then None else Some v)"

definition stoull :: "string \<Rightarrow> u64 option" where
  "stoull s =
     (let (neg, u) = sign (dropWhile isspace s);
          ds = takeWhile isdigit u;
          n = digits_val 10 ds
      in if ds = [] then None else if n \<ge> 2 ^ 64 then None
         else Some (if neg then - of_nat n else of_nat n))"

text \<open>The port and the idle timeout that \<open>main\<close> passes to the server, from the arguments after the name of the program.\<close>

definition server_main :: "string list \<Rightarrow> (int \<times> u64) option" where
  "server_main argv = do {
     port \<leftarrow> (case argv of a # _ \<Rightarrow> stoi a | [] \<Rightarrow> Some 6379);
     idle_timeout_ms \<leftarrow> (case argv of _ # b # _ \<Rightarrow> stoull b | _ \<Rightarrow> Some k_default_idle_timeout_ms);
     Some (port, idle_timeout_ms)
   }"

subsection \<open>The listening socket\<close>

record listen_calls =
  lc_socket :: int
  lc_flags :: u32                    \<comment> \<open>the status flags of the new descriptor\<close>
  lc_setsockopt :: int
  lc_bind :: "16 word \<Rightarrow> int"    \<comment> \<open>by the port, which is converted to \<open>uint16_t\<close>\<close>
  lc_listen :: int
  lc_setfl :: bool

text \<open>The constructor; \<open>a\<close> is the address of the member \<open>listen_sock_\<close>.\<close>

definition server_new :: "listen_calls \<Rightarrow> u32 \<Rightarrow> int \<Rightarrow> u64 \<Rightarrow> clock \<Rightarrow> addr \<Rightarrow> sock_state \<Rightarrow> (server \<times> sock_state) option" where
  "server_new calls o_nonblock port idle_timeout_ms clk a st = do {
     st \<leftarrow> socket_empty a st;
     srv \<leftarrow> server_init idle_timeout_ms clk;
     let fd = lc_socket calls;
     if fd < 0 then None else do {
     let st = st\<lparr>fd_flags := (fd_flags st)(fd \<mapsto> lc_flags calls)\<rparr>;
     if lc_setsockopt calls < 0 then None
     else if lc_bind calls (word_of_int port) < 0 then None
     else if lc_listen calls < 0 then None
     else do {
       st \<leftarrow> socket_reset a fd st;
       st \<leftarrow> socket_set_nonblocking o_nonblock (lc_setfl calls) a st;
       Some (srv, st) } } }"

subsection \<open>The client's connection\<close>

record connect_calls =
  cc_socket :: int
  cc_flags :: u32
  cc_inet_pton :: int
  cc_connect :: int

definition connect_to :: "connect_calls \<Rightarrow> sock_state \<Rightarrow> int \<times> sock_state" where
  "connect_to calls st =
     (let fd = cc_socket calls in
      if fd < 0 then (-1, st)
      else let st = st\<lparr>fd_flags := (fd_flags st)(fd \<mapsto> cc_flags calls)\<rparr> in
        if cc_inet_pton calls \<le> 0 then (-1, st)
        else if cc_connect calls < 0 then (-1, st)
        else (fd, st))"

subsection \<open>Numbers on the command line\<close>

lemma strtoll_dec:
  assumes "- (2 ^ 63) \<le> z" and "z < 2 ^ 63"
  shows "strtoll (dec_int z) = (z, [])"
  unfolding strtoll_all
  by (rule disjI2, intro exI [of _ "[]"] exI [of _ "if z < 0 then ''-'' else []"] exI [of _ "dec_nat (nat \<bar>z\<bar>)"])
    (use assms dec_nat_digits in \<open>auto simp: dec_nat_val dec_int_def\<close>)

lemma stoi_dec:
  assumes "- (2 ^ 31) \<le> z" and "z < 2 ^ 31"
  shows "stoi (dec_int z) = Some z"
proof -
  have "dec_int z \<noteq> []" using dec_nat_digits(1) by (simp add: dec_int_def)
  with strtoll_dec [of z] assms show ?thesis by (simp add: stoi_def not_sym)
qed

lemma stoull_dec:
  assumes "n < 2 ^ 64"
  shows "stoull (dec_nat n) = Some (of_nat n)" and "stoull (''-'' @ dec_nat n) = Some (- of_nat n)"
proof -
  have d: "takeWhile isdigit (dec_nat n) = dec_nat n" using dec_nat_digits(2) by (simp add: takeWhile_eq_all_conv)
  have "\<not> isspace (hd (dec_nat n))" "hd (dec_nat n) \<noteq> CHR ''-''" "hd (dec_nat n) \<noteq> CHR ''+''"
    using dec_nat_digits(2) [of "hd (dec_nat n)" n] dec_nat_digits(1) [of n] digit_not_space(1,2) hd_in_set by blast+
  then have s: "dropWhile isspace (dec_nat n) = dec_nat n" "sign (dec_nat n) = (False, dec_nat n)"
    using dec_nat_digits(1) [of n] by (cases "dec_nat n"; simp)+
  show "stoull (dec_nat n) = Some (of_nat n)"
    unfolding stoull_def s case_prod_conv Let_def d dec_nat_val using dec_nat_digits(1) [of n] assms by simp
  have "dropWhile isspace (''-'' @ dec_nat n) = ''-'' @ dec_nat n" by (simp add: isspace_def code_def)
  moreover have "sign (''-'' @ dec_nat n) = (True, dec_nat n)" by simp
  ultimately show "stoull (''-'' @ dec_nat n) = Some (- of_nat n)"
    unfolding stoull_def by (simp only: case_prod_conv Let_def d dec_nat_val) (use dec_nat_digits(1) [of n] assms in simp)
qed

subsection \<open>The constructor\<close>

definition calls_succeed :: "listen_calls \<Rightarrow> int \<Rightarrow> bool" where
  "calls_succeed calls port \<longleftrightarrow>
     0 \<le> lc_socket calls \<and> 0 \<le> lc_setsockopt calls \<and> 0 \<le> lc_bind calls (word_of_int port) \<and> 0 \<le> lc_listen calls \<and> lc_setfl calls"

lemma server_new_eq:
  assumes a: "fd_of st a = None" and fd: "lc_socket calls = fd"
  shows "server_new calls nb port t clk a st =
    (if calls_succeed calls port
     then map_option (\<lambda>srv. (srv, \<lparr>fd_of = (fd_of st)(a \<mapsto> fd), fd_flags = (fd_flags st)(fd \<mapsto> lc_flags calls OR nb)\<rparr>)) (server_init t clk)
     else None)"
  using a fd
  by (cases "server_init t clk")
    (auto simp: server_new_def calls_succeed_def socket_empty_def socket_reset_def socket_set_nonblocking_def Let_def not_le)

subsection \<open>A timeout that is too long\<close>

text \<open>\<open>stoull\<close> accepts negative numbers, so that the timeout can be any value of \<open>uint64_t\<close>. The
  deadline of a connection is then computed modulo $2^{64}$: with the largest timeout every
  connection is overdue at once, and the next iteration closes them all.\<close>

lemma longest_timeout_closes_all:
  assumes inv: "server_inv n srv (A, c) xs" and t: "stoull ''-1'' = Some (s_idle_timeout_ms srv)"
    and st: "\<And>p. p \<in> set xs \<Longrightarrow> stamp srv p \<noteq> 0"
  shows "\<exists>srv'. process_timers srv = Some srv' \<and> s_conn srv' = Map.empty"
proof -
  have "dec_nat 1 = ''1''" by (simp add: dec_nat.simps char_of_def bit_Suc_0_iff)
  with stoull_dec(2) [of 1] t have t: "s_idle_timeout_ms srv = - 1" by simp
  obtain now k where now: "get_monotonic_msec c = (now, k)" by fastforce
  from process_timers_ok [OF inv now] obtain srv' ys zs where r: "process_timers srv = Some srv'" "xs = ys @ zs"
    "s_conn srv' = s_conn srv |` set zs" "zs \<noteq> [] \<longrightarrow> now < stamp srv (hd zs) + s_idle_timeout_ms srv" by blast
  have "zs = []"
  proof (rule ccontr)
    assume "zs \<noteq> []"
    then have z: "hd zs \<in> set xs" "now < stamp srv (hd zs) - 1" using r(2,4) t by auto
    have "now = msec (readings c (n_read c))" using now by (simp add: get_monotonic_msec_def)
    then have "stamp srv (hd zs) \<le> now"
      using server_invD(4,5) [OF inv] z(1) by (simp add: conns_good_def)
    moreover have "stamp srv (hd zs) - 1 < stamp srv (hd zs)" using st [OF z(1)] word_less_minus_cancel by (simp add: word_gt_0 measure_unat word_less_nat_alt)
    ultimately show False using z(2) by simp
  qed
  with r(1,3) show ?thesis by simp
qed

subsection \<open>Properties\<close>

text \<open>C20: The server starts as it is told to. A port and a timeout in decimal notation on the command line are
  read exactly; the constructor succeeds exactly if every system call does, and then the listening
  descriptor is owned by the server's socket and non-blocking, the server has that timeout and is in its initial
  state, from which all its executions start.\<close>

theorem server_boots:
  assumes "0 \<le> port" and "port < 2 ^ 16" and "t < 2 ^ 64" and "clock_mono clk" and "fd_of st a = None"
  shows "server_main [dec_int port, dec_nat t] = Some (port, of_nat t) \<and>
    (calls_succeed calls port \<longleftrightarrow> server_new calls nb port (of_nat t) clk a st \<noteq> None) \<and>
    (\<forall>srv st'. server_new calls nb port (of_nat t) clk a st = Some (srv, st') \<longrightarrow>
       server_run clk srv (\<lambda>_. [], \<lambda>_. []) \<and> s_idle_timeout_ms srv = of_nat t \<and> s_conn srv = Map.empty \<and>
       fd_of st' a = Some (lc_socket calls) \<and> fd_flags st' (lc_socket calls) = Some (lc_flags calls OR nb))"
proof -
  have main: "server_main [dec_int port, dec_nat t] = Some (port, of_nat t)"
    using stoi_dec [of port] stoull_dec(1) [OF assms(3)] assms(1,2) by (simp add: server_main_def)
  from server_init_ok [OF assms(4), of "of_nat t"] obtain srv0 where srv0: "server_init (of_nat t) clk = Some srv0" by blast
  then have sel: "s_idle_timeout_ms srv0 = of_nat t" "s_conn srv0 = Map.empty" by (auto simp: server_init_def split: bind_splits)
  have "server_run clk srv0 (\<lambda>_. [], \<lambda>_. [])"
    unfolding server_run_def using assms(4) srv0 server_steps.none by blast
  with main server_new_eq [OF assms(5) refl, of calls nb port "of_nat t" clk] srv0 sel show ?thesis by auto
qed

theorem server_boots_witness:
  "server_main [''6379'', ''30000''] = Some (6379, 30000) \<and>
   (\<exists>srv st'. server_new \<lparr>lc_socket = 3, lc_flags = 2, lc_setsockopt = 0, lc_bind = (\<lambda>_. 0), lc_listen = 0, lc_setfl = True\<rparr> 2048
      6379 30000 demo_clock 0 \<lparr>fd_of = Map.empty, fd_flags = Map.empty\<rparr> = Some (srv, st') \<and>
     server_run demo_clock srv (\<lambda>_. [], \<lambda>_. []) \<and> fd_of st' 0 = Some 3)"
proof -
  have dec: "dec_int 6379 = ''6379''" "dec_nat 30000 = ''30000''"
    by (simp_all add: dec_int_def dec_nat.simps char_of_def bit_Suc_0_iff)
  let ?calls = "\<lparr>lc_socket = 3, lc_flags = 2, lc_setsockopt = 0, lc_bind = (\<lambda>_. 0), lc_listen = 0, lc_setfl = True\<rparr>"
  have "calls_succeed ?calls 6379" by (simp add: calls_succeed_def)
  with server_boots [of 6379 30000 demo_clock "\<lparr>fd_of = Map.empty, fd_flags = Map.empty\<rparr>" 0 ?calls 2048] demo_clock_mono dec
  show ?thesis by auto
qed

end
