(* ===== verification/Command_Effects.thy ===== *)
theory Command_Effects
  imports Command_Refine
begin

text \<open>
  What a request cannot do: it leaves every key but the one it names alone, and it does not change
  the type of a value. Both follow from the specification of the commands, which
  \<open>do_request\<close> refines.
\<close>

fun type_of :: "val \<Rightarrow> etype" where
  "type_of (VStr _) = T_STR"
| "type_of (VZset _) = T_ZSET"

definition overdue :: "clock \<Rightarrow> u64 option \<Rightarrow> bool" where
  "overdue c d \<longleftrightarrow> (\<exists>t. d = Some t \<and> t \<le> fst (get_monotonic_msec c))"

text \<open>From \<open>s\<close> to \<open>s'\<close> at most the key \<open>k\<close> changes, and the type of its value only changes when it was overdue.\<close>

definition typed_effect :: "string \<Rightarrow> kstate \<Rightarrow> kstate \<Rightarrow> bool" where
  "typed_effect k s s' \<longleftrightarrow> (\<forall>j. j \<noteq> k \<longrightarrow> fst s' j = fst s j) \<and>
     (\<forall>v d v' d'. fst s k = Some (v, d) \<longrightarrow> fst s' k = Some (v', d') \<longrightarrow> type_of v' = type_of v \<or> overdue (snd s) d)"

lemma typed_effect_refl [simp]: "typed_effect k s s"
  by (simp add: typed_effect_def)

lemma expire_key_cases:
  assumes "expire_key k s = (A, c)"
  shows "A = fst s \<or> (\<exists>v d. fst s k = Some (v, d) \<and> overdue (snd s) d \<and> A = (fst s)(k := None))"
proof (cases "\<exists>v d. fst s k = Some (v, Some d)")
  case True
  then obtain v d where "fst s k = Some (v, Some d)" by blast
  moreover obtain now c' where "get_monotonic_msec (snd s) = (now, c')" by fastforce
  ultimately show ?thesis using assms by (cases "d \<le> now") (simp_all add: expire_key_def overdue_def)
next
  case False
  then have "expire_key k s = s" by (auto simp: expire_key_def split: option.splits)
  with assms show ?thesis by simp
qed

text \<open>After the access a command may do anything to its key that keeps the type of a value that is there.\<close>

lemma typed_effectI:
  assumes "expire_key k s = (A, c)" and "\<And>j. j \<noteq> k \<Longrightarrow> A' j = A j"
    and "\<And>v d v' d'. A k = Some (v, d) \<Longrightarrow> A' k = Some (v', d') \<Longrightarrow> type_of v' = type_of v"
  shows "typed_effect k s (A', c')"
  using expire_key_cases [OF assms(1)] assms(2,3) unfolding typed_effect_def by fastforce

lemma sp_effects:
  "typed_effect k s (snd (sp_get k s))"
  "typed_effect k s (snd (sp_set k v s))"
  "typed_effect k s (snd (sp_del k s))"
  "typed_effect k s (snd (sp_expire k arg u s))"
  "typed_effect k s (snd (sp_ttl k in_ms s))"
  "typed_effect k s (snd (sp_persist k s))"
  "typed_effect k s (snd (sp_zadd k arg name s))"
  "typed_effect k s (snd (sp_zrem k name s))"
  "typed_effect k s (snd (sp_zscore k name s))"
  "typed_effect k s (snd (sp_zquery k arg name oarg larg s))"
proof -
  obtain A c where e: "expire_key k s = (A, c)" by fastforce
  obtain now c' where n: "get_monotonic_msec c = (now, c')" by fastforce
  note sem = sp_get_def sp_set_def sp_del_def sp_expire_def sp_ttl_def sp_persist_def sp_zadd_def sp_zrem_def
    sp_zscore_def sp_zquery_def e n Let_def
  note I = typed_effectI [OF e]
  show "typed_effect k s (snd (sp_get k s))"
    "typed_effect k s (snd (sp_set k v s))"
    "typed_effect k s (snd (sp_del k s))"
    "typed_effect k s (snd (sp_expire k arg u s))"
    "typed_effect k s (snd (sp_ttl k in_ms s))"
    "typed_effect k s (snd (sp_persist k s))"
    "typed_effect k s (snd (sp_zadd k arg name s))"
    "typed_effect k s (snd (sp_zrem k name s))"
    "typed_effect k s (snd (sp_zscore k name s))"
    "typed_effect k s (snd (sp_zquery k arg name oarg larg s))"
    by (auto simp: sem split: option.split val.split prod.split intro!: I)
qed

lemma request_effect:
  assumes "request_spec cmd s r s'"
  shows "s' = s \<or> (\<exists>verb k args. cmd = verb # k # args \<and> typed_effect k s s')"
proof (cases "\<exists>verb. cmd = [verb] \<and> to_upper verb = ''KEYS''")
  case True
  with assms show ?thesis by (simp add: request_spec_def)
next
  case False
  with assms have "s' = snd (sp_request cmd s)" unfolding request_spec_def by (metis snd_conv)
  then show ?thesis
    using sp_effects by (auto simp: sp_request_def sp_unknown_def Let_def split: list.splits)
qed

subsection \<open>Properties\<close>

text \<open>C17: Types are stable and effects are local. A request changes at most the key that it names as
  its first argument, and if that key has a value before and after, the two have the same type, unless the old one
  was past its deadline: no command turns a string into a sorted set or back.\<close>

theorem request_type_safe:
  assumes "serves n db (A, c)" and "n + 1 < 2 ^ 31"
  shows "\<exists>db' r A' c'. do_request cmd db out = Some (db', out @ enc_reply r) \<and> serves (n + 1) db' (A', c') \<and>
    (\<forall>k. \<not> (\<exists>verb args. cmd = verb # k # args) \<longrightarrow> A' k = A k) \<and>
    (\<forall>k v d v' d'. A k = Some (v, d) \<longrightarrow> A' k = Some (v', d') \<longrightarrow> type_of v' = type_of v \<or> overdue c d)"
proof -
  from do_request_ok [OF assms, of cmd out] obtain db' r A' c' where
    r: "do_request cmd db out = Some (db', out @ enc_reply r)" "serves (Suc n) db' (A', c')" "request_spec cmd (A, c) r (A', c')"
    by (auto simp: answers_def)
  note eff = request_effect [OF r(3)]
  have local: "A' k = A k" if "\<not> (\<exists>verb args. cmd = verb # k # args)" for k
    using eff that by (auto simp: typed_effect_def)
  have "type_of v' = type_of v \<or> overdue c d" if "A k = Some (v, d)" "A' k = Some (v', d')" for k v d v' d'
    using eff that local [of k] by (cases "\<exists>verb args. cmd = verb # k # args") (auto simp: typed_effect_def)
  with r(1,2) local show ?thesis unfolding Suc_eq_plus1 by blast
qed

theorem request_type_safe_witness:
  "\<exists>db' r A' c'. do_request [''ZADD'', ''k'', ''1'', ''a''] demo_db [] = Some (db', enc_reply r) \<and> serves (1 + 1) db' (A', c') \<and>
     (\<forall>v' d'. A' ''k'' = Some (v', d') \<longrightarrow> type_of v' = T_STR)"
proof -
  from request_type_safe [OF serves_demo, of "[''ZADD'', ''k'', ''1'', ''a'']" "[]"] obtain db' r A' c' where
    r: "do_request [''ZADD'', ''k'', ''1'', ''a''] demo_db [] = Some (db', enc_reply r)" "serves (1 + 1) db' (A', c')"
    "\<forall>k v d v' d'. demo_keys k = Some (v, d) \<longrightarrow> A' k = Some (v', d') \<longrightarrow> type_of v' = type_of v \<or> overdue demo_clock d"
    by (auto simp del: split_paired_Ex)
  have "demo_keys ''k'' = Some (VStr ''v'', None)" by (simp add: demo_keys_def)
  with r(3) have "type_of v' = T_STR" if "A' ''k'' = Some (v', d')" for v' d'
    using that by (fastforce simp: overdue_def)
  with r(1,2) show ?thesis by blast
qed

end
