(* ===== verification/Server_Live.thy ===== *)
theory Server_Live
  imports Server_Run
begin

text \<open>
  Progress of the server: the replies that wait in the output buffer of a connection are sent, as long
  as \<open>poll\<close> reports from time to time that the connection takes data. The measure is the length of the output
  buffer: the server does not read requests from a connection that has output, so that it only
  shrinks until it is empty.
\<close>

declare split_paired_Ex [simp del] split_paired_All [simp del]

subsection \<open>Output that waits\<close>

definition pending :: "server \<Rightarrow> addr \<Rightarrow> nat" where
  "pending srv p = (case s_conn srv p of None \<Rightarrow> 0 | Some c \<Rightarrow> length (outgoing c))"

text \<open>The connection \<open>p\<close> is closed, or still there with no more output than before.\<close>

definition shrinks :: "addr \<Rightarrow> server \<Rightarrow> server \<Rightarrow> bool" where
  "shrinks p srv srv' \<longleftrightarrow> s_fresh srv \<le> s_fresh srv' \<and>
     (\<forall>c'. s_conn srv' p = Some c' \<longrightarrow>
        (\<exists>c. s_conn srv p = Some c \<and> c_fd c' = c_fd c \<and> length (outgoing c') \<le> length (outgoing c)))"

lemma shrinks_trans: "shrinks p srv srv' \<Longrightarrow> shrinks p srv' srv'' \<Longrightarrow> shrinks p srv srv''"
  unfolding shrinks_def by (intro conjI allI impI; fastforce)

lemma shrinks_pending: "shrinks p srv srv' \<Longrightarrow> pending srv' p \<le> pending srv p"
  unfolding shrinks_def pending_def by (cases "s_conn srv' p") auto

lemma shrinks_sub:
  assumes "s_conn srv' p = s_conn srv p \<or> s_conn srv' p = None" and "s_fresh srv \<le> s_fresh srv'"
  shows "shrinks p srv srv'"
  using assms by (auto simp: shrinks_def)

text \<open>A \<open>write\<close> that takes something.\<close>

definition takes_some :: "(nat \<Rightarrow> sys_write) \<Rightarrow> bool" where
  "takes_some wr \<longleftrightarrow> (\<forall>n > 0. \<exists>k > 0. wr n = Written k)"

lemma handle_write_shrinks:
  assumes "handle_write c wr = Some c'"
  shows "c_fd c' = c_fd c" "length (outgoing c') \<le> length (outgoing c)"
    "takes_some wr \<Longrightarrow> outgoing c \<noteq> [] \<Longrightarrow> length (outgoing c') < length (outgoing c)"
proof -
  show "c_fd c' = c_fd c" "length (outgoing c') \<le> length (outgoing c)"
    using assms by (auto simp: handle_write_def buf_consume_def Let_def split: if_splits sys_write.splits bind_splits)
  assume t: "takes_some wr" and n: "outgoing c \<noteq> []"
  then obtain k where "k > 0" "wr (length (outgoing c)) = Written k" unfolding takes_some_def by (metis length_greater_0_conv)
  with assms n show "length (outgoing c') < length (outgoing c)"
    by (auto simp: handle_write_def buf_consume_def Let_def split: if_splits)
qed

lemma conn_reset_conn:
  assumes "conn_reset srv fd = Some srv'" and "vec_at (s_conns srv) fd = Some (Some p)"
  shows "s_conn srv' = (s_conn srv)(p := None)" "s_fresh srv' = s_fresh srv"
  using assms by (auto simp: conn_reset_def conn_destroy_def Let_def split: bind_splits)

lemma accept_new_conn:
  assumes inv: "server_inv n srv s xs" and ok: "accept_ok srv acc" and acc: "accept_new srv acc = Some srv'" and p: "p < s_fresh srv"
  shows "s_conn srv' p = s_conn srv p \<and> s_fresh srv \<le> s_fresh srv'"
proof (cases acc)
  case (Accepted fd)
  obtain A c where s: "s = (A, c)" by fastforce
  obtain now k where now: "get_monotonic_msec c = (now, k)" by fastforce
  from accept_new_inv [OF inv [unfolded s] ok [unfolded Accepted] now] acc Accepted p show ?thesis by auto
qed (use acc in \<open>auto simp: accept_new_def\<close>)

lemma serve_conn_shrinks:
  assumes ok: "conns_ok srv xs" and step: "serve_conn srv fd (re, rd, wr) = Some srv'"
    and quiet: "\<And>c. s_conn srv p = Some c \<Longrightarrow> c_fd c = fd \<Longrightarrow> \<not> re_in re"
  shows "shrinks p srv srv'" and "\<lbrakk>s_conn srv p = Some c; c_fd c = fd; re_out re; takes_some wr; outgoing c \<noteq> []\<rbrakk> \<Longrightarrow> pending srv' p < pending srv p"
proof -
  have "shrinks p srv srv' \<and> (s_conn srv p = Some c \<longrightarrow> c_fd c = fd \<longrightarrow> re_out re \<longrightarrow> takes_some wr \<longrightarrow> outgoing c \<noteq> [] \<longrightarrow> pending srv' p < pending srv p)"
  proof (cases "(re_in re \<or> re_out re \<or> re_hup re \<or> re_other re) \<and> (\<exists>q. vec_at (s_conns srv) fd = Some (Some q))")
    case False
    then have "srv' = srv" and "s_conn srv p = Some c \<and> c_fd c = fd \<longrightarrow> \<not> re_out re"
      using step conns_okD(6) [OF ok, of fd p] by (auto simp: serve_conn_def vec_at_def split: option.splits if_splits)
    then show ?thesis by (auto intro: shrinks_sub)
  next
    case True
    then obtain q where q: "vec_at (s_conns srv) fd = Some (Some q)" by blast
    then obtain d where d: "s_conn srv q = Some d" "c_fd d = fd" using conns_okD(6) [OF ok] by blast
    obtain now srv1 where now: "srv_now srv = (now, srv1)" by fastforce
    then have s1: "s_conn srv1 = s_conn srv" "s_fresh srv1 = s_fresh srv" "s_conns srv1 = s_conns srv"
      by (auto simp: srv_now_def Let_def split: prod.splits)
    let ?d = "d\<lparr>last_active_ms := now\<rparr>"
    from step True q d(1) now obtain l db c1 c2 where st: "(if re_in re then handle_read (s_db srv1) ?d rd else Some (s_db srv1, ?d)) = Some (db, c1)"
      "(if re_out re then handle_write c1 wr else Some c1) = Some c2"
      "(if want_close c2 \<or> re_hup re then conn_reset (srv1\<lparr>s_links := l, s_db := db, s_conn := (s_conn srv1)(q \<mapsto> c2)\<rparr>) fd
        else Some (srv1\<lparr>s_links := l, s_db := db, s_conn := (s_conn srv1)(q \<mapsto> c2)\<rparr>)) = Some srv'"
      by (auto simp: serve_conn_def vec_at_eq_Some_iff Let_def split: bind_splits)
    have srv': "s_conn srv' = (s_conn srv)(q := None) \<or> s_conn srv' = (s_conn srv)(q \<mapsto> c2)" "s_fresh srv' = s_fresh srv"
      using st(3) q s1 conn_reset_conn [of _ fd srv' q] by (fastforce split: if_splits)+
    show ?thesis
    proof (cases "p = q")
      case False
      moreover have "c_fd c \<noteq> fd" if "s_conn srv p = Some c" using that False q conns_okD(6) [OF ok, of fd p] by auto
      ultimately show ?thesis using srv' by (auto intro!: shrinks_sub)
    next
      case True
      then have "c1 = ?d" using quiet [of d] d st(1) by simp
      then have c2: "c_fd c2 = c_fd d" "length (outgoing c2) \<le> length (outgoing d)"
        "re_out re \<Longrightarrow> takes_some wr \<Longrightarrow> outgoing d \<noteq> [] \<Longrightarrow> length (outgoing c2) < length (outgoing d)"
        using st(2) handle_write_shrinks [of ?d wr c2] by (auto split: if_splits)
      then show ?thesis using srv' d(1) True by (auto simp: shrinks_def pending_def)
    qed
  qed
  then show "shrinks p srv srv'" "\<lbrakk>s_conn srv p = Some c; c_fd c = fd; re_out re; takes_some wr; outgoing c \<noteq> []\<rbrakk> \<Longrightarrow> pending srv' p < pending srv p"
    by blast+
qed

lemma serve_all_shrinks:
  assumes "server_inv n srv s xs" and "n + length evs * read_budget < 2 ^ 31" and "\<forall>ev \<in> set evs. event_ok ev"
    and "serve_all srv fds evs = Some srv'" and "\<And>c. s_conn srv p = Some c \<Longrightarrow> c_fd c = fd0"
    and "\<And>ev. (fd0, ev) \<in> set (zip fds evs) \<Longrightarrow> \<not> re_in (fst ev)"
  shows "shrinks p srv srv' \<and>
    ((\<exists>re rd wr. (fd0, re, rd, wr) \<in> set (zip fds evs) \<and> re_out re \<and> takes_some wr) \<longrightarrow> 0 < pending srv p \<longrightarrow> pending srv' p < pending srv p)"
  using assms
proof (induction srv fds evs arbitrary: n s xs rule: serve_all.induct)
  case (1 srv fd fds ev evs)
  note own = 1(6)
  obtain re rd wr where ev: "ev = (re, rd, wr)" by (cases ev)
  have b: "n + read_budget < 2 ^ 31" "event_ok ev" using 1(3,4) by simp_all
  from serve_conn_ok [OF 1(2) b] obtain srv1 s1 xs1 where st: "serve_conn srv fd ev = Some srv1"
    "server_inv (n + read_budget) srv1 s1 xs1" by blast
  have quiet: "\<not> re_in re" if "s_conn srv p = Some c" "c_fd c = fd" for c using 1(6) [OF that(1)] 1(7) [of ev] that(2) ev by simp
  have one: "shrinks p srv srv1"
    "\<And>c. \<lbrakk>s_conn srv p = Some c; c_fd c = fd; re_out re; takes_some wr; outgoing c \<noteq> []\<rbrakk> \<Longrightarrow> pending srv1 p < pending srv p"
    using serve_conn_shrinks [OF server_invD(3) [OF 1(2)] st(1) [unfolded ev], of p] quiet by blast+
  have fd0: "c_fd c = fd0" if c: "s_conn srv1 p = Some c" for c
  proof -
    from one(1) c obtain c0 where "s_conn srv p = Some c0" "c_fd c = c_fd c0" unfolding shrinks_def by blast
    with own [of c0] show ?thesis by simp
  qed
  have bb: "n + read_budget + length evs * read_budget < 2 ^ 31" "\<forall>ev \<in> set evs. event_ok ev" using 1(3,4) by (simp_all add: ac_simps)
  have all: "serve_all srv1 fds evs = Some srv'" using 1(5) st(1) by simp
  have quiet': "\<not> re_in (fst ev')" if "(fd0, ev') \<in> set (zip fds evs)" for ev' using 1(7) that by simp
  from 1(1) [OF st(1) st(2) bb all fd0 quiet'] have rest: "shrinks p srv1 srv'"
    "\<And>re rd wr. (fd0, re, rd, wr) \<in> set (zip fds evs) \<Longrightarrow> re_out re \<Longrightarrow> takes_some wr \<Longrightarrow> 0 < pending srv1 p \<Longrightarrow> pending srv' p < pending srv1 p"
    by blast+
  note le = shrinks_pending [OF one(1)] shrinks_pending [OF rest(1)]
  have "pending srv' p < pending srv p"
    if w: "(fd0, re', rd', wr') \<in> set (zip (fd # fds) (ev # evs))" "re_out re'" "takes_some wr'" and pos: "0 < pending srv p" for re' rd' wr'
  proof -
    from pos obtain c where c: "s_conn srv p = Some c" "outgoing c \<noteq> []" by (auto simp: pending_def split: option.splits)
    from w(1) ev consider "fd = fd0" "re' = re" "wr' = wr" | "(fd0, re', rd', wr') \<in> set (zip fds evs)" by auto
    then show ?thesis
    proof cases
      case 1
      then have "pending srv1 p < pending srv p" using one(2) [OF c(1) _ _ _ c(2)] own [OF c(1)] w(2,3) by simp
      with le(2) show ?thesis by linarith
    next
      case 2
      show ?thesis
      proof (cases "0 < pending srv1 p")
        case True
        with rest(2) [OF 2 w(2,3)] le(1) show ?thesis by linarith
      next
        case False
        with le(2) pos show ?thesis by linarith
      qed
    qed
  qed
  with shrinks_trans [OF one(1) rest(1)] show ?case by blast
next
  case "2_1"
  then show ?case by (simp add: shrinks_sub)
next
  case "2_2"
  then show ?case by (simp add: shrinks_sub)
qed

subsection \<open>What \<open>poll\<close> reports\<close>

text \<open>\<open>poll\<close> answers for each descriptor, and reports input or room only if it was asked to.\<close>

definition polled :: "server \<Rightarrow> sys_poll \<Rightarrow> bool" where
  "polled srv res \<longleftrightarrow>
     (case res of
        PollReady l evs \<Rightarrow>
          (case poll_set srv (s_conns srv) of
             None \<Rightarrow> False
           | Some args \<Rightarrow> list_all2 (\<lambda>(fd, r, w) (re, _). (re_in re \<longrightarrow> r) \<and> (re_out re \<longrightarrow> w)) args evs)
      | _ \<Rightarrow> True)"

text \<open>The connection \<open>p\<close> takes some of its output in the iteration, or has none.\<close>

definition writable :: "server \<Rightarrow> sys_poll \<Rightarrow> addr \<Rightarrow> bool" where
  "writable srv res p \<longleftrightarrow>
     (case s_conn srv p of
        None \<Rightarrow> True
      | Some c \<Rightarrow> outgoing c = [] \<or>
          (\<exists>l evs args re rd wr. res = PollReady l evs \<and> poll_set srv (s_conns srv) = Some args \<and>
             (c_fd c, re, rd, wr) \<in> set (zip (map fst args) evs) \<and> re_out re \<and> takes_some wr))"

lemma poll_set_mem:
  "poll_set srv ps = Some args \<Longrightarrow> (fd, e) \<in> set args \<Longrightarrow> \<exists>p c. Some p \<in> set ps \<and> s_conn srv p = Some c \<and> fd = c_fd c \<and> e = poll_events c"
  by (induction srv ps arbitrary: args rule: poll_set.induct) (fastforce split: bind_splits)+

lemma polled_quiet:
  assumes inv: "server_inv n srv s xs" and poll: "polled srv (PollReady l evs)" "poll_set srv (s_conns srv) = Some args"
    and p: "s_conn srv p = Some c" "outgoing c \<noteq> []" and ev: "(c_fd c, ev) \<in> set (zip (map fst args) evs)"
  shows "\<not> re_in (fst ev)"
proof -
  note D = server_invD [OF inv]
  from ev obtain i where i: "i < length args" "i < length evs" "fst (args ! i) = c_fd c" "evs ! i = ev" by (auto simp: in_set_zip)
  from poll have "(case args ! i of (fd, r, w) \<Rightarrow> (case evs ! i of (re, _) \<Rightarrow> (re_in re \<longrightarrow> r) \<and> (re_out re \<longrightarrow> w)))"
    using i(1,2) by (auto simp: polled_def list_all2_conv_all_nth)
  then obtain r w where a: "args ! i = (c_fd c, r, w)" "re_in (fst ev) \<longrightarrow> r" using i(3,4) by (cases "args ! i"; cases ev) auto
  have "(c_fd c, r, w) \<in> set args" using a(1) i(1) nth_mem by metis
  from poll_set_mem [OF poll(2) this] obtain q d where q: "s_conn srv q = Some d" "c_fd c = c_fd d" "(r, w) = poll_events d" by blast
  have "vec_at (s_conns srv) (c_fd c) = Some (Some p)" "vec_at (s_conns srv) (c_fd c) = Some (Some q)"
    using conns_okD(6) [OF D(3)] p(1) q(1,2) by metis+
  then have "d = c" using p(1) q(1) by simp
  moreover have "conn_good c" using D(4) p(1) by (simp add: conns_good_def)
  ultimately show ?thesis using a(2) q(3) p(2) by (simp add: conn_good_def poll_events_def)
qed

lemma run_iteration_shrinks:
  assumes inv: "server_inv n srv s xs" and n: "n + poll_cost res < 2 ^ 31" and ok: "poll_ok res" "accept_ok srv acc" "polled srv res"
    and it: "run_iteration srv res acc = Some srv'" and p: "p < s_fresh srv" "0 < pending srv p"
  shows "shrinks p srv srv'" and "writable srv res p \<Longrightarrow> pending srv' p < pending srv p"
proof -
  obtain c where c: "s_conn srv p = Some c" "outgoing c \<noteq> []" using p(2) by (auto simp: pending_def split: option.splits)
  from poll_set_ok [of "s_conns srv" srv] conns_dom [OF server_invD(3) [OF inv]] obtain args where
    a: "poll_set srv (s_conns srv) = Some args" by blast
  from next_timer_inv [OF inv] obtain tm srv1 s1 where tm: "next_timer_ms srv = Some (tm, srv1)" "server_inv n srv1 s1 xs"
    "s_conn srv1 = s_conn srv" by blast
  have f1: "s_fresh srv1 = s_fresh srv"
    using tm(1) by (auto simp: next_timer_ms_def srv_now_def Let_def split: if_splits bind_splits prod.splits)
  have "shrinks p srv srv' \<and> (writable srv res p \<longrightarrow> pending srv' p < pending srv p)"
  proof (cases res)
    case PollIntr
    then have "srv' = srv1" using it a tm(1) by (simp add: run_iteration_def)
    with PollIntr tm(3) f1 c show ?thesis by (auto simp: writable_def intro: shrinks_sub)
  next
    case PollFail
    with ok(1) show ?thesis by (simp add: poll_ok_def)
  next
    case (PollReady l evs)
    have acc: "accept_ok srv1 acc" using ok(2) tm(3) by (simp add: accept_ok_def)
    from accept_inv [OF tm(2) acc] tm(2) obtain srv2 s2 xs2 where s2: "(if l then accept_new srv1 acc else Some srv1) = Some srv2"
      "server_inv n srv2 s2 xs2" by (cases l) auto
    have c2: "s_conn srv2 p = s_conn srv p" "s_fresh srv \<le> s_fresh srv2"
      using accept_new_conn [OF tm(2) acc, of srv2 p] s2(1) tm(3) f1 p(1) by (auto split: if_splits)
    have b: "n + length evs * read_budget < 2 ^ 31" "\<forall>ev \<in> set evs. event_ok ev"
      using n ok(1) PollReady by (simp_all add: poll_cost_def poll_ok_def)
    from serve_all_ok [OF s2(2) b] obtain srv3 s3 xs3 where s3: "serve_all srv2 (map fst args) evs = Some srv3"
      "server_inv (n + length evs * read_budget) srv3 s3 xs3" by blast
    have quiet: "\<not> re_in (fst ev)" if "(c_fd c, ev) \<in> set (zip (map fst args) evs)" for ev
      using polled_quiet [OF inv ok(3) [unfolded PollReady] a c that] .
    have own: "c_fd c' = c_fd c" if "s_conn srv2 p = Some c'" for c' using that c2(1) c(1) by simp
    have all: "shrinks p srv2 srv3"
      "\<And>re rd wr. (c_fd c, re, rd, wr) \<in> set (zip (map fst args) evs) \<Longrightarrow> re_out re \<Longrightarrow> takes_some wr \<Longrightarrow> 0 < pending srv2 p \<Longrightarrow>
        pending srv3 p < pending srv2 p"
      using serve_all_shrinks [OF s2(2) b s3(1), of p "c_fd c"] own quiet by blast+
    have t: "process_timers srv3 = Some srv'" using it a tm(1) s2(1) s3(1) PollReady by (simp add: run_iteration_def)
    obtain A k where s3': "s3 = (A, k)" by fastforce
    obtain now k' where now: "get_monotonic_msec k = (now, k')" by fastforce
    from process_timers_ok [OF s3(2) [unfolded s3'] now] t obtain zs where "s_conn srv' = s_conn srv3 |` set zs" "s_fresh srv' = s_fresh srv3" by auto
    then have "shrinks p srv3 srv'" by (intro shrinks_sub) (simp_all add: restrict_map_def)
    moreover have "shrinks p srv srv2" using c2 by (simp add: shrinks_sub)
    moreover have "pending srv2 p = pending srv p" using c2(1) by (simp add: pending_def)
    moreover have "pending srv3 p < pending srv2 p" if "writable srv res p"
    proof -
      from that a c PollReady obtain re rd wr where "(c_fd c, re, rd, wr) \<in> set (zip (map fst args) evs)" "re_out re" "takes_some wr"
        by (auto simp: writable_def)
      then show ?thesis using all(2) p(2) \<open>pending srv2 p = pending srv p\<close> by simp
    qed
    ultimately show ?thesis using all(1) shrinks_trans [of p srv] shrinks_trans [of p srv2] shrinks_pending [of p srv3 srv'] by (metis le_less_trans)
  qed
  then show "shrinks p srv srv'" "writable srv res p \<Longrightarrow> pending srv' p < pending srv p" by blast+
qed

subsection \<open>Executions\<close>

text \<open>What drives the server: an iteration of the event loop with the answers of the kernel, or a worker that
  executes a task.\<close>

datatype input = Iteration sys_poll sys_accept | Task addr

fun next_state :: "server \<times> traffic \<Rightarrow> input \<Rightarrow> (server \<times> traffic) option" where
  "next_state (srv, tr) (Iteration res acc) = do { srv' \<leftarrow> run_iteration srv res acc; Some (srv', iteration_traffic srv res acc tr) }"
| "next_state (srv, tr) (Task p) = do { db \<leftarrow> worker_step (s_db srv) p; Some (srv\<lparr>s_db := db\<rparr>, tr) }"

fun admissible :: "server \<Rightarrow> input \<Rightarrow> bool" where
  "admissible srv (Iteration res acc) \<longleftrightarrow> poll_ok res \<and> polled srv res \<and> accept_ok srv acc \<and> has_room (poll_cost res) (s_db srv)"
| "admissible srv (Task p) \<longleftrightarrow> True"

fun takes_output :: "addr \<Rightarrow> server \<times> traffic \<Rightarrow> input \<Rightarrow> bool" where
  "takes_output p (srv, tr) (Iteration res acc) \<longleftrightarrow> writable srv res p"
| "takes_output p st (Task q) \<longleftrightarrow> False"

text \<open>The states \<open>sts\<close> that the inputs \<open>ins\<close> lead through.\<close>

definition execution :: "(server \<times> traffic) list \<Rightarrow> input list \<Rightarrow> bool" where
  "execution sts ins \<longleftrightarrow> length sts = Suc (length ins) \<and>
     (\<forall>i < length ins. admissible (fst (sts ! i)) (ins ! i) \<and> next_state (sts ! i) (ins ! i) = Some (sts ! Suc i))"

lemma next_state_steps:
  assumes "server_steps st st1" and "admissible (fst st1) inp" and "next_state st1 inp = Some st2"
  shows "server_steps st st2"
proof -
  obtain srv tr where st1: "st1 = (srv, tr)" by fastforce
  show ?thesis
  proof (cases inp)
    case (Iteration res acc)
    with assms(3) st1 obtain srv' where "run_iteration srv res acc = Some srv'" "st2 = (srv', iteration_traffic srv res acc tr)"
      by (auto split: bind_splits)
    then show ?thesis using server_steps.iterate [OF assms(1) [unfolded st1]] assms(2) st1 Iteration by simp
  next
    case (Task p)
    with assms(3) st1 obtain db where "worker_step (s_db srv) p = Some db" "st2 = (srv\<lparr>s_db := db\<rparr>, tr)" by (auto split: bind_splits)
    then show ?thesis using server_steps.worker [OF assms(1) [unfolded st1]] by simp
  qed
qed

lemma execution_run:
  assumes "server_run clk srv tr" and "execution sts ins" and "sts ! 0 = (srv, tr)" and "i \<le> length ins"
  shows "server_run clk (fst (sts ! i)) (snd (sts ! i))"
proof -
  from assms(1) obtain tmo srv0 where st: "clock_mono clk" "server_init tmo clk = Some srv0"
    "server_steps (srv0, (\<lambda>_. [], \<lambda>_. [])) (srv, tr)" unfolding server_run_def by blast
  have "server_steps (srv0, (\<lambda>_. [], \<lambda>_. [])) (sts ! i)" using assms(4)
  proof (induction i)
    case 0
    then show ?case using st(3) assms(3) by simp
  next
    case (Suc i)
    then have "admissible (fst (sts ! i)) (ins ! i)" "next_state (sts ! i) (ins ! i) = Some (sts ! Suc i)"
      using assms(2) by (simp_all add: execution_def)
    with Suc show ?case using next_state_steps by simp
  qed
  with st(1,2) show ?thesis unfolding server_run_def by auto
qed

text \<open>Each step keeps the output of \<open>p\<close> from growing while there is any, and shrinks it if \<open>p\<close> takes some.\<close>

lemma next_state_pending:
  assumes run: "server_run clk (fst st) (snd st)" and adm: "admissible (fst st) inp" and nx: "next_state st inp = Some st'"
    and p: "p < s_fresh (fst st)" "0 < pending (fst st) p"
  shows "p < s_fresh (fst st') \<and> pending (fst st') p + (if takes_output p st inp then 1 else 0) \<le> pending (fst st) p"
proof -
  obtain srv tr where st: "st = (srv, tr)" by fastforce
  show ?thesis
  proof (cases inp)
    case (Iteration res acc)
    with nx st obtain srv' where srv': "run_iteration srv res acc = Some srv'" "fst st' = srv'" by (auto split: bind_splits)
    from adm Iteration st have ok: "poll_ok res" "polled srv res" "accept_ok srv acc" "has_room (poll_cost res) (s_db srv)" by simp_all
    from server_run_inv [OF run] st obtain n s xs where inv: "server_inv n srv s xs" by auto
    note sh = run_iteration_shrinks [OF server_inv_room [OF inv ok(4)] ok(1,3,2) srv'(1), of p]
    have "shrinks p srv srv'" using sh(1) p st by simp
    moreover have "pending srv' p < pending srv p" if "takes_output p st inp" using sh(2) p st that Iteration by simp
    ultimately show ?thesis using shrinks_pending [of p srv srv'] p(1) st srv'(2) by (auto simp: shrinks_def)
  next
    case (Task q)
    with nx st have "s_conn (fst st') = s_conn srv" "s_fresh (fst st') = s_fresh srv" by (auto split: bind_splits)
    with Task st p show ?thesis by (simp add: pending_def)
  qed
qed

lemma execution_flushes:
  assumes run: "server_run clk srv tr" and ex: "execution sts ins" "sts ! 0 = (srv, tr)" and p: "p < s_fresh srv"
    and w: "pending srv p \<le> card {i. i < length ins \<and> takes_output p (sts ! i) (ins ! i)}"
  shows "\<exists>i \<le> length ins. pending (fst (sts ! i)) p = 0"
proof (rule ccontr)
  assume "\<not> ?thesis"
  then have pos: "0 < pending (fst (sts ! i)) p" if "i \<le> length ins" for i using that by auto
  let ?W = "\<lambda>i. {j. j < i \<and> takes_output p (sts ! j) (ins ! j)}"
  have "p < s_fresh (fst (sts ! i)) \<and> pending (fst (sts ! i)) p + card (?W i) \<le> pending srv p" if "i \<le> length ins" for i
    using that
  proof (induction i)
    case 0
    then show ?case using ex(2) p by simp
  next
    case (Suc i)
    then have st: "admissible (fst (sts ! i)) (ins ! i)" "next_state (sts ! i) (ins ! i) = Some (sts ! Suc i)"
      using ex(1) by (simp_all add: execution_def)
    have "?W (Suc i) = (if takes_output p (sts ! i) (ins ! i) then insert i (?W i) else ?W i)" by (auto simp: less_Suc_eq)
    then have "card (?W (Suc i)) = card (?W i) + (if takes_output p (sts ! i) (ins ! i) then 1 else 0)" by simp
    with next_state_pending [OF execution_run [OF run ex] st] pos [of i] Suc show ?case by fastforce
  qed
  from this [of "length ins"] pos [of "length ins"] w show False by simp
qed

subsection \<open>Properties\<close>



end
