(* ===== verification/Server_Clients.thy ===== *)
theory Server_Clients
  imports Server_Run Client
begin

text \<open>
  The server as its clients see it. A client writes the frames of its commands; what the server makes of the
  bytes is determined, because a sequence of frames can be taken apart in one way only. So every command
  that has arrived has been executed, at its place in one sequence of events for all clients, and its reply
  is sent or about to be sent.
\<close>

declare split_paired_Ex [simp del] split_paired_All [simp del]

subsection \<open>Frames can be taken apart in one way\<close>

lemma frame_head:
  assumes "frame b @ x = frame b' @ y" and "length b \<le> MAX_MSG" and "length b' \<le> MAX_MSG"
  shows "b = b' \<and> x = y"
proof -
  have "Some (of_nat (length b) :: u32) = Some (of_nat (length b'))"
    using read_u32_frame [OF assms(2), of x] read_u32_frame [OF assms(3), of y] assms(1) by simp
  then have "length b = length b'" using read_u32_frame [OF assms(2)] read_u32_frame [OF assms(3)] by (metis option.inject)
  then have "length (frame b) = length (frame b')" by simp
  with assms(1) have "frame b = frame b' \<and> x = y" by (metis append_eq_append_conv)
  with \<open>length b = length b'\<close> show ?thesis by (simp add: frame_def)
qed

lemma partial_not_frame: "partial_input inp \<Longrightarrow> length b \<le> MAX_MSG \<Longrightarrow> inp \<noteq> frame b @ rest"
  using read_u32_frame [of b rest] by (auto simp: partial_input_def)

lemma frames_unique:
  assumes "concat (map frame bs) @ x = concat (map frame bs') @ y"
    and "\<forall>b \<in> set bs. length b \<le> MAX_MSG" and "\<forall>b \<in> set bs'. length b \<le> MAX_MSG" and "partial_input x" and "partial_input y"
  shows "bs = bs' \<and> x = y"
  using assms
proof (induction bs arbitrary: bs')
  case Nil
  then show ?case using partial_not_frame [of x] by (cases bs') auto
next
  case (Cons b bs)
  show ?case
  proof (cases bs')
    case Nil
    with Cons.prems have "y = frame b @ concat (map frame bs) @ x" "length b \<le> MAX_MSG" by simp_all
    with partial_not_frame Cons.prems(5) show ?thesis by blast
  next
    case (Cons b' bs'')
    with Cons.prems frame_head [of b "concat (map frame bs) @ x" b' "concat (map frame bs'') @ y"]
    have "b = b'" "concat (map frame bs) @ x = concat (map frame bs'') @ y" by auto
    with Cons.IH [of bs''] Cons.prems Cons show ?thesis by simp
  qed
qed

lemma kspec_lengths: "kspec s hs s' \<Longrightarrow> x \<in> set (exchanges p hs) \<Longrightarrow> length (fst x) \<le> MAX_MSG"
  by (induction rule: kspec.induct) (auto split: if_splits)

subsection \<open>Commands and their replies\<close>

lemma command_frame_spec:
  "length (command_body args) \<le> MAX_MSG \<Longrightarrow> frame_spec (command_body args) s r s' \<longleftrightarrow> request_spec args s r s'"
  using parse_command_body [of args] by (simp add: frame_spec_def)

text \<open>The connection is open, and its client has sent the commands \<open>cs\<close> and nothing else.\<close>

definition has_sent :: "server \<Rightarrow> traffic \<Rightarrow> addr \<Rightarrow> string list list \<Rightarrow> bool" where
  "has_sent srv tr p cs \<longleftrightarrow> s_conn srv p \<noteq> None \<and> (\<forall>a \<in> set cs. length (command_body a) \<le> MAX_MSG) \<and>
     fst tr p = concat (map (frame \<circ> command_body) cs)"

text \<open>In the sequence \<open>hs\<close> the requests of the connection are the commands \<open>cs\<close>, and their replies are what was sent
  together with what is in the output buffer.\<close>

definition answered :: "server \<Rightarrow> traffic \<Rightarrow> kevent list \<Rightarrow> addr \<Rightarrow> string list list \<Rightarrow> bool" where
  "answered srv tr hs p cs \<longleftrightarrow>
     (\<exists>rs. exchanges p hs = zip (map command_body cs) rs \<and> length rs = length cs \<and>
        snd tr p @ outgoing (the (s_conn srv p)) = concat (map reply_frame rs))"

lemma streams_answered:
  assumes good: "conns_good srv xs" and hs: "kspec s0 hs s" "streams srv hs tr" and sent: "has_sent srv tr p cs"
  shows "answered srv tr hs p cs"
proof -
  from sent obtain c where c: "s_conn srv p = Some c" by (auto simp: has_sent_def)
  with hs(2) have io: "fst tr p = requests_bytes p hs @ incoming c" "replies_bytes p hs = snd tr p @ outgoing c"
    unfolding streams_def by blast+
  let ?bs = "map fst (exchanges p hs)" and ?rs = "map snd (exchanges p hs)"
  have "concat (map frame ?bs) @ incoming c = concat (map frame (map command_body cs)) @ []"
    using io(1) sent by (simp add: has_sent_def requests_bytes_def)
  then have "?bs = map command_body cs \<and> incoming c = []"
  proof (rule frames_unique)
    show "\<forall>b \<in> set ?bs. length b \<le> MAX_MSG" using kspec_lengths [OF hs(1)] by auto
    show "\<forall>b \<in> set (map command_body cs). length b \<le> MAX_MSG" using sent by (simp add: has_sent_def)
    show "partial_input (incoming c)" using good c by (simp add: conns_good_def conn_good_def)
  qed (simp add: partial_input_def)
  then have "exchanges p hs = zip (map command_body cs) ?rs" "length ?rs = length cs"
    using zip_map_fst_snd [of "exchanges p hs"] by (metis length_map)+
  moreover have "snd tr p @ outgoing (the (s_conn srv p)) = concat (map reply_frame ?rs)"
    using io(2) c by (simp add: replies_bytes_def split_def comp_def)
  ultimately show ?thesis unfolding answered_def by blast
qed

subsection \<open>Properties\<close>


lemma demo_commands: "command_body [''SET'', ''k'', ''v''] = demo_set" "command_body [''GET'', ''k''] = demo_get"
  by code_simp+


end
