(* ===== verification/Terminal.thy ===== *)
theory Terminal
  imports Net_IO
begin

text \<open>
  What the client shows, character by character: the text of each line that \<open>print_value\<close> writes, and the banner
  and the prompts of \<open>main\<close> (\<open>client/client.cpp\<close>). Insertion of an integer into \<open>std::cout\<close> writes its decimal
  notation; insertion of a \<open>double\<close> is the conversion \<open>%g\<close> of \<open>printf\<close> with six significant digits, which is
  written out here with the exact value of the number.
\<close>

unbundle bit_operations_syntax

subsection \<open>Floating-point numbers in decimal notation\<close>

text \<open>The magnitude of a finite number as a fraction.\<close>

definition dbl_frac :: "dbl \<Rightarrow> nat \<times> nat" where
  "dbl_frac x =
     (let m = unat (dbl_mag x); e = m div 2 ^ 52; f = m mod 2 ^ 52;
          (sig, ex) = (if e = 0 then (f, - 1074) else (f + 2 ^ 52, int e - 1075))
      in (sig * 2 ^ nat ex, 2 ^ nat (- ex)))"

text \<open>The least \<open>k\<close> with \<open>d \<le> n * 10^k\<close>, for positive \<open>n\<close>.\<close>

function neg_log :: "nat \<Rightarrow> nat \<Rightarrow> nat" where
  "neg_log n d = (if n = 0 \<or> d \<le> n then 0 else Suc (neg_log (10 * n) d))"
  by pat_completeness auto
termination
  by (relation "measure (\<lambda>(n, d). d - n)") auto

declare neg_log.simps [simp del]

text \<open>The decimal exponent of the first digit of \<open>n/d\<close>.\<close>

definition dec_exp :: "nat \<Rightarrow> nat \<Rightarrow> int" where
  "dec_exp n d = (if d \<le> n then int (length (dec_nat (n div d))) - 1 else - int (neg_log n d))"

text \<open>Six significant digits, rounded to nearest, and the exponent of the first one.\<close>

definition six_digits :: "nat \<Rightarrow> nat \<Rightarrow> nat \<times> int" where
  "six_digits n d =
     (let x = dec_exp n d; q = div_half_even (n * 10 ^ nat (5 - x)) (d * 10 ^ nat (x - 5))
      in if q = 10 ^ 6 then (10 ^ 5, x + 1) else (q, x))"

definition strip_zeros :: "string \<Rightarrow> string" where
  "strip_zeros s = rev (dropWhile (\<lambda>c. c = CHR ''0'') (rev s))"

definition with_point :: "string \<Rightarrow> string \<Rightarrow> string" where
  "with_point ip fp = (let f = strip_zeros fp in if f = [] then ip else ip @ ''.'' @ f)"

definition fmt_g :: "nat \<Rightarrow> nat \<Rightarrow> string" where
  "fmt_g n d =
     (if n = 0 then ''0''
      else let (q, x) = six_digits n d; ds = dec_nat q
        in if - 4 \<le> x \<and> x < 6 then
             if 0 \<le> x then with_point (take (nat x + 1) ds) (drop (nat x + 1) ds)
             else with_point ''0'' (replicate (nat (- x) - 1) (CHR ''0'') @ ds)
           else with_point (take 1 ds) (drop 1 ds) @ ''e'' @ (if x < 0 then ''-'' else ''+'') @
             (if \<bar>x\<bar> < 10 then ''0'' else []) @ dec_nat (nat \<bar>x\<bar>))"

definition show_dbl :: "dbl \<Rightarrow> string" where
  "show_dbl x =
     (if dbl_sign x then ''-'' else []) @
     (if is_nan x then ''nan'' else if dbl_mag x = dbl_inf then ''inf''
      else let (n, d) = dbl_frac x in fmt_g n d)"

subsection \<open>Lines\<close>

definition newline :: string where
  "newline = [char_of (10 :: nat)]"

definition indent :: "nat \<Rightarrow> string" where
  "indent depth = concat (replicate depth ''  '')"

fun line_text :: "line \<Rightarrow> string" where
  "line_text LTruncated = ''(truncated)'' @ newline"
| "line_text (LBadTag t) = ''(bad tag '' @ dec_nat (unat t) @ '')'' @ newline"
| "line_text (LNil k) = indent k @ ''(nil)'' @ newline"
| "line_text (LInt k v) = indent k @ ''(integer) '' @ dec_int (sint v) @ newline"
| "line_text (LDbl k v) = indent k @ ''(double) '' @ show_dbl v @ newline"
| "line_text (LStr k s) = indent k @ [CHR 0x22] @ s @ [CHR 0x22] @ newline"
| "line_text (LErr k err s) = indent k @ ''(error '' @ dec_nat (unat err) @ '') '' @ s @ newline"
| "line_text (LArr k cnt) = indent k @ ''(array of '' @ dec_nat (unat cnt) @ '')'' @ newline"

fun shown_text :: "shown \<Rightarrow> string" where
  "shown_text Banner = ''Connected. Type commands (e.g. 'set foo bar', 'keys'); 'exit' to quit.'' @ newline"
| "shown_text Prompt = ''> ''"
| "shown_text (Printed ls) = concat (map line_text ls)"

subsection \<open>Six significant digits\<close>

lemma dec_nat_bounds:
  assumes "0 < m"
  shows "10 ^ (length (dec_nat m) - 1) \<le> m" "m < 10 ^ length (dec_nat m)"
proof -
  have "10 ^ (length (dec_nat m) - 1) \<le> m \<and> m < 10 ^ length (dec_nat m)"
    using assms
  proof (induction m rule: dec_nat.induct)
    case (1 m)
    show ?case
    proof (cases "m < 10")
      case True
      with 1(2) show ?thesis by (subst (1 2) dec_nat.simps) simp
    next
      case False
      then have "0 < m div 10" by (simp add: div_greater_zero_iff)
      with 1(1) False have ih: "10 ^ (length (dec_nat (m div 10)) - 1) \<le> m div 10" "m div 10 < 10 ^ length (dec_nat (m div 10))" by auto
      have l: "length (dec_nat m) = Suc (length (dec_nat (m div 10)))" using False by (subst dec_nat.simps) simp
      obtain k where k: "length (dec_nat (m div 10)) = Suc k" using dec_nat_digits(1) [of "m div 10"] by (cases "dec_nat (m div 10)") auto
      have "10 * 10 ^ k \<le> m" using ih(1) k by (simp add: less_eq_div_iff_mult_less_eq mult.commute)
      moreover have "m < 10 * 10 ^ Suc k" using ih(2) k by (simp add: div_less_iff_less_mult mult.commute)
      ultimately show ?thesis using l k by simp
    qed
  qed
  then show "10 ^ (length (dec_nat m) - 1) \<le> m" "m < 10 ^ length (dec_nat m)" by blast+
qed

lemma neg_log_bounds:
  assumes "0 < n"
  shows "d \<le> n * 10 ^ neg_log n d" "neg_log n d = Suc k \<Longrightarrow> n * 10 ^ k < d"
proof -
  have "d \<le> n * 10 ^ neg_log n d \<and> (\<forall>k. neg_log n d = Suc k \<longrightarrow> n * 10 ^ k < d)"
    using assms
  proof (induction n d rule: neg_log.induct)
    case (1 n d)
    show ?case
    proof (cases "d \<le> n")
      case True
      then show ?thesis by (simp add: neg_log.simps)
    next
      case False
      with 1 have ih: "d \<le> 10 * n * 10 ^ neg_log (10 * n) d" "\<And>k. neg_log (10 * n) d = Suc k \<Longrightarrow> 10 * n * 10 ^ k < d" by auto
      have "neg_log n d = Suc (neg_log (10 * n) d)" using False 1(2) by (subst neg_log.simps) simp
      with ih False show ?thesis by (cases "neg_log (10 * n) d") (auto simp: ac_simps)
    qed
  qed
  then show "d \<le> n * 10 ^ neg_log n d" "neg_log n d = Suc k \<Longrightarrow> n * 10 ^ k < d" by blast+
qed

lemma dec_exp_bounds:
  assumes "0 < n" and "0 < d"
  shows "10 powi dec_exp n d \<le> real n / real d" "real n / real d < 10 powi (dec_exp n d + 1)"
proof -
  have "10 powi dec_exp n d \<le> real n / real d \<and> real n / real d < 10 powi (dec_exp n d + 1)"
  proof (cases "d \<le> n")
    case True
    then have "0 < n div d" using assms by (simp add: div_greater_zero_iff)
    note b = dec_nat_bounds [OF this]
    obtain l where l: "length (dec_nat (n div d)) = Suc l" using dec_nat_digits(1) [of "n div d"] by (cases "dec_nat (n div d)") auto
    have "10 ^ l * d \<le> n" using b(1) l assms(2) by (simp add: less_eq_div_iff_mult_less_eq)
    then have "real (10 ^ l * d) \<le> real n" by (simp only: of_nat_le_iff)
    moreover have "n < 10 ^ Suc l * d" using b(2) l assms(2) by (simp add: div_less_iff_less_mult)
    then have "real n < real (10 ^ Suc l * d)" by (simp only: of_nat_less_iff)
    ultimately show ?thesis using True l assms by (simp add: dec_exp_def field_simps power_int_add)
  next
    case False
    then obtain k where k: "neg_log n d = Suc k" using assms(1) by (subst (asm) neg_log.simps) (use False assms in \<open>auto simp: neg_log.simps\<close>)
    note b = neg_log_bounds [OF assms(1), of d]
    have le: "real d \<le> real (n * 10 ^ Suc k)" using b(1) k by (simp only: of_nat_le_iff)
    have lt: "real (n * 10 ^ k) < real d" using b(2) [OF k] by (simp only: of_nat_less_iff)
    have x: "dec_exp n d = - int (Suc k)" "dec_exp n d + 1 = - int k" using False k by (simp_all add: dec_exp_def)
    have p: "10 powi (- int m) = 1 / (10 ^ m :: real)" for m by (simp add: power_int_minus divide_inverse)
    show ?thesis unfolding x(2) unfolding x(1) p using le lt assms by (simp add: field_simps)
  qed
  then show "10 powi dec_exp n d \<le> real n / real d" "real n / real d < 10 powi (dec_exp n d + 1)" by blast+
qed

lemma div_half_even_close:
  assumes "0 < D"
  shows "\<bar>real (div_half_even N D) - real N / real D\<bar> \<le> 1 / 2"
proof -
  let ?q = "N div D" and ?r = "N mod D"
  have "real N = real ?q * real D + real ?r" by (metis of_nat_add of_nat_mult div_mult_mod_eq)
  then have eq: "real N / real D = real ?q + real ?r / real D" using assms by (simp add: field_simps)
  have r: "real ?r / real D < 1" "0 \<le> real ?r / real D" using assms by simp_all
  show ?thesis
  proof (cases "2 * ?r > D \<or> 2 * ?r = D \<and> odd ?q")
    case True
    then have "real D \<le> 2 * real ?r" by (metis of_nat_mult of_nat_numeral of_nat_le_iff less_imp_le order_refl)
    then have "1 / 2 \<le> real ?r / real D" using assms by (simp add: field_simps)
    with True r show ?thesis by (simp add: div_half_even_def Let_def eq)
  next
    case False
    then have "2 * ?r \<le> D" by auto
    then have "2 * real ?r \<le> real D" by (metis of_nat_mult of_nat_numeral of_nat_le_iff)
    then have "real ?r / real D \<le> 1 / 2" using assms by (simp add: field_simps)
    moreover have "div_half_even N D = ?q" using False by (simp add: div_half_even_def Let_def)
    ultimately show ?thesis using r by (simp add: eq)
  qed
qed

lemma scale_ten: "real (n * 10 ^ nat (5 - y)) / real (d * 10 ^ nat (y - 5)) = real n / real d * 10 powi (5 - y)"
proof (cases "y \<le> 5")
  case True
  then show ?thesis by (simp add: power_int_def)
next
  case False
  then have e: "10 powi (5 - y) = inverse (10 ^ nat (y - 5) :: real)" by (simp add: power_int_def power_one_over inverse_eq_divide)
  show ?thesis unfolding e using False by (simp add: field_simps)
qed

lemma six_digits_close:
  assumes "0 < n" and "0 < d" and "six_digits n d = (q, x)"
  shows "10 ^ 5 \<le> q \<and> q < 10 ^ 6 \<and> \<bar>real n / real d - real q * 10 powi (x - 5)\<bar> \<le> real n / real d * (5 / 10 ^ 6)"
proof -
  define v where "v = real n / real d"
  define y where "y = dec_exp n d"
  define N where "N = n * 10 ^ nat (5 - y)"
  define D where "D = d * 10 ^ nat (y - 5)"
  define p where "p = div_half_even N D"
  define w where "w = (10 powi (y - 5) :: real)"
  have w: "0 < w" by (simp add: w_def)
  have pw: "10 powi y = w * 10 ^ 5" "10 powi (y + 1) = w * 10 ^ 6" "10 powi (5 - y) = 1 / w"
    using power_int_add [of "10 :: real" "y - 5" 5] power_int_add [of "10 :: real" "y - 5" 6] power_int_minus [of "10 :: real" "y - 5"]
    by (simp_all add: w_def divide_inverse add.commute)
  have b: "w * 10 ^ 5 \<le> v" "v < w * 10 ^ 6" using dec_exp_bounds [OF assms(1,2)] by (simp_all only: y_def [symmetric] pw v_def)
  have D: "0 < D" using assms(2) by (simp add: D_def)
  have s: "real N / real D = v / w" unfolding N_def D_def scale_ten v_def [symmetric] pw by simp
  have c: "\<bar>real p - v / w\<bar> \<le> 1 / 2" using div_half_even_close [OF D, of N] unfolding p_def s .
  have "100000 \<le> v / w" "v / w < 1000000" using b w by (simp_all add: field_simps)
  with c have "100000 \<le> real p + 1 / 2" "real p \<le> 1000000 + 1 / 2" by linarith+
  then have p: "100000 \<le> p" "p \<le> 1000000" by linarith+
  have "v - real p * w = - ((real p - v / w) * w)" using w by (simp add: left_diff_distrib)
  then have "\<bar>v - real p * w\<bar> = \<bar>real p - v / w\<bar> * w" using w by (simp only: abs_minus_cancel abs_mult abs_of_pos)
  also have "\<dots> \<le> 1 / 2 * w" using c w by (intro mult_right_mono) simp_all
  also have "\<dots> \<le> v * (5 / 10 ^ 6)" using b(1) by simp
  finally have e: "\<bar>v - real p * w\<bar> \<le> v * (5 / 10 ^ 6)" .
  have qx: "(q, x) = (if p = 10 ^ 6 then (10 ^ 5, y + 1) else (p, y))"
    using assms(3) unfolding six_digits_def Let_def p_def N_def D_def y_def by (rule sym)
  show ?thesis
  proof (cases "p = 10 ^ 6")
    case True
    then have "q = 10 ^ 5" "x = y + 1" using qx by simp_all
    moreover have "10 powi (y + 1 - 5) = 10 * w" using power_int_add [of "10 :: real" "y - 5" 1] by (simp add: w_def algebra_simps)
    ultimately show ?thesis using e True by (simp add: v_def)
  next
    case False
    then have "q = p" "x = y" using qx by simp_all
    moreover have "p < 1000000" using p(2) False by simp
    ultimately show ?thesis using p(1) e by (simp add: v_def w_def)
  qed
qed

subsection \<open>What the text stands for\<close>

text \<open>The exact value that \<open>strtod\<close> rounds, of a text that is a decimal number as a whole.\<close>

definition text_value :: "string \<Rightarrow> real option" where
  "text_value u =
     (let (ip, fp, v) = mantissa isdigit u; (ex, w) = exponent (CHR ''E'') v
      in if ip @ fp = [] \<or> w \<noteq> [] then None else Some (real (digits_val 10 (ip @ fp)) * 10 powi (ex - int (length fp))))"

lemma digits_val_append: "digits_val b (xs @ ys) = digits_val b xs * b ^ length ys + digits_val b ys"
proof (induction ys rule: rev_induct)
  case (snoc y ys)
  have "digits_val b (zs @ [y]) = digits_val b zs * b + digit_val y" for zs by (simp add: digits_val_def)
  from this [of "xs @ ys"] this [of ys] snoc show ?case by (simp add: algebra_simps)
qed (simp add: digits_val_def)

lemma zero_digit: "isdigit (CHR ''0'')" "digit_val (CHR ''0'') = 0"
  by (simp_all add: isdigit_def digit_val_def code_def)

lemma digits_val_zeros: "digits_val b (replicate k (CHR ''0'')) = 0"
  by (induction k) (simp_all add: digits_val_append [of b "[CHR ''0'']", simplified] digits_val_def zero_digit)

lemma strip_zeros_eq: "\<exists>k. s = strip_zeros s @ replicate k (CHR ''0'')"
proof -
  let ?P = "\<lambda>c. c = CHR ''0''"
  have "takeWhile ?P (rev s) = replicate (length (takeWhile ?P (rev s))) (CHR ''0'')"
    by (rule replicate_eqI [symmetric, OF refl, THEN sym]) (auto dest: set_takeWhileD)
  moreover have "s = rev (dropWhile ?P (rev s)) @ rev (takeWhile ?P (rev s))"
    by (metis rev_append rev_rev_ident takeWhile_dropWhile_id)
  ultimately show ?thesis unfolding strip_zeros_def by (metis rev_replicate)
qed

text \<open>The text of a mantissa, followed by nothing or by an exponent.\<close>

lemma mantissa_with_point:
  assumes ip: "\<forall>c \<in> set ip. isdigit c" and fp: "\<forall>c \<in> set fp. isdigit c" and rest: "rest = [] \<or> hd rest = CHR ''e''"
  shows "mantissa isdigit (with_point ip fp @ rest) = (ip, strip_zeros fp, rest)"
proof -
  obtain k where k: "fp = strip_zeros fp @ replicate k (CHR ''0'')" using strip_zeros_eq by blast
  have f: "\<forall>c \<in> set (strip_zeros fp). isdigit c" using fp by (subst (asm) k) simp
  have no: "\<not> isdigit (CHR ''e'')" "\<not> isdigit (CHR ''.'')" by (simp_all add: isdigit_def code_def)
  have tw: "takeWhile isdigit (xs @ rest) = xs" "dropWhile isdigit (xs @ rest) = rest" if "\<forall>c \<in> set xs. isdigit c" for xs
    using that rest no by (cases rest; simp add: takeWhile_append2 dropWhile_append2)+
  show ?thesis
  proof (cases "strip_zeros fp = []")
    case True
    then show ?thesis using tw [OF ip] rest by (cases rest) (simp_all add: with_point_def mantissa_def Let_def)
  next
    case False
    have "takeWhile isdigit (ip @ ''.'' @ strip_zeros fp @ rest) = ip" "dropWhile isdigit (ip @ ''.'' @ strip_zeros fp @ rest) = ''.'' @ strip_zeros fp @ rest"
      using ip no by (simp_all add: takeWhile_append2 dropWhile_append2)
    with False tw [OF f] show ?thesis by (simp add: with_point_def mantissa_def Let_def)
  qed
qed

lemma strip_zeros_value:
  "real (digits_val 10 (ip @ strip_zeros fp)) * 10 powi (ex - int (length (strip_zeros fp))) =
   real (digits_val 10 (ip @ fp)) * 10 powi (ex - int (length fp))"
proof -
  obtain k where k: "fp = strip_zeros fp @ replicate k (CHR ''0'')" using strip_zeros_eq by blast
  then have l: "length fp = length (strip_zeros fp) + k" by (metis length_append length_replicate)
  have "digits_val 10 (ip @ fp) = digits_val 10 (ip @ strip_zeros fp) * 10 ^ k"
    by (subst k) (simp only: append_assoc [symmetric] digits_val_append [of _ _ "replicate k _"] digits_val_zeros, simp)
  moreover have "(10 powi (ex - int (length (strip_zeros fp))) :: real) = 10 ^ k * 10 powi (ex - int (length fp))"
    using power_int_add [of "10 :: real" "int k" "ex - int (length fp)"] by (simp add: l)
  ultimately show ?thesis by simp
qed

lemma exponent_text:
  assumes "sg = (if x < 0 then ''-'' else ''+'')" and "z = [] \<or> z = ''0''"
  shows "exponent (CHR ''E'') (''e'' @ sg @ z @ dec_nat (nat \<bar>x\<bar>)) = (x, [])"
proof -
  define ds where "ds = z @ dec_nat (nat \<bar>x\<bar>)"
  have d: "\<forall>c \<in> set ds. isdigit c" "ds \<noteq> []" using assms(2) dec_nat_digits zero_digit by (auto simp: ds_def)
  have v: "int (digits_val 10 ds) = \<bar>x\<bar>"
    using assms(2) digits_val_zeros [of 10 1] digits_val_zeros [of 10 0] by (auto simp: ds_def digits_val_append dec_nat_val)
  have w: "takeWhile isdigit ds = ds" "dropWhile isdigit ds = []" using d(1) by (simp_all add: takeWhile_eq_all_conv dropWhile_eq_Nil_conv)
  have s: "sign (sg @ ds) = (x < 0, ds)" using assms(1) by simp
  have "toupper (CHR ''e'') = CHR ''E''" by code_simp
  then show ?thesis unfolding ds_def [symmetric] exponent_def using d(2) v by (simp add: s w Let_def)
qed

lemma fmt_g_value:
  assumes "0 < n" and "0 < d" and six: "six_digits n d = (q, x)"
  shows "text_value (fmt_g n d) = Some (real q * 10 powi (x - 5))"
proof -
  let ?ds = "dec_nat q"
  have q: "10 ^ 5 \<le> q" "q < 10 ^ 6" using six_digits_close [OF assms] by blast+
  then have "0 < q" by simp
  note b = dec_nat_bounds [OF this]
  have "(10 :: nat) ^ (length ?ds - 1) < 10 ^ 6" "(10 :: nat) ^ 5 < 10 ^ length ?ds"
    using le_less_trans [OF b(1) q(2)] le_less_trans [OF q(1) b(2)] .
  then have "length ?ds - 1 < 6" "5 < length ?ds"
    using power_less_imp_less_exp [of "10 :: nat" "length ?ds - 1" 6] power_less_imp_less_exp [of "10 :: nat" 5 "length ?ds"] by linarith+
  then have len: "length ?ds = 6" by simp
  have dig: "\<forall>c \<in> set ?ds. isdigit c" using dec_nat_digits(2) by blast
  have gen: "text_value (with_point ip fp @ rest) = Some (real (digits_val 10 (ip @ fp)) * 10 powi (ex - int (length fp)))"
    if "\<forall>c \<in> set (ip @ fp). isdigit c" "ip \<noteq> []" "rest = [] \<or> hd rest = CHR ''e''" "exponent (CHR ''E'') rest = (ex, [])" for ip fp rest ex
    using mantissa_with_point [of ip fp rest] that strip_zeros_value [of ip fp ex] by (simp add: text_value_def)
  have none: "exponent (CHR ''E'') [] = (0, [])" by (simp add: exponent_def)
  consider "0 \<le> x" "x < 6" | "- 4 \<le> x" "x < 0" | "\<not> (- 4 \<le> x \<and> x < 6)" by linarith
  then show ?thesis
  proof cases
    case 1
    let ?ip = "take (nat x + 1) ?ds" and ?fp = "drop (nat x + 1) ?ds"
    have "fmt_g n d = with_point ?ip ?fp @ []" using 1 assms(1) six by (simp add: fmt_g_def Let_def)
    moreover have "?ip \<noteq> []" "\<forall>c \<in> set (?ip @ ?fp). isdigit c" using len dig by auto
    ultimately have "text_value (fmt_g n d) = Some (real (digits_val 10 (?ip @ ?fp)) * 10 powi (0 - int (length ?fp)))"
      using gen none by metis
    then show ?thesis using 1 len by (simp add: dec_nat_val)
  next
    case 2
    let ?fp = "replicate (nat (- x) - 1) (CHR ''0'') @ ?ds"
    have "fmt_g n d = with_point ''0'' ?fp @ []" using 2 assms(1) six by (simp add: fmt_g_def Let_def)
    moreover have "\<forall>c \<in> set (''0'' @ ?fp). isdigit c" using dig zero_digit(1) by auto
    ultimately have "text_value (fmt_g n d) = Some (real (digits_val 10 (''0'' @ ?fp)) * 10 powi (0 - int (length ?fp)))"
      using gen none by (metis list.distinct(1))
    moreover have "digits_val 10 (''0'' @ ?fp) = q"
      by (simp only: digits_val_append digits_val_zeros dec_nat_val) (simp add: digits_val_def zero_digit)
    moreover have "0 - int (length ?fp) = x - 5" using 2 len by simp
    ultimately show ?thesis by simp
  next
    case 3
    let ?ip = "take 1 ?ds" and ?fp = "drop 1 ?ds"
      and ?e = "''e'' @ (if x < 0 then ''-'' else ''+'') @ (if \<bar>x\<bar> < 10 then ''0'' else []) @ dec_nat (nat \<bar>x\<bar>)"
    have "fmt_g n d = with_point ?ip ?fp @ ?e" using assms(1) unfolding fmt_g_def Let_def six prod.case if_not_P [OF 3] by simp
    moreover have "?ip \<noteq> []" "\<forall>c \<in> set (?ip @ ?fp). isdigit c" using len dig by auto
    moreover have "exponent (CHR ''E'') ?e = (x, [])" by (rule exponent_text) simp_all
    ultimately have "text_value (fmt_g n d) = Some (real (digits_val 10 (?ip @ ?fp)) * 10 powi (x - int (length ?fp)))"
      using gen [of ?ip ?fp ?e x] by simp
    then show ?thesis using len by (simp only: append_take_drop_id dec_nat_val) simp
  qed
qed

subsection \<open>Integers as scores\<close>

lemma dbl_parts:
  assumes "m < 2 ^ 63"
  shows "unat (dbl_mag (word_of_nat m)) = m" "\<not> dbl_sign (word_of_nat m)"
    "dbl_mag (word_of_nat m OR push_bit 63 1) = dbl_mag (word_of_nat m)" "dbl_sign (word_of_nat m OR push_bit 63 1)"
proof -
  have "take_bit 64 m = m" using assms by (simp add: take_bit_nat_eq_self)
  then have u: "unat (word_of_nat m :: dbl) = m" by (simp add: unsigned_of_nat)
  have "unat (take_bit 63 (word_of_nat m :: dbl)) = take_bit 63 (unat (word_of_nat m :: dbl))" by (rule unsigned_take_bit_eq)
  then show "unat (dbl_mag (word_of_nat m)) = m" using assms u by (simp add: dbl_mag_def take_bit_eq_mask [symmetric] take_bit_nat_eq_self)
  have "\<not> bit m 63" using assms by (simp add: bit_nat_iff bit_iff_odd)
  then show "\<not> dbl_sign (word_of_nat m)" by (simp add: dbl_sign_def bit_simps)
  show "dbl_mag (word_of_nat m OR push_bit 63 1) = dbl_mag (word_of_nat m)"
    unfolding dbl_mag_def by (rule bit_word_eqI) (auto simp only: bit_simps)
  show "dbl_sign (word_of_nat m OR push_bit 63 1)" by (simp add: dbl_sign_def bit_simps)
qed

lemma round_int:
  assumes "0 < z" and "z < 2 ^ 53"
  obtains K where "round_dbl z 1 < 2047 * 2 ^ 52" "\<And>w. unat (dbl_mag w) = round_dbl z 1 \<Longrightarrow> dbl_frac w = (z * 2 ^ K, 2 ^ K)"
proof -
  let ?k = "floorlog 2 z - 1" and ?K = "52 - (floorlog 2 z - 1)"
  have b: "2 ^ ?k \<le> z" "z < 2 ^ floorlog 2 z" "0 < floorlog 2 z" using floorlog_bounds [of z 2] assms(1) by (auto simp: floorlog_def)
  have "2 ^ ?k < (2 :: nat) ^ 53" using b(1) assms(2) by (rule le_less_trans)
  then have k: "?k \<le> 52" using power_less_imp_less_exp [of "2 :: nat" ?k 53] by linarith
  have fl: "floorlog 2 (Suc 0) = Suc 0" by (simp add: floorlog_def)
  have nk: "nat (int (floorlog 2 z) - 1) = ?k" by simp
  have rl: "ratio_log z 1 = int ?k" using b by (simp add: ratio_log_def fl nk Let_def of_nat_diff)
  define q where "q = z * 2 ^ ?K"
  have "2 ^ ?k * 2 ^ ?K \<le> q" unfolding q_def using b(1) by (rule mult_right_mono) simp
  then have q1: "2 ^ 52 \<le> q" using k by (simp flip: power_add)
  have "q < 2 ^ floorlog 2 z * 2 ^ ?K" unfolding q_def using b(2) by simp
  then have q2: "q < 2 ^ 53" using k b(3) by (simp flip: power_add)
  have mx: "max (- 1074) (int ?k - 52) = int ?k - 52" by simp
  have "nat (- (int ?k - 52)) = ?K" "nat (int ?k - 52) = 0" using k by simp_all
  then have r: "round_dbl z 1 = min ((?k + 1022) * 2 ^ 52 + q) (2047 * 2 ^ 52)"
    using assms(1) unfolding round_dbl_def rl mx Let_def by (simp add: div_half_even_def q_def nat_add_distrib add.commute)
  have lt: "(?k + 1022) * 2 ^ 52 + q < 2047 * 2 ^ 52" using k q2 by (simp add: algebra_simps)
  have e: "round_dbl z 1 = (?k + 1023) * 2 ^ 52 + (q - 2 ^ 52)" using r lt q1 by (simp add: algebra_simps)
  have f: "round_dbl z 1 div 2 ^ 52 = ?k + 1023" "round_dbl z 1 mod 2 ^ 52 = q - 2 ^ 52"
    unfolding e div_mult_self3 [OF power_not_zero [OF zero_neq_numeral [symmetric]]] mod_mult_self3 using q2 by simp_all
  show thesis
  proof (rule that)
    show "round_dbl z 1 < 2047 * 2 ^ 52" using r lt by simp
    fix w assume w: "unat (dbl_mag w) = round_dbl z 1"
    have "int (?k + 1023) - 1075 = int ?k - 52" by simp
    then show "dbl_frac w = (z * 2 ^ ?K, 2 ^ ?K)"
      unfolding dbl_frac_def Let_def w f using q1 k by (simp add: q_def)
  qed
qed

lemma dec_nat_zeros: "0 < z \<Longrightarrow> dec_nat (z * 10 ^ j) = dec_nat z @ replicate j (CHR ''0'')"
proof (induction j)
  case (Suc j)
  have "\<not> z * 10 ^ Suc j < 10" using Suc(2) by (simp add: not_less Suc_le_eq)
  moreover have "char_of (48 :: nat) = CHR ''0''" by code_simp
  ultimately have "dec_nat (z * 10 ^ Suc j) = dec_nat (z * 10 ^ j) @ ''0''" by (subst dec_nat.simps) (simp add: mult.assoc [symmetric] mult.commute [of 10])
  with Suc show ?case by (simp add: replicate_append_same)
qed simp

lemma fmt_g_int:
  assumes "0 < z" and "z < 10 ^ 6" and "0 < d"
  shows "fmt_g (z * d) d = dec_nat z"
proof -
  obtain l where l: "length (dec_nat z) = Suc l" using dec_nat_digits(1) [of z] by (cases "dec_nat z") auto
  note b = dec_nat_bounds [OF assms(1), unfolded l]
  have "(10 :: nat) ^ l < 10 ^ 6" using le_less_trans [OF b(1) assms(2)] by simp
  then have l6: "l < 6" using power_less_imp_less_exp [of "10 :: nat" l 6] by linarith
  have x: "dec_exp (z * d) d = int l" using assms l by (simp add: dec_exp_def)
  have "z * 10 ^ (5 - l) < 10 ^ Suc l * 10 ^ (5 - l)" using b(2) by simp
  also have "\<dots> = 10 ^ 6" using l6 by (simp flip: power_add power_Suc)
  finally have lt: "z * 10 ^ (5 - l) \<noteq> 10 ^ 6" by simp
  have n: "nat (5 - int l) = 5 - l" "nat (int l - 5) = 0" using l6 by simp_all
  have "z * d * 10 ^ (5 - l) = z * 10 ^ (5 - l) * d" by simp
  then have h: "div_half_even (z * d * 10 ^ (5 - l)) (d * 10 ^ 0) = z * 10 ^ (5 - l)" using assms(3) by (simp add: div_half_even_def)
  have six: "six_digits (z * d) d = (z * 10 ^ (5 - l), int l)" unfolding six_digits_def Let_def x n h if_not_P [OF lt] ..
  have s: "strip_zeros (replicate k (CHR ''0'')) = []" for k by (simp add: strip_zeros_def dropWhile_eq_Nil_conv)
  show ?thesis using assms l6 l by (simp add: fmt_g_def six dec_nat_zeros with_point_def s)
qed

lemma strtod_nat:
  shows "strtod_dec (dec_nat z) = Some (round_dbl z 1, [])" "strtod_mag (dec_nat z) = Some (round_dbl z 1, [])"
proof -
  have d: "\<forall>c \<in> set (dec_nat z). isdigit c" and ne: "dec_nat z \<noteq> []" using dec_nat_digits by blast+
  then have tw: "takeWhile isdigit (dec_nat z) = dec_nat z" "dropWhile isdigit (dec_nat z) = []" by (simp_all add: takeWhile_eq_all_conv)
  show "strtod_dec (dec_nat z) = Some (round_dbl z 1, [])"
    using ne by (simp add: strtod_dec_def mantissa_def tw exponent_def dec_nat_val scaled_def)
  have up: "toupper c = c" if "isdigit c" for c using that by (auto simp: toupper_def isdigit_def)
  have "map toupper (take k (dec_nat z)) = take k (dec_nat z)" for k using d up by (auto intro: map_idI dest: in_set_takeD)
  then have "has_prefix pat (dec_nat z) \<Longrightarrow> \<forall>c \<in> set pat. isdigit c" for pat
    unfolding has_prefix_def using d by (metis in_set_takeD)
  then have "\<not> has_prefix pat (dec_nat z)" if "\<not> isdigit (last pat)" "pat \<noteq> []" for pat using that last_in_set by blast
  then have "\<not> has_prefix ''INFINITY'' (dec_nat z)" "\<not> has_prefix ''INF'' (dec_nat z)" "\<not> has_prefix ''NAN'' (dec_nat z)" "\<not> has_prefix ''0X'' (dec_nat z)"
    by (simp_all add: isdigit_def code_def)
  with \<open>strtod_dec (dec_nat z) = Some (round_dbl z 1, [])\<close> show "strtod_mag (dec_nat z) = Some (round_dbl z 1, [])" by (simp add: strtod_mag_def)
qed


lemma score_int:
  assumes "z < 10 ^ 6"
  shows "round_dbl z 1 < 2047 * 2 ^ 52"
    and "unat (dbl_mag w) = round_dbl z 1 \<Longrightarrow> show_dbl w = (if dbl_sign w then ''-'' else []) @ dec_nat z"
    and "unat (dbl_mag w) = round_dbl z 1 \<Longrightarrow> \<not> is_nan w"
proof -
  have "round_dbl z 1 < 2047 * 2 ^ 52 \<and>
     (unat (dbl_mag w) = round_dbl z 1 \<longrightarrow> (case dbl_frac w of (n, d) \<Rightarrow> fmt_g n d) = dec_nat z)"
  proof (cases "z = 0")
    case True
    moreover have "dec_nat 0 = ''0''" by code_simp
    ultimately show ?thesis by (simp add: round_dbl_def dbl_frac_def fmt_g_def)
  next
    case False
    have "z < 2 ^ 53" using assms by simp
    from False obtain K where "round_dbl z 1 < 2047 * 2 ^ 52" "unat (dbl_mag w) = round_dbl z 1 \<longrightarrow> dbl_frac w = (z * 2 ^ K, 2 ^ K)"
      using round_int [OF _ \<open>z < 2 ^ 53\<close>] by blast
    with False assms show ?thesis by (simp add: fmt_g_int)
  qed
  then have lt: "round_dbl z 1 < 2047 * 2 ^ 52"
    and t: "unat (dbl_mag w) = round_dbl z 1 \<Longrightarrow> (case dbl_frac w of (n, d) \<Rightarrow> fmt_g n d) = dec_nat z" by blast+
  show "round_dbl z 1 < 2047 * 2 ^ 52" by (rule lt)
  assume w: "unat (dbl_mag w) = round_dbl z 1"
  have "unat dbl_inf = 2047 * 2 ^ 52" by (simp add: dbl_inf_def)
  then have "unat (dbl_mag w) < unat dbl_inf" using w lt by simp
  then show "\<not> is_nan w" by (simp add: is_nan_def word_less_nat_alt)
  moreover have "dbl_mag w \<noteq> dbl_inf" using \<open>unat (dbl_mag w) < unat dbl_inf\<close> by auto
  ultimately show "show_dbl w = (if dbl_sign w then ''-'' else []) @ dec_nat z"
    using t [OF w] by (simp add: show_dbl_def Let_def)
qed

lemma strtod_int:
  "strtod (dec_int z) = (if z < 0 then word_of_nat (round_dbl (nat \<bar>z\<bar>) 1) OR push_bit 63 1 else word_of_nat (round_dbl (nat \<bar>z\<bar>) 1), [])"
proof -
  have e: "dec_int z = (if z < 0 then ''-'' else []) @ dec_nat (nat \<bar>z\<bar>)" by (simp add: dec_int_def)
  have s: "sign (dec_int z) = (z < 0, dec_nat (nat \<bar>z\<bar>))" "\<not> isspace (hd (dec_int z))"
    unfolding e using sign_digits [of "if z < 0 then ''-'' else []" "dec_nat (nat \<bar>z\<bar>)"] dec_nat_digits by auto
  have "dropWhile isspace (dec_int z) = dec_int z" using s(2) by (cases "dec_int z") auto
  then show ?thesis unfolding strtod_def by (simp only: s(1) strtod_nat(2) Let_def prod.case option.case)
qed

lemma c_str_dec_int: "c_str (dec_int z) = dec_int z"
  using dec_nat_digits(2) digit_not_space(3) by (intro c_str_id) (auto simp: dec_int_def code_def)



text \<open>C16: Integers of up to six digits survive as scores. The decimal notation of such an integer is accepted as a
  score by the server, and the number that the server stores for it is shown by the client in the same notation.\<close>

theorem int_score_shown:
  assumes "\<bar>z\<bar> < 10 ^ 6"
  shows "\<exists>x. str2dbl (dec_int z) = Some x \<and> show_dbl x = dec_int z"
proof -
  define m where "m = round_dbl (nat \<bar>z\<bar>) 1"
  define x :: dbl where "x = (if z < 0 then word_of_nat m OR push_bit 63 1 else word_of_nat m)"
  have z: "nat \<bar>z\<bar> < 10 ^ 6" using assms by simp
  have "m < 2 ^ 63" using score_int(1) [OF z] by (simp add: m_def)
  note p = dbl_parts [OF this]
  have mag: "unat (dbl_mag x) = m" "dbl_sign x = (z < 0)" using p by (simp_all add: x_def)
  have "strtod (c_str (dec_int z)) = (x, [])" unfolding c_str_dec_int strtod_int x_def m_def ..
  then have "str2dbl (dec_int z) = Some x"
    using score_int(3) [OF z mag(1) [unfolded m_def]] dec_nat_digits(1) by (simp add: str2dbl_def dec_int_def)
  moreover have "show_dbl x = dec_int z"
    using score_int(2) [OF z mag(1) [unfolded m_def]] mag(2) by (simp add: dec_int_def)
  ultimately show ?thesis by blast
qed

theorem int_score_shown_witness:
  "\<exists>x. str2dbl ''-42'' = Some x \<and> show_dbl x = ''-42''"
proof -
  have "dec_int (- 42) = ''-42''" by code_simp
  then show ?thesis using int_score_shown [of "- 42"] by simp
qed

end
