(* ===== verification/Spec2Isabelle.thy ===== *)
theory Spec2Isabelle
  imports Server_Shutdown Startup Command_Effects Server_Live Server_Clients Terminal
begin

text \<open>
  A verification of mini-redis, an in-memory key-value server in C++ with string and sorted-set
  values, key expiry, pipelined requests over TCP and a command-line client.

  \<^bold>\<open>The program.\<close> The client (\<open>client/client.cpp\<close>) encodes a command as a length-prefixed frame,
  sends it with the blocking helpers of \<open>src/net/io_helpers.cpp\<close> and prints the framed reply. The server
  (\<open>src/server/server.cpp\<close>) runs one \<open>poll\<close> loop: it accepts connections, appends what it reads to the
  buffer of a connection, takes complete frames from it, parses each (\<open>src/protocol/wire.cpp\<close>), executes
  the command on the database (\<open>src/server/command.cpp\<close>, \<open>src/store/database.cpp\<close>) and appends the
  serialized reply (\<open>src/protocol/serialize.cpp\<close>) to the output buffer. The database is a hash table with
  progressive rehashing (\<open>src/store/hashtable.cpp\<close>) of entries, a heap of deadlines
  (\<open>src/ds/heap.cpp\<close>) and, for sorted sets, a pair of indexes over the same nodes: an AVL tree
  (\<open>src/ds/avl.cpp\<close>) and a hash table (\<open>src/ds/zset.cpp\<close>). Large sets are freed by a worker
  pool (\<open>src/threadpool/thread_pool.cpp\<close>). Idle connections are kept in an intrusive list in the
  order of their last activity (\<open>include/ds/dlist.h\<close>).

  \<^bold>\<open>Conventions of the model.\<close> A pointer is an address (a natural number), a nullable pointer an
  \<open>option\<close>, memory a partial map from addresses; allocation takes a fresh address and freeing
  removes it, so that use after free and double free show. An owner and the nodes embedded in it
  share their address. Whatever has no defined meaning in the source (a null or dangling pointer,
  an index out of range), a failed assertion, \<open>die\<close> and a loop that does not end are the result
  \<open>None\<close>: a theorem that an operation returns \<open>Some\<close> excludes them all. Integers are words where
  their width matters; \<open>double\<close> is its 64-bit pattern with the comparison of IEEE 754; bytes are
  8-bit words. The clock is the sequence of the results of \<open>clock_gettime\<close>, part of the
  database's state. System calls are arguments, restricted in the theorems only by their
  documented contract (\<open>accept_ok\<close>, \<open>poll_ok\<close>, \<open>event_ok\<close>, \<open>write_ok\<close>, \<open>polled\<close>, \<open>rd_bounded\<close>, \<open>wr_bounded\<close>).

  \<^bold>\<open>The theories.\<close>
  \<^item> \<open>Prelude\<close>: shared types, checked vector access, little-endian bytes, the interface \<open>codec\<close>.
  \<^item> \<open>Wire\<close>, \<open>Serialize\<close>, \<open>Client\<close>: request parser, reply appenders, request encoder and reply printer.
    The parser is total and accepts exactly the well-formed bodies; encoders and decoders are inverse;
    the two ways to write an array agree.
  \<^item> \<open>Avl\<close>, \<open>Avl_Spec\<close>, \<open>Avl_Refine\<close>: the tree on pointers, the balanced trees it stands for, and the
    refinement of linking, deletion and rank offsets.
  \<^item> \<open>Hash_Table\<close>, \<open>Hash_Refine\<close>: both tables and the migration between them; every operation
    refines a finite map at any stage of a rehash (the interface \<open>node_index\<close>).
  \<^item> \<open>Timer_Heap\<close>: the heap with the back indexes it writes into its owners, as a map from owners to
    deadlines (the interface \<open>deadline_queue\<close>).
  \<^item> \<open>Double\<close>, \<open>ZSet\<close>, \<open>ZSet_Refine\<close>: scores, and the sorted set as a sorted list of pairs.
  \<^item> \<open>Database\<close>, \<open>Database_Refine\<close>: entries, deadlines, deferred freeing; the database as a key space.
  \<^item> \<open>Number_Parse\<close>, \<open>Command\<close>, \<open>Command_Spec\<close>, \<open>Command_Refine\<close>: number arguments, the handlers and the
    dispatcher; \<open>request_spec\<close> gives each command's effect on the key space and its reply, and
    \<open>do_request\<close> refines it. Further properties follow commands by the replies of later ones;
    \<open>Command_Effects\<close> bounds what any request can change and shows that values keep their type.
  \<^item> \<open>DList\<close> (the interface \<open>node_list\<close>), \<open>Thread_Pool\<close> (all interleavings as a step relation: order, no
    lost wakeup, draining at shutdown), \<open>Socket\<close> (single ownership of descriptors), \<open>Net_IO\<close> (blocking
    transfers and the client's main program).
  \<^item> \<open>Server\<close>, \<open>Server_Requests\<close>, \<open>Server_Log\<close>, \<open>Server_Refine\<close>, \<open>Server_Run\<close>: the event loop; framing and
    pipelining; the bytes exchanged on every connection and the sequences of requests, time-outs and
    elapsed clock readings that explain them (\<open>history\<close>); the invariant \<open>server_inv\<close> of the connections, the
    idle list, the timers and the database, kept by each step together with the history; the runs
    \<open>server_run\<close>, in which workers free entries between the iterations, and their linearizability.
  \<^item> \<open>Server_Clients\<close>: linearizability as the clients see it, by the commands they send and the replies they get.
    \<open>Server_Live\<close>: progress, with the length of the output buffer as the measure; output that waits is
    sent while \<open>poll\<close> reports room, because the loop asks for room exactly then and reads nothing meanwhile.
  \<^item> \<open>Server_Shutdown\<close>: the database and the worker pool side by side, in every interleaving, and the
    destructor of the server: each entry and each connection is freed once, and none is left.
  \<^item> \<open>Startup\<close>: \<open>main\<close> (\<open>src/main.cpp\<close>), the constructor of the server with its listening socket, and the
    client's \<open>connect_to\<close>.
  \<^item> \<open>Terminal\<close>: the text that the client prints, with the conversion of a \<open>double\<close> to six significant digits, its
    accuracy, and the round trip of integers as scores.
  \<^item> This theory: a command from the client through the server's buffers and the database back to
    the client's terminal.

  \<^bold>\<open>Bounds.\<close> Counts in tree nodes and serialized lengths are 32-bit words and subscripts are
  \<open>size_t\<close>. The refinement of the commands asks for fewer than $2^{31}$ entries and pairs, which
  \<open>serves n\<close> counts: a request adds at most one. Executions have any length: an iteration only needs room
  (\<open>has_room\<close>) for what it may add at the time it starts, \<open>read_budget\<close> for each connection that is
  ready, which is what one \<open>read\<close> of 64 KiB can complete together with an unfinished frame. Deadlines are compared after a 64-bit addition;
  \<open>no_wrap\<close> says that it does not overflow for any connection, where a property depends on that. No theorem
  uses fuel: loops are recursive functions with a measure, or \<open>partial_function (option)\<close> together
  with a proof that the result is not \<open>None\<close>. The model runs: the example of two clients in \<open>Server_Run\<close>
  computes the whole event loop, the commands and the data structures in the logic.

  \<^bold>\<open>Not modelled.\<close> Messages on the error output (\<open>include/common/log.h\<close>, \<open>perror\<close> and \<open>std::cerr\<close> in
  the client), which no later step depends on, failure of allocation, the number of workers (the pool's theorems
  hold for each), \<open>container_of\<close> (an owner and its nodes share an address), and data races below the grain
  of critical sections: the worker's task and the event loop share no entry (\<open>Server_Shutdown\<close>), which is
  why a task is one step. After the body of the server's destructor its members go in the reverse order of
  their declaration: the pool, then the connections (both in \<open>Server_Shutdown\<close>), then the listening socket,
  whose destructor is that of \<open>Socket\<close>.
  Tests and build files are not part of the program.
\<close>

subsection \<open>From the command line to the database and back\<close>

text \<open>The frame that the client sends is the frame that the server takes apart.\<close>

lemma command_frame_frame:
  "command_frame args = Some fr \<Longrightarrow> fr = frame (command_body args) \<and> length (command_body args) \<le> MAX_MSG"
  by (auto simp: command_frame_def frame_def Let_def split: if_splits)

lemma serve_command:
  assumes s: "serves n db s" "n + 1 < 2 ^ 31" and fr: "command_frame args = Some fr"
    and c: "incoming c @ data = fr" "data \<noteq> []" "outgoing c = []"
  shows "\<exists>db' r s'. handle_read db c (ReadData data) =
      Some (db', c\<lparr>incoming := [], outgoing := reply_frame r, want_read := False, want_write := True\<rparr>) \<and>
    serves (Suc n) db' s' \<and> request_spec args s r s'"
proof -
  let ?c = "c\<lparr>incoming := incoming c @ data\<rparr>"
  note body = command_frame_frame [OF fr]
  have inp: "incoming ?c = frame (command_body args) @ []" using body c(1) by simp
  from try_one_full [OF s inp] body obtain db' r s' where
    1: "try_one_request db ?c = Some (db', ?c\<lparr>outgoing := outgoing ?c @ reply_frame r, incoming := []\<rparr>, True)"
      "serves (Suc n) db' s'" "frame_spec (command_body args) s r s'" by blast
  have "partial_input []" by (simp add: partial_input_def)
  then have "drain db' (?c\<lparr>outgoing := outgoing ?c @ reply_frame r, incoming := []\<rparr>) =
      Some (db', ?c\<lparr>outgoing := outgoing ?c @ reply_frame r, incoming := []\<rparr>)"
    by (subst drain.simps) (simp add: try_one_partial)
  then have "drain db ?c = Some (db', ?c\<lparr>outgoing := outgoing ?c @ reply_frame r, incoming := []\<rparr>)"
    by (subst drain.simps) (simp add: 1(1))
  moreover have "request_spec args s r s'"
    using 1(3) parse_command_body [of args] body by (simp add: frame_spec_def)
  moreover have "reply_frame r \<noteq> []" using length_frame [of "enc_reply r"] by force
  ultimately have "handle_read db c (ReadData data) =
      Some (db', c\<lparr>incoming := [], outgoing := reply_frame r, want_read := False, want_write := True\<rparr>)"
    using c by (cases c) (simp add: handle_read_def buf_append_def)
  with 1(2) \<open>request_spec args s r s'\<close> show ?thesis by blast
qed

text \<open>C5: A command travels from the client to the keyspace and back. When the last bytes of the
  frame that the client makes of a command reach the server, however the frame was cut up before,
  the server runs exactly that command, leaves the keyspace the command's specification leaves,
  and holds exactly one reply frame to send. The client, over any connection that takes its bytes
  in pieces and brings that frame in pieces once the request is complete, returns 0 and prints
  the specified reply, provided that it fits in the client's limit.\<close>

theorem command_served:
  assumes "serves n db s" and "n + 1 < 2 ^ 31" and "command_frame args = Some fr"
    and "incoming c @ data = fr" and "data \<noteq> []" and "outgoing c = []"
  shows "\<exists>db' r s'. handle_read db c (ReadData data) =
      Some (db', c\<lparr>incoming := [], outgoing := reply_frame r, want_read := False, want_write := True\<rparr>) \<and>
    serves (Suc n) db' s' \<and> request_spec args s r s' \<and>
    (length (enc_reply r) \<le> MAX_MSG \<longrightarrow>
      (\<forall>rd wr sent P (f :: 'f). takes wr sent P \<and> P f \<and>
          (\<forall>f'. P f' \<longrightarrow> sent f' = sent f @ fr \<longrightarrow> delivers rd f' (reply_frame r)) \<longrightarrow>
        (\<exists>f'. send_command rd wr f args = Some (0, reply_lines 0 r, f'))))"
proof -
  from serve_command [OF assms] obtain db' r s' where
    srv: "handle_read db c (ReadData data) =
      Some (db', c\<lparr>incoming := [], outgoing := reply_frame r, want_read := False, want_write := True\<rparr>)"
      "serves (Suc n) db' s'" "request_spec args s r s'" by blast
  have "\<exists>f'. send_command rd wr f args = Some (0, reply_lines 0 r, f')"
    if "length (enc_reply r) \<le> MAX_MSG" "takes wr sent P" "P f"
      "\<forall>f'. P f' \<longrightarrow> sent f' = sent f @ fr \<longrightarrow> delivers rd f' (reply_frame r)" for rd wr sent P and f :: 'f
    by (rule send_command_delivers [OF that(2,3) assms(3) _ that(1)]) (use that(4) in \<open>simp add: frame_def\<close>)
  then have "length (enc_reply r) \<le> MAX_MSG \<longrightarrow>
      (\<forall>rd wr sent P (f :: 'f). takes wr sent P \<and> P f \<and>
          (\<forall>f'. P f' \<longrightarrow> sent f' = sent f @ fr \<longrightarrow> delivers rd f' (reply_frame r)) \<longrightarrow>
        (\<exists>f'. send_command rd wr f args = Some (0, reply_lines 0 r, f')))" by blast
  with srv show ?thesis by (intro exI conjI)
qed

text \<open>A connection for the example: it takes one byte at a time, and holds what will be read.\<close>

definition pipe_wr :: "(byte list \<times> byte list) sys_wr" where
  "pipe_wr f data = (case f of (sent, inbox) \<Rightarrow> (Some (min 1 (length data)), (sent @ take 1 data, inbox)))"

definition pipe_rd :: "(byte list \<times> byte list) sys_rd" where
  "pipe_rd f n = (case f of (sent, inbox) \<Rightarrow> (Some (take n inbox), (sent, drop n inbox)))"

lemma pipe_delivers: "delivers pipe_rd (sent, inbox) inbox"
proof (induction "length inbox" arbitrary: inbox rule: less_induct)
  case less
  show ?case
  proof (cases "inbox = []")
    case False
    have "\<exists>a f'. pipe_rd (sent, inbox) n = (Some a, f') \<and> a \<noteq> [] \<and> length a \<le> n \<and>
        (\<exists>rest. inbox = a @ rest \<and> delivers pipe_rd f' rest)" if "0 < n" for n
      using that False less [of "drop n inbox"] by (simp add: pipe_rd_def) (metis append_take_drop_id)
    then show ?thesis by (intro delivers.piece) blast
  qed (simp add: delivers.nothing)
qed

lemma pipe_takes: "takes pipe_wr fst (\<lambda>f. snd f = inbox)"
  by (auto simp: takes_def pipe_wr_def Suc_le_eq min_def)

theorem command_served_witness:
  "\<exists>fr db' c' f'. command_frame [''GET'', ''k''] = Some fr \<and>
     handle_read demo_db (demo_conn (take 3 fr)) (ReadData (drop 3 fr)) = Some (db', c') \<and>
     outgoing c' = reply_frame (RStr ''v'') \<and>
     send_command pipe_rd pipe_wr ([], reply_frame (RStr ''v'')) [''GET'', ''k''] = Some (0, [LStr 0 ''v''], f')"
proof -
  obtain fr where fr: "command_frame [''GET'', ''k''] = Some fr"
    by (simp add: command_frame_def command_body_def MAX_MSG_def Let_def)
  have len: "length fr > 3" using command_frame_frame [OF fr] by simp
  let ?c = "demo_conn (take 3 fr)"
  have c: "(1 :: nat) + 1 < 2 ^ 31" "incoming ?c @ drop 3 fr = fr" "drop 3 fr \<noteq> []" "outgoing ?c = []"
    using len by (simp_all add: demo_conn_def)
  note served = command_served [OF serves_demo c(1) fr c(2-4), where 'f = "byte list \<times> byte list"]
  then obtain db' r s' where
    srv: "handle_read demo_db ?c (ReadData (drop 3 fr)) =
        Some (db', ?c\<lparr>incoming := [], outgoing := reply_frame r, want_read := False, want_write := True\<rparr>)"
      "request_spec [''GET'', ''k''] (demo_keys, demo_clock) r s'"
    and cl: "length (enc_reply r) \<le> MAX_MSG \<longrightarrow>
      (\<forall>rd wr sent P (f :: byte list \<times> byte list). takes wr sent P \<and> P f \<and>
          (\<forall>f'. P f' \<longrightarrow> sent f' = sent f @ fr \<longrightarrow> delivers rd f' (reply_frame r)) \<longrightarrow>
        (\<exists>f'. send_command rd wr f [''GET'', ''k''] = Some (0, reply_lines 0 r, f')))" by blast
  have r: "r = RStr ''v''"
    using srv(2) by (simp add: request_spec_def sp_request_def upper_eval sp_get_def expire_key_def demo_keys_def)
  have small: "length (enc_reply r) \<le> MAX_MSG" by (simp add: r MAX_MSG_def enc_str_def)
  have "takes pipe_wr fst (\<lambda>f. snd f = reply_frame r) \<and> snd ([] :: byte list, reply_frame r) = reply_frame r \<and>
      (\<forall>f'. snd f' = reply_frame r \<longrightarrow> fst f' = fst ([] :: byte list, reply_frame r) @ fr \<longrightarrow>
        delivers pipe_rd f' (reply_frame r))"
    using pipe_takes pipe_delivers by (metis prod.collapse snd_conv)
  from cl [THEN mp, OF small, THEN spec, THEN spec, THEN spec, THEN spec, THEN spec, THEN mp, OF this]
  obtain f' where "send_command pipe_rd pipe_wr ([], reply_frame r) [''GET'', ''k''] = Some (0, reply_lines 0 r, f')" ..
  with fr srv(1) show ?thesis unfolding r by (intro exI conjI) (assumption | simp)+
qed

end
